(* ===== verification/Prelude.thy ===== *)
theory Prelude
  imports Main "HOL-Library.Word" "HOL-Library.Sublist"
begin

text \<open>
  Generic lemmas shared by the components: prefixes and suffixes of strings, decimal
  numerals, maps, removal from a list by index, signed readings of machine words.
  Nothing here is specific to the program; the theorem collections that the component
  theories extend are declared first.
\<close>

named_theorems heap_simps \<open>how an operation changes what a pointer refers to\<close>
named_theorems step_intros \<open>introduction rules of the interleaving step relations\<close>

type_synonym 'a pred = "'a \<Rightarrow> bool"

section \<open>Lists\<close>

text \<open>Dropping the element at one index: Go's \<^verbatim>\<open>append(xs[:i], xs[i+1:]...)\<close>.\<close>

definition delete_at :: "nat \<Rightarrow> 'a list \<Rightarrow> 'a list" where
  "delete_at i xs = take i xs @ drop (Suc i) xs"

text \<open>The first index at which a predicate holds, as a search loop finds it.\<close>

fun find_index :: "('a \<Rightarrow> bool) \<Rightarrow> 'a list \<Rightarrow> nat option" where
  "find_index P [] = None"
| "find_index P (x # xs) = (if P x then Some 0 else map_option Suc (find_index P xs))"

text \<open>Decimal digits of a natural number, most significant first.\<close>

fun nat_digits :: "nat \<Rightarrow> nat list" where
  "nat_digits n = (if n < 10 then [n] else nat_digits (n div 10) @ [n mod 10])"

declare nat_digits.simps [simp del]

definition digits_value :: "nat list \<Rightarrow> nat" where
  "digits_value ds = foldl (\<lambda>acc d. 10 * acc + d) 0 ds"

lemma find_index_None [simp]: "find_index P xs = None \<longleftrightarrow> (\<forall>x \<in> set xs. \<not> P x)"
  by (induction xs) auto

lemma find_index_SomeD:
  "find_index P xs = Some i \<Longrightarrow> i < length xs \<and> P (xs ! i) \<and> (\<forall>j < i. \<not> P (xs ! j))"
proof (induction xs arbitrary: i)
  case (Cons x xs)
  show ?case
  proof (cases "P x")
    case False
    with Cons.prems obtain k where "find_index P xs = Some k" and i: "i = Suc k" by auto
    with Cons.IH have "k < length xs \<and> P (xs ! k) \<and> (\<forall>j < k. \<not> P (xs ! j))" by blast
    with i False show ?thesis by (auto simp: less_Suc_eq_0_disj)
  qed (use Cons.prems in auto)
qed simp

lemma find_index_eq_memD: "find_index (\<lambda>y. y = x) xs = Some i \<Longrightarrow> x \<in> set xs"
  using find_index_SomeD nth_mem by fastforce

text \<open>On a list without duplicates, deleting the index of an element is filtering it out.\<close>

lemma delete_at_find_index:
  assumes "distinct xs" and "find_index (\<lambda>y. y = x) xs = Some i"
  shows "delete_at i xs = filter (\<lambda>y. y \<noteq> x) xs"
  using assms
proof (induction xs arbitrary: i)
  case (Cons y ys)
  show ?case
  proof (cases "y = x")
    case True
    with Cons.prems have "x \<notin> set ys" and "i = 0" by auto
    then show ?thesis
      using True by (auto simp: delete_at_def intro!: filter_True [symmetric])
  next
    case False
    with Cons.prems obtain k where "find_index (\<lambda>y. y = x) ys = Some k" and i: "i = Suc k"
      by auto
    with Cons have "delete_at k ys = filter (\<lambda>y. y \<noteq> x) ys" by simp
    with i False show ?thesis by (simp add: delete_at_def)
  qed
qed simp

lemma digits_value_Nil [simp]: "digits_value [] = 0"
  by (simp add: digits_value_def)

lemma digits_value_snoc [simp]: "digits_value (ds @ [d]) = 10 * digits_value ds + d"
  by (simp add: digits_value_def)

lemma nat_digits_nonempty [simp]: "nat_digits n \<noteq> []"
  by (subst nat_digits.simps) simp

lemma nat_digits_bound: "d \<in> set (nat_digits n) \<Longrightarrow> d < 10"
proof (induction n rule: nat_digits.induct)
  case (1 n)
  then show ?case
    by (cases "n < 10") (auto simp: nat_digits.simps [of n])
qed

lemma digits_value_nat_digits [simp]: "digits_value (nat_digits n) = n"
proof (induction n rule: nat_digits.induct)
  case (1 n)
  show ?case
  proof (cases "n < 10")
    case True
    then show ?thesis by (simp add: nat_digits.simps [of n] digits_value_def)
  next
    case False
    with "1.IH" show ?thesis by (simp add: nat_digits.simps [of n])
  qed
qed

lemma nat_digits_inject [simp]: "nat_digits m = nat_digits n \<longleftrightarrow> m = n"
  by (metis digits_value_nat_digits)

text \<open>Two texts cut at the last occurrence of a separator that the tails do not hold.\<close>

lemma append_sep_inject:
  assumes "c \<notin> set us" and "c \<notin> set vs"
  shows "xs @ c # us = ys @ c # vs \<longleftrightarrow> xs = ys \<and> us = vs"
proof
  assume eq: "xs @ c # us = ys @ c # vs"
  then have "rev us @ c # rev xs = rev vs @ c # rev ys"
    by (metis append.assoc append_Cons append_Nil rev.simps(2) rev_append)
  then have "takeWhile (\<lambda>d. d \<noteq> c) (rev us @ c # rev xs)
      = takeWhile (\<lambda>d. d \<noteq> c) (rev vs @ c # rev ys)" by simp
  moreover have "takeWhile (\<lambda>d. d \<noteq> c) (rev us @ c # rev xs) = rev us"
    using assms(1) by (subst takeWhile_append2) auto
  moreover have "takeWhile (\<lambda>d. d \<noteq> c) (rev vs @ c # rev ys) = rev vs"
    using assms(2) by (subst takeWhile_append2) auto
  ultimately have "us = vs" by simp
  with eq show "xs = ys \<and> us = vs" by simp
qed simp

text \<open>The same at the first occurrence of the separator.\<close>

lemma sep_append_inject:
  assumes "c \<notin> set xs" and "c \<notin> set ys"
  shows "xs @ c # us = ys @ c # vs \<longleftrightarrow> xs = ys \<and> us = vs"
proof
  assume "xs @ c # us = ys @ c # vs"
  then have "rev us @ c # rev xs = rev vs @ c # rev ys"
    by (metis append.assoc append_Cons append_Nil rev.simps(2) rev_append)
  then show "xs = ys \<and> us = vs"
    using append_sep_inject [of c "rev xs" "rev ys" "rev us" "rev vs"] assms by simp
qed simp

section \<open>Signed readings of machine words\<close>

lemma sint_word_of_int_64:
  assumes "- (2 ^ 63) \<le> x" and "x < 2 ^ 63"
  shows "sint (word_of_int x :: 64 word) = x"
  using assms by (simp add: sint_sbintrunc' signed_take_bit_int_eq_self)

end
