(* ===== verification/Go_Lib.thy ===== *)
theory Go_Lib
  imports Prelude
begin

text \<open>
  What the program uses of the Go language and its standard library: \<^verbatim>\<open>int64\<close> and
  \<^verbatim>\<open>time.Duration\<close> as 64-bit words read by two's complement, \<^verbatim>\<open>time.Time\<close> as a
  count of nanoseconds, errors as values, the functions of package \<^verbatim>\<open>strings\<close> and
  \<^verbatim>\<open>strconv\<close> the sources call. A Go string is a sequence of bytes, as is an
  Isabelle \<^typ>\<open>string\<close>.
\<close>

section \<open>Errors and panics\<close>

text \<open>
  An error value is a package variable made by \<^verbatim>\<open>errors.New\<close> (identified by the
  variable, since two calls of \<^verbatim>\<open>errors.New\<close> with one text are different errors), a
  message formatted by \<^verbatim>\<open>fmt.Errorf\<close> without \<^verbatim>\<open>%w\<close> (the format and its
  arguments), an error of code outside the repository, or an error wrapped with
  \<^verbatim>\<open>%w\<close> behind a prefix.
\<close>

datatype go_error =
    ErrVar string string
  | Errorf string "string list"
  | ForeignErr string
  | Wrapped string go_error

datatype panic = Panic string

type_synonym 'a result = "go_error + 'a"

text \<open>A call that may fail and changes the state \<^typ>\<open>'s\<close>, whether it fails or not.\<close>

type_synonym ('s, 'a) call = "'s \<Rightarrow> 'a result \<times> 's"

text \<open>
  \<^verbatim>\<open>err.Error()\<close>. The text of a formatted error is its format and arguments, not the
  formatted string.
\<close>

fun error_text :: "go_error \<Rightarrow> string" where
  "error_text (ErrVar v msg) = msg"
| "error_text (Errorf fmt args) = fmt @ concat args"
| "error_text (ForeignErr msg) = msg"
| "error_text (Wrapped p e) = p @ error_text e"

fun errors_Is :: "go_error \<Rightarrow> go_error \<Rightarrow> bool" where
  "errors_Is (Wrapped p e) target = (Wrapped p e = target \<or> errors_Is e target)"
| "errors_Is e target = (e = target)"

section \<open>Machine integers, durations and instants\<close>

type_synonym int64 = "64 word"
type_synonym Duration = int64

definition Nanosecond :: Duration where "Nanosecond = 1"
definition Millisecond :: Duration where "Millisecond = 1000000"
definition Second :: Duration where "Second = 1000000000"

datatype Time = Time (nanos: int)

text \<open>Instants are ordered by the clock reading: \<^verbatim>\<open>t.After(u)\<close> is \<open>u < t\<close>.\<close>

instantiation Time :: linorder
begin

definition less_eq_Time :: "Time \<Rightarrow> Time \<Rightarrow> bool" where
  "less_eq_Time t u \<longleftrightarrow> nanos t \<le> nanos u"

definition less_Time :: "Time \<Rightarrow> Time \<Rightarrow> bool" where
  "less_Time t u \<longleftrightarrow> nanos t < nanos u"

instance
  by standard (auto simp: less_eq_Time_def less_Time_def intro: Time.expand)

end

definition Time_After :: "Time \<Rightarrow> Time \<Rightarrow> bool" where
  "Time_After t u \<longleftrightarrow> u < t"

definition Time_Before :: "Time \<Rightarrow> Time \<Rightarrow> bool" where
  "Time_Before t u \<longleftrightarrow> t < u"

definition Time_Add :: "Time \<Rightarrow> Duration \<Rightarrow> Time" where
  "Time_Add t d = Time (nanos t + sint d)"

text \<open>
  The clock is the sequence of readings the next calls of \<^verbatim>\<open>time.Now\<close> return. It is
  monotone when the readings never go back.
\<close>

type_synonym addr = nat  \<comment> \<open>a non-nil pointer\<close>

type_synonym Clock = "nat \<Rightarrow> Time"

definition time_Now :: "Clock \<Rightarrow> Time \<times> Clock" where
  "time_Now c = (c 0, \<lambda>n. c (Suc n))"

section \<open>Package strings\<close>

fun strings_Index :: "string \<Rightarrow> string \<Rightarrow> int" where
  "strings_Index [] sub = (if sub = [] then 0 else -1)"
| "strings_Index (c # cs) sub =
     (if prefix sub (c # cs) then 0
      else let i = strings_Index cs sub in if i = -1 then -1 else i + 1)"

definition strings_Contains :: "string \<Rightarrow> string \<Rightarrow> bool" where
  "strings_Contains s sub \<longleftrightarrow> strings_Index s sub \<ge> 0"

definition strings_HasSuffix :: "string \<Rightarrow> string \<Rightarrow> bool" where
  "strings_HasSuffix s suf \<longleftrightarrow>
     length suf \<le> length s \<and> drop (length s - length suf) s = suf"

definition strings_TrimSuffix :: "string \<Rightarrow> string \<Rightarrow> string" where
  "strings_TrimSuffix s suf =
     (if strings_HasSuffix s suf then take (length s - length suf) s else s)"

section \<open>Package strconv and decimal formatting\<close>

definition digit_char :: "nat \<Rightarrow> char" where
  "digit_char d = char_of (48 + d)"

definition is_digit :: "char \<Rightarrow> bool" where
  "is_digit c \<longleftrightarrow> 48 \<le> (of_char c :: nat) \<and> (of_char c :: nat) \<le> 57"

definition digit_value :: "char \<Rightarrow> nat" where
  "digit_value c = of_char c - 48"

text \<open>The verb \<^verbatim>\<open>%d\<close>.\<close>

definition itoa :: "int \<Rightarrow> string" where
  "itoa n = (if n < 0 then CHR ''-'' # map digit_char (nat_digits (nat (- n)))
             else map digit_char (nat_digits (nat n)))"

definition ErrSyntax :: go_error where
  "ErrSyntax = ErrVar ''strconv.ErrSyntax'' ''invalid syntax''"

definition ErrRange :: go_error where
  "ErrRange = ErrVar ''strconv.ErrRange'' ''value out of range''"

text \<open>An optional sign, then at least one decimal digit and nothing else.\<close>

fun split_sign :: "string \<Rightarrow> bool \<times> string" where
  "split_sign [] = (False, [])"
| "split_sign (c # cs) =
     (if c = CHR ''-'' then (True, cs) else if c = CHR ''+'' then (False, cs)
      else (False, c # cs))"

definition strconv_Atoi :: "string \<Rightarrow> int result" where
  "strconv_Atoi s =
     (let (neg, ds) = split_sign s; n = int (digits_value (map digit_value ds)) in
      if ds = [] \<or> \<not> list_all is_digit ds then Inl ErrSyntax
      else if neg then (if n \<le> 2 ^ 63 then Inr (- n) else Inl ErrRange)
      else (if n < 2 ^ 63 then Inr n else Inl ErrRange))"

section \<open>Lemmas\<close>

lemma errors_Is_refl [simp]: "errors_Is e e"
  by (cases e) simp_all

lemma Time_After_iff [simp]: "Time_After t u \<longleftrightarrow> u < t"
  by (simp add: Time_After_def)

lemma Time_Before_iff [simp]: "Time_Before t u \<longleftrightarrow> t < u"
  by (simp add: Time_Before_def)

lemma Time_less [simp]: "Time a < Time b \<longleftrightarrow> a < b"
  by (simp add: less_Time_def)

lemma Time_less_eq [simp]: "Time a \<le> Time b \<longleftrightarrow> a \<le> b"
  by (simp add: less_eq_Time_def)

lemma nanos_Time_Add [simp]: "nanos (Time_Add t d) = nanos t + sint d"
  by (simp add: Time_Add_def)

lemma strings_Index_ge: "strings_Index s sub \<ge> -1"
  by (induction s) (auto simp: Let_def)

lemma strings_Index_absent: "strings_Index s [c] = -1 \<longleftrightarrow> c \<notin> set s"
proof (induction s)
  case (Cons d s)
  then show ?case
    using strings_Index_ge [of s "[c]"] by (auto simp: Let_def)
qed simp

lemma strings_Contains_char [simp]: "strings_Contains s [c] \<longleftrightarrow> c \<in> set s"
  using strings_Index_ge [of s "[c]"] strings_Index_absent [of s c]
  by (auto simp: strings_Contains_def)

text \<open>Cutting at the index of a character keeps what stands before its first occurrence.\<close>

lemma take_strings_Index:
  "strings_Index s [c] \<noteq> -1 \<Longrightarrow> take (nat (strings_Index s [c])) s = takeWhile (\<lambda>d. d \<noteq> c) s"
proof (induction s)
  case (Cons d s)
  show ?case
  proof (cases "d = c")
    case False
    with Cons.prems have i: "strings_Index s [c] \<noteq> -1" by (auto simp: Let_def split: if_splits)
    then have "0 \<le> strings_Index s [c]" using strings_Index_ge [of s "[c]"] by simp
    then have "nat (strings_Index s [c] + 1) = Suc (nat (strings_Index s [c]))" by simp
    with i False Cons.IH show ?thesis by (simp add: Let_def)
  qed simp
qed simp

lemma strings_HasSuffix_iff: "strings_HasSuffix s suf \<longleftrightarrow> (\<exists>p. s = p @ suf)"
  by (auto simp: strings_HasSuffix_def) (metis append_take_drop_id)

lemma strings_HasSuffix_append [simp]: "strings_HasSuffix (p @ suf) suf"
  by (auto simp: strings_HasSuffix_iff)

lemma strings_TrimSuffix_append [simp]: "strings_TrimSuffix (p @ suf) suf = p"
  by (simp add: strings_TrimSuffix_def)

lemma of_char_digit_char [simp]: "d < 10 \<Longrightarrow> of_char (digit_char d) = 48 + d"
  by (simp add: digit_char_def)

lemma is_digit_digit_char: "d < 10 \<Longrightarrow> is_digit (digit_char d)"
  by (simp add: is_digit_def)

lemma digit_value_digit_char: "d < 10 \<Longrightarrow> digit_value (digit_char d) = d"
  by (simp add: digit_value_def)

lemma map_digit_value [simp]: "map (digit_value \<circ> digit_char) (nat_digits n) = nat_digits n"
  by (auto simp: digit_value_digit_char nat_digits_bound intro!: map_idI)

lemma all_digits [simp]: "list_all is_digit (map digit_char (nat_digits n))"
  by (auto simp: list_all_iff is_digit_digit_char nat_digits_bound)

lemma sign_not_digit: "\<not> is_digit CHR ''-''" "\<not> is_digit CHR ''+''" "\<not> is_digit CHR '':''"
  by (simp_all add: is_digit_def)

lemma split_sign_digits [simp]:
  "split_sign (map digit_char (nat_digits n)) = (False, map digit_char (nat_digits n))"
proof (cases "map digit_char (nat_digits n)")
  case (Cons c cs)
  with all_digits [of n] have "is_digit c" by simp
  then show ?thesis using sign_not_digit Cons by auto
qed simp

text \<open>Parsing what \<^verbatim>\<open>%d\<close> prints gives the number back, for every \<^verbatim>\<open>int64\<close>.\<close>

lemma strconv_Atoi_itoa:
  assumes "- (2 ^ 63) \<le> n" and "n < 2 ^ 63"
  shows "strconv_Atoi (itoa n) = Inr n"
  using assms by (simp add: strconv_Atoi_def itoa_def)

lemma itoa_no_colon: "CHR '':'' \<notin> set (itoa n)"
proof -
  have "c \<noteq> CHR '':''" if "c \<in> set (map digit_char (nat_digits k))" for c k
    using all_digits [of k] that sign_not_digit by (auto simp: list_all_iff)
  then show ?thesis by (auto simp: itoa_def)
qed

end
