(* ===== verification/Go_Http.thy ===== *)
theory Go_Http
  imports Go_Lib
begin

text \<open>
  What the program uses of packages \<^verbatim>\<open>context\<close> and \<^verbatim>\<open>net/http\<close>: contexts as
  chains of key/value pairs, requests, responses, and the routing of \<^verbatim>\<open>http.ServeMux\<close>
  for patterns with a method, literal segments and wildcards. A request's path is given
  as its decoded segments: \<^verbatim>\<open>ServeMux\<close> redirects a path that is not in canonical form
  before any handler runs, so handlers see canonical paths only. Of the response headers
  only \<^verbatim>\<open>Content-Type\<close> is kept.
\<close>

section \<open>Contexts\<close>

text \<open>
  A key's Go type is part of its identity: \<open>ContextKey\<close> is the unexported type
  \<^verbatim>\<open>contextKey\<close> of package \<^verbatim>\<open>tenantctx\<close>, which no other package can name;
  every other key is foreign. A stored value is a \<^verbatim>\<open>*tenant.Tenant\<close> (possibly nil)
  or of another type.
\<close>

datatype ctx_key = ContextKey int | ForeignKey string

datatype ctx_value = TenantPtr "addr option" | ForeignValue string

datatype Context = Background | WithValue Context ctx_key ctx_value

fun Context_Value :: "Context \<Rightarrow> ctx_key \<Rightarrow> ctx_value option" where
  "Context_Value Background k = None"
| "Context_Value (WithValue ctx k' v) k = (if k' = k then Some v else Context_Value ctx k)"

section \<open>Requests and responses\<close>

record Request =
  Method :: string
  Host :: string
  Path :: "string list"
  req_Context :: Context
  pathValues :: "(string \<times> string) list"

definition Request_WithContext :: "Request \<Rightarrow> Context \<Rightarrow> Request" where
  "Request_WithContext r ctx = r\<lparr>req_Context := ctx\<rparr>"

text \<open>The value of a wildcard of the matched pattern, empty when there is none.\<close>

definition Request_PathValue :: "Request \<Rightarrow> string \<Rightarrow> string" where
  "Request_PathValue r n = (case map_of (pathValues r) n of None \<Rightarrow> [] | Some v \<Rightarrow> v)"

datatype json = JNull | JString string | JArray "json list" | JObject "(string \<times> json) list"

datatype body = NoBody | TextBody string | JsonBody json

record Response =
  Status :: int
  ContentType :: "string option"
  Body :: body

definition StatusOK :: int where "StatusOK = 200"
definition StatusNoContent :: int where "StatusNoContent = 204"
definition StatusUnauthorized :: int where "StatusUnauthorized = 401"
definition StatusForbidden :: int where "StatusForbidden = 403"
definition StatusNotFound :: int where "StatusNotFound = 404"
definition StatusMethodNotAllowed :: int where "StatusMethodNotAllowed = 405"
definition StatusConflict :: int where "StatusConflict = 409"
definition StatusInternalServerError :: int where "StatusInternalServerError = 500"
definition StatusServiceUnavailable :: int where "StatusServiceUnavailable = 503"

lemmas status_defs = StatusOK_def StatusNoContent_def StatusUnauthorized_def
  StatusForbidden_def StatusNotFound_def StatusMethodNotAllowed_def StatusConflict_def
  StatusInternalServerError_def StatusServiceUnavailable_def

text \<open>\<^verbatim>\<open>http.Error\<close> writes a plain text body, followed by a newline.\<close>

definition http_Error :: "string \<Rightarrow> int \<Rightarrow> Response" where
  "http_Error msg code = \<lparr>Status = code,
     ContentType = Some ''text/plain; charset=utf-8'', Body = TextBody (msg @ [CHR 0x0A])\<rparr>"

text \<open>A JSON object written with \<^verbatim>\<open>json.NewEncoder(w).Encode\<close> under a status.\<close>

definition json_response :: "int \<Rightarrow> (string \<times> json) list \<Rightarrow> Response" where
  "json_response code fs = \<lparr>Status = code, ContentType = Some ''application/json'',
     Body = JsonBody (JObject fs)\<rparr>"

definition empty_response :: "int \<Rightarrow> Response" where
  "empty_response code = \<lparr>Status = code, ContentType = None, Body = NoBody\<rparr>"

text \<open>
  A handler answers a request or panics, and may change the program's state either way:
  the server recovers the panic of a handler and goes on.
\<close>

type_synonym 's Handler = "Request \<Rightarrow> 's \<Rightarrow> (panic + Response) \<times> 's"

section \<open>Routing\<close>

datatype segment = Lit string | Wild string

record 's route =
  rt_method :: "string option"
  rt_segments :: "segment list"
  rt_subtree :: bool
  rt_handler :: "'s Handler"

fun match_segments :: "segment list \<Rightarrow> bool \<Rightarrow> string list \<Rightarrow> (string \<times> string) list option" where
  "match_segments [] sub ps = (if ps = [] \<or> sub then Some [] else None)"
| "match_segments (s # ss) sub [] = None"
| "match_segments (Lit l # ss) sub (p # ps) =
     (if l = p then match_segments ss sub ps else None)"
| "match_segments (Wild n # ss) sub (p # ps) =
     map_option (\<lambda>vs. (n, p) # vs) (match_segments ss sub ps)"

text \<open>A pattern for \<^verbatim>\<open>GET\<close> serves \<^verbatim>\<open>HEAD\<close> as well.\<close>

definition method_matches :: "string option \<Rightarrow> string \<Rightarrow> bool" where
  "method_matches rm m = (case rm of None \<Rightarrow> True
     | Some g \<Rightarrow> g = m \<or> (g = ''GET'' \<and> m = ''HEAD''))"

text \<open>
  Routes are tried in the order of the list, most specific first; a path that only
  routes of another method match is answered with 405, one that none matches with 404.
\<close>

fun ServeMux_routes :: "'s route list \<Rightarrow> bool \<Rightarrow> 's Handler" where
  "ServeMux_routes [] seen r s =
     (Inr (if seen then http_Error ''Method Not Allowed'' StatusMethodNotAllowed
           else http_Error ''404 page not found'' StatusNotFound), s)"
| "ServeMux_routes (rt # rts) seen r s =
     (case match_segments (rt_segments rt) (rt_subtree rt) (Path r) of
        None \<Rightarrow> ServeMux_routes rts seen r s
      | Some vs \<Rightarrow>
          (if method_matches (rt_method rt) (Method r)
           then rt_handler rt (r\<lparr>pathValues := vs\<rparr>) s
           else ServeMux_routes rts True r s))"

definition ServeMux_ServeHTTP :: "'s route list \<Rightarrow> 's Handler" where
  "ServeMux_ServeHTTP rts = ServeMux_routes rts False"

lemma Request_WithContext_sel [simp]:
  "Method (Request_WithContext r c) = Method r"
  "Host (Request_WithContext r c) = Host r"
  "Path (Request_WithContext r c) = Path r"
  "req_Context (Request_WithContext r c) = c"
  by (simp_all add: Request_WithContext_def)

end
