(* ===== verification/Tenant.thy ===== *)
theory Tenant
  imports Go_Http
begin

text \<open>
  The root package (\<^verbatim>\<open>src/tenant.go\<close>): tenant identifiers, states and roles, the
  \<^verbatim>\<open>Tenant\<close> struct and its life on the heap, the sentinel errors, the \<^verbatim>\<open>Store\<close>
  interface, and the \<^verbatim>\<open>Manager\<close> with its options. The contract of
  \<^verbatim>\<open>Store\<close>/\<^verbatim>\<open>AdminStore\<close> is stated as locales; the stores interpret them in
  their own theories, and what \<^verbatim>\<open>Manager.Resolve\<close> gives is proved once from the
  contract.
\<close>

section \<open>Data\<close>

type_synonym TenantID = string
type_synonym Role = string
type_synonym State = string

definition Active :: State where "Active = ''active''"
definition Disabled :: State where "Disabled = ''disabled''"
definition Banned :: State where "Banned = ''banned''"

text \<open>
  A tenant as a value, and the struct as it lies in memory: \<^verbatim>\<open>Roles\<close> is a slice, a
  reference to an array that copies of the struct share (\<^term>\<open>None\<close> is the nil slice).
  No code of the repository reslices \<^verbatim>\<open>Roles\<close>, so a slice is the whole of its array.
\<close>

record Tenant =
  tID :: TenantID
  tState :: State
  tRoles :: "Role list"

record TenantStruct =
  sID :: TenantID
  sState :: State
  sRoles :: "addr option"

text \<open>
  The heap: structs and role arrays at addresses, allocated in increasing order.
\<close>

record Heap =
  structs :: "addr \<Rightarrow> TenantStruct"
  arrays :: "addr \<Rightarrow> Role list"
  next_addr :: addr

definition alloc_struct :: "TenantStruct \<Rightarrow> Heap \<Rightarrow> addr \<times> Heap" where
  "alloc_struct t h = (next_addr h,
     h\<lparr>structs := (structs h)(next_addr h := t), next_addr := Suc (next_addr h)\<rparr>)"

definition alloc_array :: "Role list \<Rightarrow> Heap \<Rightarrow> addr \<times> Heap" where
  "alloc_array rs h = (next_addr h,
     h\<lparr>arrays := (arrays h)(next_addr h := rs), next_addr := Suc (next_addr h)\<rparr>)"

text \<open>Field assignment \<^verbatim>\<open>t.State = state\<close> and element assignment \<^verbatim>\<open>t.Roles[i] = r\<close>.\<close>

definition write_State :: "addr \<Rightarrow> State \<Rightarrow> Heap \<Rightarrow> Heap" where
  "write_State p st h = h\<lparr>structs := (structs h)(p := (structs h p)\<lparr>sState := st\<rparr>)\<rparr>"

definition write_struct :: "addr \<Rightarrow> TenantStruct \<Rightarrow> Heap \<Rightarrow> Heap" where
  "write_struct p t h = h\<lparr>structs := (structs h)(p := t)\<rparr>"

definition write_Role :: "addr \<Rightarrow> nat \<Rightarrow> Role \<Rightarrow> Heap \<Rightarrow> panic + Heap" where
  "write_Role p i r h =
     (case sRoles (structs h p) of
        None \<Rightarrow> Inl (Panic ''index out of range'')
      | Some a \<Rightarrow>
          (if i < length (arrays h a)
           then Inr (h\<lparr>arrays := (arrays h)(a := (arrays h a)[i := r])\<rparr>)
           else Inl (Panic ''index out of range'')))"

text \<open>The tenant a pointer refers to.\<close>

definition slice_roles :: "Heap \<Rightarrow> addr option \<Rightarrow> Role list" where
  "slice_roles h sl = (case sl of None \<Rightarrow> [] | Some a \<Rightarrow> arrays h a)"

definition struct_value :: "Heap \<Rightarrow> TenantStruct \<Rightarrow> Tenant" where
  "struct_value h t = \<lparr>tID = sID t, tState = sState t, tRoles = slice_roles h (sRoles t)\<rparr>"

definition deref :: "Heap \<Rightarrow> addr \<Rightarrow> Tenant" where
  "deref h p = struct_value h (structs h p)"

section \<open>Sentinel errors\<close>

definition ErrTenantNotFound :: go_error where
  "ErrTenantNotFound = ErrVar ''tenant.ErrTenantNotFound'' ''tenant not found''"

definition ErrTenantAlreadyExists :: go_error where
  "ErrTenantAlreadyExists = ErrVar ''tenant.ErrTenantAlreadyExists'' ''tenant already exists''"

section \<open>Interfaces and Manager\<close>

type_synonym Resolver = "Request \<Rightarrow> TenantID result"

record 's Store =
  Store_Get :: "Context \<Rightarrow> TenantID \<Rightarrow> ('s, addr) call"
  Store_IsBanned :: "Context \<Rightarrow> TenantID \<Rightarrow> ('s, bool) call"

record 's AdminStore =
  AdminStore_Create :: "Context \<Rightarrow> TenantStruct \<Rightarrow> ('s, unit) call"
  AdminStore_Update :: "Context \<Rightarrow> TenantStruct \<Rightarrow> ('s, unit) call"
  AdminStore_SetState :: "Context \<Rightarrow> TenantID \<Rightarrow> State \<Rightarrow> ('s, unit) call"

text \<open>\<^term>\<open>None\<close> is a nil interface value.\<close>

record 's Manager =
  m_resolver :: "Resolver option"
  m_store :: "'s Store option"

type_synonym 's Option = "'s Manager \<Rightarrow> 's Manager"

definition WithResolver :: "Resolver option \<Rightarrow> 's Option" where
  "WithResolver r m = m\<lparr>m_resolver := r\<rparr>"

definition WithStore :: "'s Store option \<Rightarrow> 's Option" where
  "WithStore s m = m\<lparr>m_store := s\<rparr>"

definition New :: "'s Option list \<Rightarrow> panic + 's Manager" where
  "New options =
     (let m = foldl (\<lambda>m opt. opt m) \<lparr>m_resolver = None, m_store = None\<rparr> options in
      if m_resolver m = None then Inl (Panic ''tenant: resolver is required'')
      else if m_store m = None then Inl (Panic ''tenant: store is required'')
      else Inr m)"

text \<open>
  A \<^verbatim>\<open>Manager\<close> made by \<^const>\<open>New\<close> has both fields set; the zero \<^verbatim>\<open>Manager\<close>
  panics with a nil dereference when it resolves.
\<close>

definition nil_deref :: panic where
  "nil_deref = Panic ''invalid memory address or nil pointer dereference''"

definition Manager_Resolve :: "'s Manager \<Rightarrow> Request \<Rightarrow> 's \<Rightarrow> panic + (addr result \<times> 's)" where
  "Manager_Resolve m r s =
     (case m_resolver m of
        None \<Rightarrow> Inl nil_deref
      | Some res \<Rightarrow>
          (case res r of
             Inl err \<Rightarrow> Inr (Inl err, s)
           | Inr tid \<Rightarrow>
               (case m_store m of
                  None \<Rightarrow> Inl nil_deref
                | Some st \<Rightarrow>
                    (case Store_Get st (req_Context r) tid s of
                       (Inl err, s') \<Rightarrow> Inr (Inl err, s')
                     | (Inr t, s') \<Rightarrow> Inr (Inr t, s')))))"

section \<open>The heap\<close>

text \<open>
  A slice is valid when its array is allocated. Pointer and slice facts that every store
  proof needs: what an allocation or a field write leaves alone.
\<close>

definition valid_slice :: "Heap \<Rightarrow> addr option \<Rightarrow> bool" where
  "valid_slice h sl = (case sl of None \<Rightarrow> True | Some a \<Rightarrow> a < next_addr h)"

lemma alloc_struct_simps [heap_simps]:
  "fst (alloc_struct t h) = next_addr h"
  "next_addr (snd (alloc_struct t h)) = Suc (next_addr h)"
  "arrays (snd (alloc_struct t h)) = arrays h"
  "structs (snd (alloc_struct t h)) = (structs h)(next_addr h := t)"
  by (simp_all add: alloc_struct_def)

lemma write_State_simps [heap_simps]:
  "next_addr (write_State p st h) = next_addr h"
  "arrays (write_State p st h) = arrays h"
  "structs (write_State p st h) = (structs h)(p := (structs h p)\<lparr>sState := st\<rparr>)"
  by (simp_all add: write_State_def)

lemma write_struct_simps [heap_simps]:
  "next_addr (write_struct p t h) = next_addr h"
  "arrays (write_struct p t h) = arrays h"
  "structs (write_struct p t h) = (structs h)(p := t)"
  by (simp_all add: write_struct_def)

lemma struct_value_cong:
  "arrays h' = arrays h \<Longrightarrow> struct_value h' t = struct_value h t"
  by (simp add: struct_value_def slice_roles_def cong: option.case_cong)

lemma struct_value_heap [heap_simps]:
  "struct_value (snd (alloc_struct t h)) u = struct_value h u"
  "struct_value (write_State p st h) u = struct_value h u"
  "struct_value (write_struct p t h) u = struct_value h u"
  by (rule struct_value_cong, simp add: heap_simps)+

lemma tID_struct_value [simp]: "tID (struct_value h t) = sID t"
  by (simp add: struct_value_def)

lemma tState_struct_value [simp]: "tState (struct_value h t) = sState t"
  by (simp add: struct_value_def)

lemma valid_slice_mono:
  "valid_slice h sl \<Longrightarrow> next_addr h \<le> next_addr h' \<Longrightarrow> valid_slice h' sl"
  by (auto simp: valid_slice_def split: option.splits)

lemma valid_slice_heap [heap_simps]:
  "valid_slice h sl \<Longrightarrow> valid_slice (snd (alloc_struct t h)) sl"
  "valid_slice (write_State p st h) sl = valid_slice h sl"
  "valid_slice (write_struct p t h) sl = valid_slice h sl"
  by (auto simp: valid_slice_def heap_simps split: option.splits)

lemma states_distinct [simp]:
  "Active \<noteq> Banned" "Banned \<noteq> Active" "Disabled \<noteq> Banned" "Banned \<noteq> Disabled"
  "Active \<noteq> Disabled" "Disabled \<noteq> Active"
  by (simp_all add: Active_def Banned_def Disabled_def)

lemma sentinels_distinct [simp]:
  "ErrTenantNotFound \<noteq> ErrTenantAlreadyExists" "ErrTenantAlreadyExists \<noteq> ErrTenantNotFound"
  by (simp_all add: ErrTenantNotFound_def ErrTenantAlreadyExists_def)

section \<open>The contract of Store and what Manager gives from it\<close>

text \<open>
  \<open>inv\<close> is the store's invariant and \<open>heap_of\<close> the heap its pointers live in. A
  lookup keeps the invariant and every struct that was allocated before, returns a
  pointer to a tenant of the requested identifier, and fails only with
  \<^const>\<open>ErrTenantNotFound\<close> (directly or wrapped), as the interface's comment requires;
  asking for the ban state changes nothing.
\<close>

locale tenant_store =
  fixes inv :: "'s \<Rightarrow> bool"
    and heap_of :: "'s \<Rightarrow> Heap"
    and api :: "'s Store"
  assumes get_inv: "inv s \<Longrightarrow> Store_Get api ctx i s = (x, s') \<Longrightarrow> inv s'"
    and get_id: "inv s \<Longrightarrow> Store_Get api ctx i s = (Inr p, s') \<Longrightarrow>
      p < next_addr (heap_of s') \<and> sID (structs (heap_of s') p) = i"
    and get_error: "inv s \<Longrightarrow> Store_Get api ctx i s = (Inl e, s') \<Longrightarrow>
      errors_Is e ErrTenantNotFound"
    and get_frame: "inv s \<Longrightarrow> Store_Get api ctx i s = (x, s') \<Longrightarrow>
      next_addr (heap_of s) \<le> next_addr (heap_of s') \<and>
      (\<forall>q < next_addr (heap_of s). structs (heap_of s') q = structs (heap_of s) q)"
    and isBanned_pure: "inv s \<Longrightarrow> Store_IsBanned api ctx i s = (b, s') \<Longrightarrow> s' = s"
begin

lemma resolve_ok:
  assumes "inv s" and "m_resolver m = Some res" and "m_store m = Some api"
    and "Manager_Resolve m r s = Inr (Inr p, s')"
  shows "inv s' \<and> res r = Inr (tID (deref (heap_of s') p))"
  using assms get_inv get_id
  by (fastforce simp: Manager_Resolve_def deref_def split: sum.splits prod.splits)

lemma resolve_error:
  assumes "inv s" and "m_resolver m = Some res" and "m_store m = Some api"
    and "Manager_Resolve m r s = Inr (Inl e, s')"
  shows "inv s' \<and> (res r = Inl e \<or> (\<exists>i. res r = Inr i) \<and> errors_Is e ErrTenantNotFound)"
  using assms get_inv get_error
  by (fastforce simp: Manager_Resolve_def split: sum.splits prod.splits)

lemma resolve_returns:
  assumes "m_resolver m = Some res" and "m_store m = Some api"
  shows "\<exists>x s'. Manager_Resolve m r s = Inr (x, s')"
  using assms by (auto simp: Manager_Resolve_def split: sum.splits prod.splits)

end

text \<open>
  The write side. \<open>view\<close> is the abstract store, a map from identifiers to tenants:
  lookups read it, \<^verbatim>\<open>Create\<close>, \<^verbatim>\<open>Update\<close> and \<^verbatim>\<open>SetState\<close> update it and fail
  exactly on the documented conditions. The struct given to \<^verbatim>\<open>Create\<close> and
  \<^verbatim>\<open>Update\<close> must refer to an allocated array, as every Go slice does.
\<close>

locale tenant_admin_store = tenant_store +
  fixes adm :: "'s AdminStore"
    and view :: "'s \<Rightarrow> TenantID \<rightharpoonup> Tenant"
  assumes get_view: "inv s \<Longrightarrow>
      Store_Get api ctx i s = (case view s i of
         None \<Rightarrow> (Inl ErrTenantNotFound, s)
       | Some t \<Rightarrow> (Inr (next_addr (heap_of s)), snd (Store_Get api ctx i s)))"
    and get_view_state: "inv s \<Longrightarrow> Store_Get api ctx i s = (x, s') \<Longrightarrow>
      view s' = view s \<and> (\<forall>p. x = Inr p \<longrightarrow> view s i = Some (deref (heap_of s') p))"
    and isBanned_view: "inv s \<Longrightarrow>
      fst (Store_IsBanned api ctx i s) = (case view s i of
         None \<Rightarrow> Inl ErrTenantNotFound | Some t \<Rightarrow> Inr (tState t = Banned))"
    and create_view: "inv s \<Longrightarrow> valid_slice (heap_of s) (sRoles t) \<Longrightarrow>
      AdminStore_Create adm ctx t s = (u, s') \<Longrightarrow> inv s' \<and>
      (if sID t \<in> dom (view s) then u = Inl ErrTenantAlreadyExists \<and> s' = s
       else u = Inr () \<and> view s' = (view s)(sID t \<mapsto> struct_value (heap_of s) t))"
    and update_view: "inv s \<Longrightarrow> valid_slice (heap_of s) (sRoles t) \<Longrightarrow>
      AdminStore_Update adm ctx t s = (u, s') \<Longrightarrow> inv s' \<and>
      (if sID t \<in> dom (view s)
       then u = Inr () \<and> view s' = (view s)(sID t \<mapsto> struct_value (heap_of s) t)
       else u = Inl ErrTenantNotFound \<and> s' = s)"
    and setState_view: "inv s \<Longrightarrow> AdminStore_SetState adm ctx i st s = (u, s') \<Longrightarrow>
      inv s' \<and> (case view s i of
         None \<Rightarrow> u = Inl ErrTenantNotFound \<and> s' = s
       | Some t \<Rightarrow> u = Inr () \<and> view s' = (view s)(i \<mapsto> t\<lparr>tState := st\<rparr>))"
begin

text \<open>What a client sees after a write, whatever the store.\<close>

lemma setState_then_isBanned:
  assumes "inv s" and "AdminStore_SetState adm ctx i st s = (Inr u, s')"
  shows "Store_IsBanned api ctx' i s' = (Inr (st = Banned), s')"
proof -
  from assms obtain t where "inv s'" and "view s' i = Some (t\<lparr>tState := st\<rparr>)"
    by (fastforce dest: setState_view split: option.splits)
  then have "fst (Store_IsBanned api ctx' i s') = Inr (st = Banned)"
    by (simp add: isBanned_view)
  then show ?thesis
    using isBanned_pure [OF \<open>inv s'\<close>, of ctx' i] by (cases "Store_IsBanned api ctx' i s'") auto
qed

lemma setState_frame:
  assumes "inv s" and "AdminStore_SetState adm ctx i st s = (x, s')" and "j \<noteq> i"
  shows "view s' j = view s j"
  using setState_view [OF assms(1,2)] assms(3) by (auto split: option.splits)

lemma create_then_get:
  assumes "inv s" and "valid_slice (heap_of s) (sRoles t)"
    and "AdminStore_Create adm ctx t s = (Inr u, s1)"
    and "Store_Get api ctx' (sID t) s1 = (x, s2)"
  shows "\<exists>p. x = Inr p \<and> deref (heap_of s2) p = struct_value (heap_of s) t"
proof -
  from create_view [OF assms(1-3)] have "inv s1"
    and v: "view s1 (sID t) = Some (struct_value (heap_of s) t)"
    by (auto split: if_splits)
  with get_view [of s1 ctx' "sID t"] assms(4) have x: "x = Inr (next_addr (heap_of s1))"
    by simp
  with get_view_state [OF \<open>inv s1\<close> assms(4)] v show ?thesis by auto
qed

end

end
