(* ===== verification/Tenant_Context.thy ===== *)
theory Tenant_Context
  imports Tenant
begin

text \<open>
  The tenant of a request in its context (\<^verbatim>\<open>src/tenantctx/context.go\<close>) and the helpers for
  tests (\<^verbatim>\<open>src/tenanttest/tenanttest.go\<close>). A pointer is an address or nil; a nil context is
  \<^term>\<open>None\<close>.
\<close>

definition tenantContextKey :: ctx_key where
  "tenantContextKey = ContextKey 0"

text \<open>\<^verbatim>\<open>context.WithValue\<close> panics on a nil parent.\<close>

definition WithTenant :: "Context option \<Rightarrow> addr option \<Rightarrow> panic + Context" where
  "WithTenant ctx t =
     (case ctx of
        None \<Rightarrow> Inl (Panic ''cannot create context from nil parent'')
      | Some c \<Rightarrow> Inr (WithValue c tenantContextKey (TenantPtr t)))"

definition FromContext :: "Context option \<Rightarrow> addr option" where
  "FromContext ctx =
     (case ctx of
        None \<Rightarrow> None
      | Some c \<Rightarrow>
          (case Context_Value c tenantContextKey of
             Some (TenantPtr t) \<Rightarrow> t
           | _ \<Rightarrow> None))"

definition WithFakeTenantFull :: "Context option \<Rightarrow> addr option \<Rightarrow> panic + Context" where
  "WithFakeTenantFull ctx t = WithTenant ctx t"

text \<open>The literal is allocated before the call.\<close>

definition WithFakeTenant :: "Context option \<Rightarrow> TenantID \<Rightarrow> State \<Rightarrow> Heap \<Rightarrow> (panic + Context) \<times> Heap" where
  "WithFakeTenant ctx i st h =
     (let (t, h') = alloc_struct \<lparr>sID = i, sState = st, sRoles = None\<rparr> h
      in (WithFakeTenantFull ctx (Some t), h'))"

text \<open>
  The context of a request in flight is never nil; the middleware uses \<open>WithTenant\<close> on it.
\<close>

lemma WithTenant_Some: "WithTenant (Some c) t = Inr (WithValue c tenantContextKey (TenantPtr t))"
  by (simp add: WithTenant_def)

lemma FromContext_WithTenant: "WithTenant (Some c) t = Inr c' \<Longrightarrow> FromContext (Some c') = t"
  by (auto simp: WithTenant_def FromContext_def)

text \<open>Values under the keys of other packages leave the tenant alone, and conversely.\<close>

lemma FromContext_foreign [simp]:
  "FromContext (Some (WithValue c (ForeignKey k) v)) = FromContext (Some c)"
  by (simp add: FromContext_def tenantContextKey_def)

text \<open>Values stored by other packages on top of a context, in order.\<close>

definition with_foreign :: "(string \<times> ctx_value) list \<Rightarrow> Context \<Rightarrow> Context" where
  "with_foreign kvs c = foldl (\<lambda>c (k, v). WithValue c (ForeignKey k) v) c kvs"

lemma FromContext_with_foreign: "FromContext (Some (with_foreign kvs c)) = FromContext (Some c)"
  by (induction kvs rule: rev_induct) (auto simp: with_foreign_def)

text \<open>
  C40. The tenant put into a context is the tenant taken out, also below any values that other
  packages store on top of it, the last one put in winning; the values of other packages are
  not disturbed by it. The fake tenant of the test helpers is found the same way, with the
  given identifier and state and no roles.
\<close>

theorem tenant_context_roundtrip:
  "(\<exists>c'. WithTenant (Some c) t = Inr c' \<and> FromContext (Some (with_foreign kvs c')) = t \<and>
      (\<forall>k. Context_Value c' (ForeignKey k) = Context_Value c (ForeignKey k))) \<and>
   (\<exists>c' p h'. WithFakeTenant (Some c) i st h = (Inr c', h') \<and> FromContext (Some c') = Some p \<and>
      deref h' p = \<lparr>tID = i, tState = st, tRoles = []\<rparr>)"
proof
  show "\<exists>c'. WithTenant (Some c) t = Inr c' \<and> FromContext (Some (with_foreign kvs c')) = t \<and>
      (\<forall>k. Context_Value c' (ForeignKey k) = Context_Value c (ForeignKey k))"
    by (simp add: FromContext_with_foreign) (simp add: WithTenant_def FromContext_def tenantContextKey_def)
  show "\<exists>c' p h'. WithFakeTenant (Some c) i st h = (Inr c', h') \<and> FromContext (Some c') = Some p \<and>
      deref h' p = \<lparr>tID = i, tState = st, tRoles = []\<rparr>"
    by (simp add: WithFakeTenant_def WithFakeTenantFull_def WithTenant_def FromContext_def alloc_struct_def
      deref_def struct_value_def slice_roles_def)
qed

end
