(* ===== verification/Memory_Store.thy ===== *)
theory Memory_Store
  imports Tenant
begin

text \<open>
  The in-memory store (\<^verbatim>\<open>src/store/memory.go\<close>), with its pointers: a map from
  identifiers to structs on the heap. Every method runs from its first to its last
  statement under the store's mutex, so a concurrent execution is a sequence of whole
  operations, and each operation is one function here. The abstract store is a map from
  identifiers to tenant values; the operations refine it, and no write to a field of a
  struct that \<^verbatim>\<open>Get\<close> returned reaches it.
\<close>

section \<open>State and operations\<close>

record MemoryStore =
  ms_tenants :: "TenantID \<rightharpoonup> addr"

record mem_state =
  heap :: Heap
  mstore :: MemoryStore

definition NewMemoryStore :: MemoryStore where
  "NewMemoryStore = \<lparr>ms_tenants = Map.empty\<rparr>"

definition MemoryStore_Get :: "Context \<Rightarrow> TenantID \<Rightarrow> (mem_state, addr) call" where
  "MemoryStore_Get ctx i s =
     (case ms_tenants (mstore s) i of
        None \<Rightarrow> (Inl ErrTenantNotFound, s)
      | Some t \<Rightarrow>
          (let (cp, h) = alloc_struct (structs (heap s) t) (heap s)
           in (Inr cp, s\<lparr>heap := h\<rparr>)))"

text \<open>The copy-and-insert that ends \<^verbatim>\<open>set\<close>, \<^verbatim>\<open>Create\<close> and \<^verbatim>\<open>Update\<close>.\<close>

definition put_copy :: "TenantStruct \<Rightarrow> mem_state \<Rightarrow> mem_state" where
  "put_copy t s =
     (let (cp, h) = alloc_struct t (heap s)
      in s\<lparr>heap := h, mstore := (mstore s)\<lparr>ms_tenants := (ms_tenants (mstore s))(sID t \<mapsto> cp)\<rparr>\<rparr>)"

definition MemoryStore_set :: "TenantStruct \<Rightarrow> mem_state \<Rightarrow> mem_state" where
  "MemoryStore_set t s = put_copy t s"

definition MemoryStore_IsBanned :: "Context \<Rightarrow> TenantID \<Rightarrow> (mem_state, bool) call" where
  "MemoryStore_IsBanned ctx i s =
     (case ms_tenants (mstore s) i of
        None \<Rightarrow> (Inl ErrTenantNotFound, s)
      | Some t \<Rightarrow> (Inr (sState (structs (heap s) t) = Banned), s))"

definition MemoryStore_Create :: "Context \<Rightarrow> TenantStruct \<Rightarrow> (mem_state, unit) call" where
  "MemoryStore_Create ctx t s =
     (if ms_tenants (mstore s) (sID t) \<noteq> None then (Inl ErrTenantAlreadyExists, s)
      else (Inr (), put_copy t s))"

definition MemoryStore_Update :: "Context \<Rightarrow> TenantStruct \<Rightarrow> (mem_state, unit) call" where
  "MemoryStore_Update ctx t s =
     (if ms_tenants (mstore s) (sID t) = None then (Inl ErrTenantNotFound, s)
      else (Inr (), put_copy t s))"

definition MemoryStore_SetState ::
  "Context \<Rightarrow> TenantID \<Rightarrow> State \<Rightarrow> (mem_state, unit) call" where
  "MemoryStore_SetState ctx i st s =
     (case ms_tenants (mstore s) i of
        None \<Rightarrow> (Inl ErrTenantNotFound, s)
      | Some t \<Rightarrow> (Inr (), s\<lparr>heap := write_State t st (heap s)\<rparr>))"

text \<open>The store as values of the two interfaces it is declared to implement.\<close>

definition MemoryStore_Store :: "mem_state Store" where
  "MemoryStore_Store = \<lparr>Store_Get = MemoryStore_Get, Store_IsBanned = MemoryStore_IsBanned\<rparr>"

definition MemoryStore_AdminStore :: "mem_state AdminStore" where
  "MemoryStore_AdminStore = \<lparr>AdminStore_Create = MemoryStore_Create,
     AdminStore_Update = MemoryStore_Update, AdminStore_SetState = MemoryStore_SetState\<rparr>"

section \<open>Invariant and abstract view\<close>

text \<open>
  Every stored pointer is allocated, refers to a struct that carries the key it is stored
  under, and that struct's roles lie in an allocated array. Pointers of different keys
  are then different.
\<close>

definition ms_inv :: "mem_state \<Rightarrow> bool" where
  "ms_inv s \<longleftrightarrow> (\<forall>i p. ms_tenants (mstore s) i = Some p \<longrightarrow>
     p < next_addr (heap s) \<and> sID (structs (heap s) p) = i \<and>
     valid_slice (heap s) (sRoles (structs (heap s) p)))"

definition ms_view :: "mem_state \<Rightarrow> TenantID \<rightharpoonup> Tenant" where
  "ms_view s i = map_option (deref (heap s)) (ms_tenants (mstore s) i)"

lemmas MemoryStore_defs = MemoryStore_Get_def put_copy_def MemoryStore_set_def MemoryStore_IsBanned_def
  MemoryStore_Create_def MemoryStore_Update_def MemoryStore_SetState_def

lemma ms_invD:
  assumes "ms_inv s" and "ms_tenants (mstore s) i = Some p"
  shows "p < next_addr (heap s)" and "sID (structs (heap s) p) = i"
    and "valid_slice (heap s) (sRoles (structs (heap s) p))"
  using assms by (auto simp: ms_inv_def)

lemma ms_inv_pointers_distinct:
  "ms_inv s \<Longrightarrow> ms_tenants (mstore s) i = Some p \<Longrightarrow> ms_tenants (mstore s) j = Some p \<Longrightarrow> i = j"
  by (metis ms_invD(2))

lemma dom_ms_view [simp]: "dom (ms_view s) = dom (ms_tenants (mstore s))"
  by (auto simp: ms_view_def dom_def)

lemma ms_inv_empty: "ms_inv \<lparr>heap = h, mstore = NewMemoryStore\<rparr>"
  by (simp add: ms_inv_def NewMemoryStore_def)

lemma ms_view_empty: "ms_view \<lparr>heap = h, mstore = NewMemoryStore\<rparr> = Map.empty"
  by (rule ext) (simp add: ms_view_def NewMemoryStore_def)

text \<open>
  A change of the heap that keeps the arrays and the structs the store points to is
  invisible to the store.
\<close>

lemma ms_heap_frame:
  assumes inv: "ms_inv s" and "arrays h = arrays (heap s)" and "next_addr (heap s) \<le> next_addr h"
    and "\<And>p. p \<in> ran (ms_tenants (mstore s)) \<Longrightarrow> structs h p = structs (heap s) p"
  shows "ms_inv (s\<lparr>heap := h\<rparr>)" and "ms_view (s\<lparr>heap := h\<rparr>) = ms_view s"
proof -
  have same: "structs h p = structs (heap s) p" if "ms_tenants (mstore s) i = Some p" for i p
    using assms(4) that by (auto simp: ran_def)
  show "ms_inv (s\<lparr>heap := h\<rparr>)"
    using inv assms(3) same valid_slice_mono unfolding ms_inv_def by fastforce
  show "ms_view (s\<lparr>heap := h\<rparr>) = ms_view s"
    using assms(2) same
    by (auto simp: ms_view_def deref_def struct_value_cong fun_eq_iff
        intro!: option.map_cong)
qed

lemma ms_set_correct:
  assumes inv: "ms_inv s" and "valid_slice (heap s) (sRoles t)"
  shows "ms_inv (put_copy t s)"
    and "ms_view (put_copy t s) = (ms_view s)(sID t \<mapsto> struct_value (heap s) t)"
proof -
  let ?n = "next_addr (heap s)"
  have below: "p \<noteq> ?n" if "ms_tenants (mstore s) i = Some p" for i p
    using ms_invD(1) [OF inv that] by simp
  show "ms_inv (put_copy t s)"
    using inv assms(2) below
    by (auto simp: ms_inv_def put_copy_def split_def heap_simps less_Suc_eq)
  show "ms_view (put_copy t s) = (ms_view s)(sID t \<mapsto> struct_value (heap s) t)"
    using below
    by (auto simp: ms_view_def put_copy_def split_def deref_def fun_eq_iff heap_simps
        intro!: option.map_cong)
qed

lemma ms_get_correct:
  assumes inv: "ms_inv s" and get: "MemoryStore_Get ctx i s = (x, s')"
  shows "ms_inv s'" and "ms_view s' = ms_view s" and "mstore s' = mstore s"
    and "\<And>p. x = Inr p \<Longrightarrow> p = next_addr (heap s) \<and> p < next_addr (heap s') \<and>
      sID (structs (heap s') p) = i \<and> ms_view s i = Some (deref (heap s') p) \<and>
      valid_slice (heap s') (sRoles (structs (heap s') p))"
    and "next_addr (heap s) \<le> next_addr (heap s')"
    and "\<And>q. q < next_addr (heap s) \<Longrightarrow> structs (heap s') q = structs (heap s) q"
    and "arrays (heap s') = arrays (heap s)"
proof -
  have "ms_inv s' \<and> ms_view s' = ms_view s \<and> mstore s' = mstore s"
  proof (cases "ms_tenants (mstore s) i")
    case (Some t)
    with get have s': "s' = s\<lparr>heap := snd (alloc_struct (structs (heap s) t) (heap s))\<rparr>"
      by (auto simp: MemoryStore_Get_def split: prod.splits)
    show ?thesis
      unfolding s' using ms_invD(1) [OF inv]
      by (intro conjI ms_heap_frame [OF inv]) (fastforce simp: heap_simps ran_def)+
  qed (use inv get in \<open>simp add: MemoryStore_Get_def\<close>)
  then show "ms_inv s'" "ms_view s' = ms_view s" "mstore s' = mstore s" by auto
  show "p = next_addr (heap s) \<and> p < next_addr (heap s') \<and>
      sID (structs (heap s') p) = i \<and> ms_view s i = Some (deref (heap s') p) \<and>
      valid_slice (heap s') (sRoles (structs (heap s') p))" if "x = Inr p" for p
    using get that ms_invD [OF inv, of i]
    by (auto simp: MemoryStore_Get_def ms_view_def deref_def split_def heap_simps
        split: option.splits)
qed (use get in \<open>auto simp: MemoryStore_Get_def split_def heap_simps split: option.splits\<close>)

lemma ms_setState_correct:
  assumes inv: "ms_inv s" and set: "MemoryStore_SetState ctx i st s = (x, s')"
  shows "ms_inv s'"
    and "case ms_view s i of
           None \<Rightarrow> x = Inl ErrTenantNotFound \<and> s' = s
         | Some t \<Rightarrow> x = Inr () \<and> ms_view s' = (ms_view s)(i \<mapsto> t\<lparr>tState := st\<rparr>)"
proof -
  have other: "q \<noteq> p" if "ms_tenants (mstore s) i = Some p" "ms_tenants (mstore s) j = Some q"
    "j \<noteq> i" for j p q
    using ms_inv_pointers_distinct [OF inv] that by blast
  have "mstore s' = mstore s" and "next_addr (heap s') = next_addr (heap s)"
    and "sID (structs (heap s') q) = sID (structs (heap s) q)"
    and "sRoles (structs (heap s') q) = sRoles (structs (heap s) q)" for q
    using set by (auto simp: MemoryStore_SetState_def heap_simps split: option.splits)
  then show "ms_inv s'"
    using inv valid_slice_mono [of "heap s" _ "heap s'"] by (simp add: ms_inv_def)
  show "case ms_view s i of
           None \<Rightarrow> x = Inl ErrTenantNotFound \<and> s' = s
         | Some t \<Rightarrow> x = Inr () \<and> ms_view s' = (ms_view s)(i \<mapsto> t\<lparr>tState := st\<rparr>)"
    using set other
    by (auto simp: MemoryStore_SetState_def ms_view_def deref_def fun_eq_iff heap_simps
        split: option.splits intro!: option.map_cong) (simp_all add: struct_value_def)
qed

text \<open>The store keeps the contract of both interfaces.\<close>

interpretation mem_read: tenant_store ms_inv heap MemoryStore_Store
proof (unfold_locales, goal_cases)
  case (1 s ctx i x s')
  then show ?case by (simp add: MemoryStore_Store_def ms_get_correct(1))
next
  case (2 s ctx i p s')
  then show ?case using ms_get_correct(4) by (fastforce simp: MemoryStore_Store_def)
next
  case (3 s ctx i e s')
  then show ?case
    by (auto simp: MemoryStore_Store_def MemoryStore_Get_def split: option.splits prod.splits)
next
  case (4 s ctx i x s')
  then show ?case using ms_get_correct(5,6) by (fastforce simp: MemoryStore_Store_def)
next
  case (5 s ctx i b s')
  then show ?case
    by (auto simp: MemoryStore_Store_def MemoryStore_IsBanned_def split: option.splits)
qed

interpretation mem: tenant_admin_store ms_inv heap MemoryStore_Store MemoryStore_AdminStore ms_view
proof (unfold_locales, goal_cases)
  case (1 s ctx i)
  then show ?case
    by (auto simp: MemoryStore_Store_def MemoryStore_Get_def ms_view_def alloc_struct_def
        split: option.splits)
next
  case (2 s ctx i x s')
  then show ?case using ms_get_correct(2,4) by (fastforce simp: MemoryStore_Store_def)
next
  case (3 s ctx i)
  then show ?case
    by (auto simp: MemoryStore_Store_def MemoryStore_IsBanned_def ms_view_def deref_def
        struct_value_def split: option.splits)
next
  case (4 s t ctx u s')
  then show ?case
    using ms_set_correct [of s t]
    by (auto simp: MemoryStore_AdminStore_def MemoryStore_Create_def split: if_splits)
next
  case (5 s t ctx u s')
  then show ?case
    using ms_set_correct [of s t]
    by (auto simp: MemoryStore_AdminStore_def MemoryStore_Update_def split: if_splits)
next
  case (6 s ctx i st u s')
  then show ?case
    using ms_setState_correct by (simp add: MemoryStore_AdminStore_def)
qed

section \<open>Histories of calls and of writes through returned pointers\<close>

text \<open>
  A client builds tenants, calls the store, keeps every pointer it is given and assigns
  to the fields of the structs behind them. \<open>OpAssign k t\<close> is \<^verbatim>\<open>*p = t\<close> for the
  \<open>k\<close>-th pointer received so far. The abstract execution knows neither pointers nor
  assignments.
\<close>

datatype ms_op =
    OpCreate Tenant
  | OpUpdate Tenant
  | OpSetState TenantID State
  | OpGet TenantID
  | OpIsBanned TenantID
  | OpAssign nat TenantStruct

datatype ms_out = OutErr go_error | OutOk | OutTenant Tenant | OutBool bool

text \<open>The composite literal \<^verbatim>\<open>&tenant.Tenant{ID: .., State: .., Roles: []Role{..}}\<close>.\<close>

definition new_tenant :: "Tenant \<Rightarrow> Heap \<Rightarrow> TenantStruct \<times> Heap" where
  "new_tenant v h =
     (let (a, h') = alloc_array (tRoles v) h
      in (\<lparr>sID = tID v, sState = tState v, sRoles = Some a\<rparr>, h'))"

definition unit_out :: "unit result \<Rightarrow> ms_out" where
  "unit_out x = (case x of Inl e \<Rightarrow> OutErr e | Inr u \<Rightarrow> OutOk)"

fun ms_exec :: "ms_op \<Rightarrow> mem_state \<times> addr list \<Rightarrow> ms_out \<times> mem_state \<times> addr list" where
  "ms_exec (OpCreate v) (s, ps) =
     (let (t, h) = new_tenant v (heap s); (x, s') = MemoryStore_Create Background t (s\<lparr>heap := h\<rparr>)
      in (unit_out x, s', ps))"
| "ms_exec (OpUpdate v) (s, ps) =
     (let (t, h) = new_tenant v (heap s); (x, s') = MemoryStore_Update Background t (s\<lparr>heap := h\<rparr>)
      in (unit_out x, s', ps))"
| "ms_exec (OpSetState i st) (s, ps) =
     (let (x, s') = MemoryStore_SetState Background i st s in (unit_out x, s', ps))"
| "ms_exec (OpGet i) (s, ps) =
     (case MemoryStore_Get Background i s of
        (Inl e, s') \<Rightarrow> (OutErr e, s', ps)
      | (Inr p, s') \<Rightarrow> (OutTenant (deref (heap s') p), s', ps @ [p]))"
| "ms_exec (OpIsBanned i) (s, ps) =
     (case MemoryStore_IsBanned Background i s of
        (Inl e, s') \<Rightarrow> (OutErr e, s', ps) | (Inr b, s') \<Rightarrow> (OutBool b, s', ps))"
| "ms_exec (OpAssign k t) (s, ps) =
     (OutOk, if k < length ps then s\<lparr>heap := write_struct (ps ! k) t (heap s)\<rparr> else s, ps)"

fun ms_run :: "ms_op list \<Rightarrow> mem_state \<times> addr list \<Rightarrow> ms_out list \<times> mem_state \<times> addr list" where
  "ms_run [] s = ([], s)"
| "ms_run (x # xs) s =
     (let (y, s') = ms_exec x s; (ys, s'') = ms_run xs s' in (y # ys, s''))"

text \<open>The specification: a partial map from identifiers to tenants.\<close>

fun spec_exec :: "ms_op \<Rightarrow> (TenantID \<rightharpoonup> Tenant) \<Rightarrow> ms_out \<times> (TenantID \<rightharpoonup> Tenant)" where
  "spec_exec (OpCreate v) m =
     (if tID v \<in> dom m then (OutErr ErrTenantAlreadyExists, m) else (OutOk, m(tID v \<mapsto> v)))"
| "spec_exec (OpUpdate v) m =
     (if tID v \<in> dom m then (OutOk, m(tID v \<mapsto> v)) else (OutErr ErrTenantNotFound, m))"
| "spec_exec (OpSetState i st) m =
     (case m i of None \<Rightarrow> (OutErr ErrTenantNotFound, m)
      | Some t \<Rightarrow> (OutOk, m(i \<mapsto> t\<lparr>tState := st\<rparr>)))"
| "spec_exec (OpGet i) m =
     (case m i of None \<Rightarrow> (OutErr ErrTenantNotFound, m) | Some t \<Rightarrow> (OutTenant t, m))"
| "spec_exec (OpIsBanned i) m =
     (case m i of None \<Rightarrow> (OutErr ErrTenantNotFound, m)
      | Some t \<Rightarrow> (OutBool (tState t = Banned), m))"
| "spec_exec (OpAssign k t) m = (OutOk, m)"

fun spec_run :: "ms_op list \<Rightarrow> (TenantID \<rightharpoonup> Tenant) \<Rightarrow> ms_out list \<times> (TenantID \<rightharpoonup> Tenant)" where
  "spec_run [] m = ([], m)"
| "spec_run (x # xs) m =
     (let (y, m') = spec_exec x m; (ys, m'') = spec_run xs m' in (y # ys, m''))"

text \<open>No pointer a client holds is one of the store's own.\<close>

definition client_inv :: "mem_state \<times> addr list \<Rightarrow> bool" where
  "client_inv sp \<longleftrightarrow> ms_inv (fst sp) \<and>
     (\<forall>p \<in> set (snd sp). p < next_addr (heap (fst sp)) \<and>
        p \<notin> ran (ms_tenants (mstore (fst sp))))"

lemma alloc_array_frame:
  assumes "ms_inv s" and "alloc_array rs (heap s) = (a, h)"
  shows "ms_inv (s\<lparr>heap := h\<rparr>)" and "ms_view (s\<lparr>heap := h\<rparr>) = ms_view s"
    and "next_addr h = Suc (next_addr (heap s))"
    and "valid_slice h (Some a)" and "slice_roles h (Some a) = rs"
proof -
  from assms(2) have a: "a = next_addr (heap s)" and h: "structs h = structs (heap s)"
    "arrays h = (arrays (heap s))(a := rs)" "next_addr h = Suc (next_addr (heap s))"
    by (auto simp: alloc_array_def)
  show "ms_inv (s\<lparr>heap := h\<rparr>)"
    using assms(1) h valid_slice_mono [of "heap s" _ h] by (fastforce simp: ms_inv_def)
  have "slice_roles h (sRoles (structs (heap s) p)) = slice_roles (heap s) (sRoles (structs (heap s) p))"
    if "ms_tenants (mstore s) i = Some p" for i p
    using ms_invD(3) [OF assms(1) that] a h
    by (auto simp: valid_slice_def slice_roles_def split: option.splits)
  then show "ms_view (s\<lparr>heap := h\<rparr>) = ms_view s"
    using h by (auto simp: ms_view_def deref_def struct_value_def fun_eq_iff
        intro!: option.map_cong)
qed (use assms(2) in \<open>auto simp: alloc_array_def valid_slice_def slice_roles_def\<close>)

lemma new_tenant_frame:
  assumes "ms_inv s" and "new_tenant v (heap s) = (t, h)"
  shows "ms_inv (s\<lparr>heap := h\<rparr>)" and "ms_view (s\<lparr>heap := h\<rparr>) = ms_view s"
    and "next_addr (heap s) \<le> next_addr h"
    and "valid_slice h (sRoles t)" and "sID t = tID v" and "struct_value h t = v"
proof -
  obtain a where al: "alloc_array (tRoles v) (heap s) = (a, h)"
    and t: "t = \<lparr>sID = tID v, sState = tState v, sRoles = Some a\<rparr>"
    using assms(2) by (auto simp: new_tenant_def split: prod.splits)
  note fr = alloc_array_frame [OF assms(1) al]
  show "ms_inv (s\<lparr>heap := h\<rparr>)" "ms_view (s\<lparr>heap := h\<rparr>) = ms_view s"
    "next_addr (heap s) \<le> next_addr h" "valid_slice h (sRoles t)" "sID t = tID v"
    using fr t by simp_all
  show "struct_value h t = v"
    using fr(5) t by (simp add: struct_value_def)
qed

text \<open>Inserting a struct adds one pointer, a fresh one.\<close>

lemma put_copy_client:
  assumes "client_inv (s, ps)" and "valid_slice (heap s) (sRoles t)"
  shows "client_inv (put_copy t s, ps)"
proof -
  from assms have inv: "ms_inv s"
    and ps: "\<forall>p \<in> set ps. p < next_addr (heap s) \<and> p \<notin> ran (ms_tenants (mstore s))"
    by (auto simp: client_inv_def)
  have "\<forall>p \<in> set ps. p < Suc (next_addr (heap s)) \<and>
      p \<notin> ran ((ms_tenants (mstore s))(sID t \<mapsto> next_addr (heap s)))"
    using ps by (auto simp: ran_def split: if_splits)
  then show ?thesis
    using ms_set_correct(1) [OF inv assms(2)]
    by (simp add: client_inv_def put_copy_def split_def heap_simps)
qed

lemma client_inv_heap:
  assumes "client_inv (s, ps)" and "ms_inv (s\<lparr>heap := h\<rparr>)"
    and "next_addr (heap s) \<le> next_addr h"
  shows "client_inv (s\<lparr>heap := h\<rparr>, ps)"
  using assms by (auto simp: client_inv_def)

text \<open>The write operations under the abstraction: \<^verbatim>\<open>Create\<close> and \<^verbatim>\<open>Update\<close> of a literal.\<close>

lemma ms_exec_literal:
  assumes inv: "client_inv (s, ps)" and new: "new_tenant v (heap s) = (t, h)"
    and res: "(x, s') =
      (if (ms_tenants (mstore s) (tID v) \<noteq> None) = b then (Inl e, s\<lparr>heap := h\<rparr>)
       else (Inr (), put_copy t (s\<lparr>heap := h\<rparr>)))"
  shows "client_inv (s', ps)"
    and "(unit_out x, ms_view s') =
      (if (tID v \<in> dom (ms_view s)) = b then (OutErr e, ms_view s)
       else (OutOk, (ms_view s)(tID v \<mapsto> v)))"
proof -
  note fr = new_tenant_frame [OF _ new]
  from inv have ms: "ms_inv s" by (simp add: client_inv_def)
  have c: "client_inv (s\<lparr>heap := h\<rparr>, ps)"
    using client_inv_heap [OF inv] fr(1,3) [OF ms] by simp
  have valid: "valid_slice (heap (s\<lparr>heap := h\<rparr>)) (sRoles t)"
    using fr(4) [OF ms] by simp
  have d: "tID v \<in> dom (ms_view s) \<longleftrightarrow> ms_tenants (mstore s) (tID v) \<noteq> None"
    by (auto simp: dom_def ms_view_def)
  show "client_inv (s', ps)"
    using res c put_copy_client [OF c valid] by (auto split: if_splits)
  show "(unit_out x, ms_view s') =
      (if (tID v \<in> dom (ms_view s)) = b then (OutErr e, ms_view s)
       else (OutOk, (ms_view s)(tID v \<mapsto> v)))"
    using res d ms_set_correct(2) [OF fr(1) [OF ms] valid] fr(2,5,6) [OF ms]
    by (auto simp: unit_out_def split: if_splits)
qed

text \<open>One operation of a history, by kind; together they are the simulation step.\<close>

definition simulates :: "ms_op \<Rightarrow> mem_state \<times> addr list \<Rightarrow> bool" where
  "simulates x sp \<longleftrightarrow> (case ms_exec x sp of (y, s', ps') \<Rightarrow>
     client_inv (s', ps') \<and> spec_exec x (ms_view (fst sp)) = (y, ms_view s'))"

lemma simulates_literal:
  assumes inv: "client_inv (s, ps)"
  shows "simulates (OpCreate v) (s, ps)" and "simulates (OpUpdate v) (s, ps)"
proof -
  from inv have ms: "ms_inv s" by (simp add: client_inv_def)
  obtain t h where new: "new_tenant v (heap s) = (t, h)" by fastforce
  note t = new_tenant_frame(5) [OF ms new]
  obtain x1 s1 where c: "MemoryStore_Create Background t (s\<lparr>heap := h\<rparr>) = (x1, s1)" by fastforce
  then have "(x1, s1) =
      (if (ms_tenants (mstore s) (tID v) \<noteq> None) = True
       then (Inl ErrTenantAlreadyExists, s\<lparr>heap := h\<rparr>)
       else (Inr (), put_copy t (s\<lparr>heap := h\<rparr>)))"
    using t by (auto simp: MemoryStore_Create_def)
  from ms_exec_literal [OF inv new this] show "simulates (OpCreate v) (s, ps)"
    using new c by (auto simp: simulates_def split: if_splits)
  obtain x2 s2 where u: "MemoryStore_Update Background t (s\<lparr>heap := h\<rparr>) = (x2, s2)" by fastforce
  then have "(x2, s2) =
      (if (ms_tenants (mstore s) (tID v) \<noteq> None) = False
       then (Inl ErrTenantNotFound, s\<lparr>heap := h\<rparr>)
       else (Inr (), put_copy t (s\<lparr>heap := h\<rparr>)))"
    using t by (auto simp: MemoryStore_Update_def)
  from ms_exec_literal [OF inv new this] show "simulates (OpUpdate v) (s, ps)"
    using new u by (auto simp: simulates_def split: if_splits)
qed

lemma simulates_SetState:
  assumes "client_inv (s, ps)"
  shows "simulates (OpSetState i st) (s, ps)"
proof -
  obtain u s' where set: "MemoryStore_SetState Background i st s = (u, s')" by fastforce
  have "mstore s' = mstore s" "next_addr (heap s') = next_addr (heap s)"
    using set by (auto simp: MemoryStore_SetState_def heap_simps split: option.splits)
  with assms ms_setState_correct [OF _ set] set show ?thesis
    by (auto simp: simulates_def client_inv_def unit_out_def split: option.splits)
qed

lemma simulates_Get:
  assumes inv: "client_inv (s, ps)"
  shows "simulates (OpGet i) (s, ps)"
proof -
  from inv have ms: "ms_inv s" by (simp add: client_inv_def)
  obtain u r where get: "MemoryStore_Get Background i s = (u, r)" by fastforce
  note fr = ms_get_correct [OF ms get]
  show ?thesis
  proof (cases u)
    case (Inl e)
    with get have "ms_view s i = None" "e = ErrTenantNotFound" "r = s"
      by (auto simp: MemoryStore_Get_def ms_view_def split: option.splits prod.splits)
    with Inl get inv show ?thesis by (auto simp: simulates_def)
  next
    case (Inr p)
    have "p \<notin> ran (ms_tenants (mstore s))"
      using fr(4) [OF Inr] ms_invD(1) [OF ms] by (fastforce simp: ran_def)
    with inv Inr get fr show ?thesis by (fastforce simp: simulates_def client_inv_def)
  qed
qed

lemma simulates_Assign:
  assumes inv: "client_inv (s, ps)"
  shows "simulates (OpAssign k t) (s, ps)"
proof (cases "k < length ps")
  case True
  let ?h = "write_struct (ps ! k) t (heap s)"
  from inv have ms: "ms_inv s" by (simp add: client_inv_def)
  have same: "structs ?h p = structs (heap s) p" if "p \<in> ran (ms_tenants (mstore s))" for p
    using inv True that by (auto simp: heap_simps client_inv_def)
  have "ms_inv (s\<lparr>heap := ?h\<rparr>)" "ms_view (s\<lparr>heap := ?h\<rparr>) = ms_view s"
    using ms_heap_frame [OF ms _ _ same] by (simp_all add: heap_simps)
  with inv True show ?thesis by (auto simp: simulates_def client_inv_def heap_simps)
qed (use inv in \<open>auto simp: simulates_def\<close>)

lemma ms_exec_refines: "client_inv sp \<Longrightarrow> simulates x sp"
proof (cases x)
  case (OpIsBanned i)
  then show "client_inv sp \<Longrightarrow> simulates x sp"
    by (cases sp) (auto simp: simulates_def MemoryStore_IsBanned_def ms_view_def deref_def
        split: option.splits)
qed (cases sp; simp add: simulates_literal simulates_SetState simulates_Get simulates_Assign)+

lemma ms_run_refines:
  "client_inv sp \<Longrightarrow> ms_run xs sp = (ys, sp') \<Longrightarrow>
     client_inv sp' \<and> spec_run xs (ms_view (fst sp)) = (ys, ms_view (fst sp'))"
proof (induction xs arbitrary: sp ys)
  case (Cons x xs)
  obtain s ps where sp: "sp = (s, ps)" by fastforce
  obtain y s1 ps1 where x: "ms_exec x (s, ps) = (y, s1, ps1)" by (metis prod_cases3)
  obtain zs where xs: "ms_run xs (s1, ps1) = (zs, sp')" and ys: "ys = y # zs"
    using Cons.prems(2) sp x by (auto split: prod.splits)
  from ms_exec_refines [OF Cons.prems(1), of x] sp x
  have one: "client_inv (s1, ps1)" "spec_exec x (ms_view s) = (y, ms_view s1)"
    by (auto simp: simulates_def)
  with Cons.IH [OF one(1) xs] sp ys show ?case by simp
qed simp

text \<open>
  C1. The in-memory store refines a plain map from identifiers to tenants: for every
  history of \<^verbatim>\<open>Create\<close>, \<^verbatim>\<open>Update\<close>, \<^verbatim>\<open>SetState\<close>, \<^verbatim>\<open>Get\<close> and
  \<^verbatim>\<open>IsBanned\<close> calls (in the order in which the mutex serialises them), mixed with
  arbitrary assignments to the structs that \<^verbatim>\<open>Get\<close> handed out, every result, error
  results included, is the one the map gives, and the store ends up representing that
  map. In particular \<^verbatim>\<open>Get\<close> hands out copies: no field assignment through a
  returned pointer is ever visible in the store.
\<close>

theorem memory_store_refines_map:
  "case ms_run ops (\<lparr>heap = h, mstore = NewMemoryStore\<rparr>, []) of
     (outs, s, ps) \<Rightarrow> ms_inv s \<and> spec_run ops Map.empty = (outs, ms_view s)"
proof -
  let ?s0 = "\<lparr>heap = h, mstore = NewMemoryStore\<rparr>"
  obtain outs s ps where run: "ms_run ops (?s0, []) = (outs, s, ps)" by (metis prod_cases3)
  have "client_inv (?s0, [])" by (simp add: client_inv_def ms_inv_empty)
  from ms_run_refines [OF this run] run show ?thesis
    by (simp add: client_inv_def ms_view_empty)
qed

text \<open>
  C36. The copy is shallow. The struct that \<^verbatim>\<open>Get\<close> returns shares the array behind
  \<^verbatim>\<open>Roles\<close> with the store's own struct, so an assignment to one element of the
  returned slice rewrites the roles the store holds: whatever the store, the identifier
  and the element, if the assignment does not panic, the store's tenant has the new role.
\<close>

theorem memory_store_roles_aliased:
  assumes "ms_inv s" and "MemoryStore_Get ctx i s = (Inr p, s')"
    and "write_Role p k r (heap s') = Inr h"
  shows "\<exists>t. ms_view s i = Some t \<and>
    ms_view (s'\<lparr>heap := h\<rparr>) i = Some (t\<lparr>tRoles := (tRoles t)[k := r]\<rparr>)"
proof -
  from assms(2) obtain q where q: "ms_tenants (mstore s) i = Some q"
    and s': "s' = s\<lparr>heap := snd (alloc_struct (structs (heap s) q) (heap s))\<rparr>"
    and p: "p = next_addr (heap s)"
    by (auto simp: MemoryStore_Get_def split_def heap_simps split: option.splits)
  have "q < next_addr (heap s)" using ms_invD(1) [OF assms(1) q] .
  then show ?thesis
    using assms(3) q
    by (auto simp: s' p write_Role_def heap_simps ms_view_def deref_def struct_value_def
        slice_roles_def split: option.splits if_splits)
qed

text \<open>A store with one tenant, used by the witnesses.\<close>

definition demo_heap :: Heap where
  "demo_heap = \<lparr>structs = (\<lambda>_. \<lparr>sID = ''acme'', sState = Active, sRoles = Some 1\<rparr>),
     arrays = (\<lambda>_. [''viewer'']), next_addr = 2\<rparr>"

definition demo_store :: mem_state where
  "demo_store = \<lparr>heap = demo_heap, mstore = \<lparr>ms_tenants = [''acme'' \<mapsto> 0]\<rparr>\<rparr>"

lemma demo_store_inv: "ms_inv demo_store"
  by (auto simp: ms_inv_def demo_store_def demo_heap_def valid_slice_def)

theorem memory_store_roles_aliased_witness:
  "\<exists>p s' h. MemoryStore_Get Background ''acme'' demo_store = (Inr p, s') \<and>
     write_Role p 0 ''admin'' (heap s') = Inr h \<and>
     map_option tRoles (ms_view demo_store ''acme'') = Some [''viewer''] \<and>
     map_option tRoles (ms_view (s'\<lparr>heap := h\<rparr>) ''acme'') = Some [''admin'']"
proof -
  obtain s' where get: "MemoryStore_Get Background ''acme'' demo_store = (Inr 2, s')"
    by (simp add: MemoryStore_Get_def demo_store_def demo_heap_def alloc_struct_def)
  obtain h where wr: "write_Role 2 0 ''admin'' (heap s') = Inr h"
    using get by (auto simp: MemoryStore_Get_def demo_store_def demo_heap_def alloc_struct_def
        write_Role_def)
  have "map_option tRoles (ms_view demo_store ''acme'') = Some [''viewer'']"
    by (simp add: ms_view_def demo_store_def demo_heap_def deref_def struct_value_def
        slice_roles_def)
  with memory_store_roles_aliased [OF demo_store_inv get wr] get wr show ?thesis
    by (auto simp: map_option_case)
qed

end
