(* ===== verification/Cached_Store.thy ===== *)
theory Cached_Store
  imports Memory_Store
begin

text \<open>
  The caching store (\<^verbatim>\<open>src/store/cached.go\<close>): a map from identifiers to a pointer and
  an expiry instant in front of any \<^verbatim>\<open>Store\<close>. The calls of one client at a time are
  modelled here, concurrent ones in \<^verbatim>\<open>Cached_Concurrent\<close>; \<open>Do\<close> stands for \<^verbatim>\<open>singleflight.Group.Do\<close> of \<^verbatim>\<open>golang.org/x/sync\<close>,
  which runs the function it is given and returns its results when no call for the same
  key is in flight. Shown: the cache keeps the contract of \<^verbatim>\<open>Store\<close> over every source
  that keeps it, a lookup is never more than the TTL behind the source, the ban state is
  never cached, and the pointers handed out are the cache's own.
\<close>

section \<open>State and operations\<close>

record cacheEntry =
  ce_tenant :: addr
  ce_expiresAt :: Time

record 's CachedStore =
  cs_source :: "'s Store"
  cs_ttl :: Duration
  cs_cache :: "TenantID \<rightharpoonup> cacheEntry"

record 's cached_state =
  src :: 's
  cstore :: "'s CachedStore"
  clock :: Clock

type_synonym 's Do = "string \<Rightarrow> ('s cached_state, addr) call \<Rightarrow> ('s cached_state, addr) call"

definition NewCachedStore :: "'s Store \<Rightarrow> Duration \<Rightarrow> 's CachedStore" where
  "NewCachedStore source ttl = \<lparr>cs_source = source, cs_ttl = ttl, cs_cache = Map.empty\<rparr>"

text \<open>The function literal that \<^verbatim>\<open>Get\<close> passes to \<^verbatim>\<open>group.Do\<close>.\<close>

definition CachedStore_fill :: "Context \<Rightarrow> TenantID \<Rightarrow> ('s cached_state, addr) call" where
  "CachedStore_fill ctx i st =
     (case Store_Get (cs_source (cstore st)) ctx i (src st) of
        (Inl err, s) \<Rightarrow> (Inl err, st\<lparr>src := s\<rparr>)
      | (Inr t, s) \<Rightarrow>
          (let (now, c) = time_Now (clock st);
               e = \<lparr>ce_tenant = t, ce_expiresAt = Time_Add now (cs_ttl (cstore st))\<rparr>
           in (Inr t, st\<lparr>src := s, clock := c,
                cstore := (cstore st)\<lparr>cs_cache := (cs_cache (cstore st))(i \<mapsto> e)\<rparr>\<rparr>)))"

text \<open>\<^verbatim>\<open>time.Now\<close> is read only when an entry was found.\<close>

definition CachedStore_Get :: "'s Do \<Rightarrow> Context \<Rightarrow> TenantID \<Rightarrow> ('s cached_state, addr) call" where
  "CachedStore_Get Do ctx i st =
     (case cs_cache (cstore st) i of
        None \<Rightarrow> Do i (CachedStore_fill ctx i) st
      | Some entry \<Rightarrow>
          (let (now, c) = time_Now (clock st); st = st\<lparr>clock := c\<rparr> in
           if Time_Before now (ce_expiresAt entry) then (Inr (ce_tenant entry), st)
           else Do i (CachedStore_fill ctx i) st))"

definition CachedStore_IsBanned :: "Context \<Rightarrow> TenantID \<Rightarrow> ('s cached_state, bool) call" where
  "CachedStore_IsBanned ctx i st =
     (let (b, s) = Store_IsBanned (cs_source (cstore st)) ctx i (src st) in (b, st\<lparr>src := s\<rparr>))"

definition CachedStore_Store :: "'s Do \<Rightarrow> 's cached_state Store" where
  "CachedStore_Store Do =
     \<lparr>Store_Get = CachedStore_Get Do, Store_IsBanned = CachedStore_IsBanned\<rparr>"

text \<open>The documented behaviour of \<^verbatim>\<open>Do\<close> for a caller that is alone on its key.\<close>

definition singleflight_solo :: "'s Do \<Rightarrow> bool" where
  "singleflight_solo Do \<longleftrightarrow> (\<forall>k f st. Do k f st = f st)"

abbreviation run_now :: "'s Do" where
  "run_now \<equiv> \<lambda>k f. f"

lemma singleflight_solo_eq: "singleflight_solo Do \<Longrightarrow> Do = run_now"
  by (auto simp: singleflight_solo_def fun_eq_iff)

text \<open>A lookup is a hit on a live entry or a fill, after at most one reading of the clock.\<close>

lemma CachedStore_Get_cases:
  assumes "CachedStore_Get run_now ctx i st = (x, st')"
  obtains (hit) e where "cs_cache (cstore st) i = Some e" and "x = Inr (ce_tenant e)"
      and "st' = st\<lparr>clock := \<lambda>n. clock st (Suc n)\<rparr>" and "clock st 0 < ce_expiresAt e"
    | (miss) k where "CachedStore_fill ctx i (st\<lparr>clock := \<lambda>n. clock st (n + k)\<rparr>) = (x, st')"
      and "k \<le> 1"
proof (cases "cs_cache (cstore st) i")
  case None
  with assms have "CachedStore_fill ctx i (st\<lparr>clock := \<lambda>n. clock st (n + 0)\<rparr>) = (x, st')"
    by (simp add: CachedStore_Get_def)
  then show thesis by (rule miss) simp
next
  case (Some e)
  show thesis
  proof (cases "clock st 0 < ce_expiresAt e")
    case True
    with assms Some show thesis
      by (intro hit) (auto simp: CachedStore_Get_def time_Now_def Let_def)
  next
    case False
    with assms Some have "CachedStore_fill ctx i (st\<lparr>clock := \<lambda>n. clock st (n + 1)\<rparr>) = (x, st')"
      by (simp add: CachedStore_Get_def time_Now_def)
    then show thesis by (rule miss) simp
  qed
qed

lemma CachedStore_fill_eqs:
  assumes "CachedStore_fill ctx i st = (x, st')"
  shows "Store_Get (cs_source (cstore st)) ctx i (src st) = (x, src st')"
    and "cs_source (cstore st') = cs_source (cstore st)" and "cs_ttl (cstore st') = cs_ttl (cstore st)"
    and "cs_cache (cstore st') = (case x of Inl e \<Rightarrow> cs_cache (cstore st)
        | Inr p \<Rightarrow> (cs_cache (cstore st))
            (i \<mapsto> \<lparr>ce_tenant = p, ce_expiresAt = Time_Add (clock st 0) (cs_ttl (cstore st))\<rparr>))"
    and "clock st' = (case x of Inl e \<Rightarrow> clock st | Inr p \<Rightarrow> \<lambda>n. clock st (Suc n))"
  using assms by (auto simp: CachedStore_fill_def time_Now_def split: sum.splits prod.splits)

section \<open>The cache keeps the contract of its source\<close>

definition cached_inv ::
  "('s \<Rightarrow> bool) \<Rightarrow> ('s \<Rightarrow> Heap) \<Rightarrow> 's Store \<Rightarrow> 's cached_state \<Rightarrow> bool" where
  "cached_inv I heap_of api st \<longleftrightarrow> I (src st) \<and> cs_source (cstore st) = api \<and>
     (\<forall>i e. cs_cache (cstore st) i = Some e \<longrightarrow>
        ce_tenant e < next_addr (heap_of (src st)) \<and>
        sID (structs (heap_of (src st)) (ce_tenant e)) = i)"

lemma cached_inv_clock [simp]:
  "cached_inv I heap_of api (st\<lparr>clock := c\<rparr>) = cached_inv I heap_of api st"
  by (simp add: cached_inv_def)

context tenant_store
begin

lemma fill_contract:
  assumes inv: "cached_inv inv heap_of api st" and fill: "CachedStore_fill ctx i st = (x, st')"
  shows "cached_inv inv heap_of api st'"
    and "\<And>p. x = Inr p \<Longrightarrow>
      p < next_addr (heap_of (src st')) \<and> sID (structs (heap_of (src st')) p) = i"
    and "x = Inl e \<Longrightarrow> errors_Is e ErrTenantNotFound"
    and "next_addr (heap_of (src st)) \<le> next_addr (heap_of (src st'))"
    and "q < next_addr (heap_of (src st)) \<Longrightarrow>
      structs (heap_of (src st')) q = structs (heap_of (src st)) q"
proof -
  from inv have s: "inv (src st)" "cs_source (cstore st) = api" by (auto simp: cached_inv_def)
  note eqs = CachedStore_fill_eqs [OF fill, unfolded s(2)]
  note get = eqs(1)
  note g = get_inv [OF s(1) get] get_frame [OF s(1) get]
  show new: "p < next_addr (heap_of (src st')) \<and> sID (structs (heap_of (src st')) p) = i"
    if "x = Inr p" for p
    using get_id [OF s(1)] get that by blast
  show "x = Inl e \<Longrightarrow> errors_Is e ErrTenantNotFound"
    using get_error [OF s(1)] get by blast
  show "next_addr (heap_of (src st)) \<le> next_addr (heap_of (src st'))"
    "q < next_addr (heap_of (src st)) \<Longrightarrow> structs (heap_of (src st')) q = structs (heap_of (src st)) q"
    using g by auto
  have old: "ce_tenant e < next_addr (heap_of (src st')) \<and>
      sID (structs (heap_of (src st')) (ce_tenant e)) = j"
    if "cs_cache (cstore st) j = Some e" for j e
    using inv that g by (fastforce simp: cached_inv_def)
  show "cached_inv inv heap_of api st'"
    using g(1) new old eqs(2,4) by (auto simp: cached_inv_def split: sum.splits if_splits)
qed

end

locale cached_store = tenant_store
begin

sublocale cached: tenant_store "cached_inv inv heap_of api" "\<lambda>st. heap_of (src st)"
  "CachedStore_Store run_now"
proof (unfold_locales, goal_cases)
  case (1 st ctx i x st')
  from 1(2) have "CachedStore_Get run_now ctx i st = (x, st')" by (simp add: CachedStore_Store_def)
  then show ?case
    by (cases rule: CachedStore_Get_cases)
      (use 1(1) fill_contract(1) [OF cached_inv_clock [THEN iffD2]] in auto)
next
  case (2 st ctx i p st')
  from 2(2) have "CachedStore_Get run_now ctx i st = (Inr p, st')" by (simp add: CachedStore_Store_def)
  then show ?case
  proof (cases rule: CachedStore_Get_cases)
    case (hit e)
    with 2(1) show ?thesis by (auto simp: cached_inv_def)
  next
    case (miss k)
    from fill_contract(2) [OF _ this(1)] 2(1) show ?thesis by simp
  qed
next
  case (3 st ctx i e st')
  from 3(2) have "CachedStore_Get run_now ctx i st = (Inl e, st')" by (simp add: CachedStore_Store_def)
  then show ?case
    by (cases rule: CachedStore_Get_cases)
      (use 3(1) fill_contract(3) [OF cached_inv_clock [THEN iffD2]] in auto)
next
  case (4 st ctx i x st')
  from 4(2) have "CachedStore_Get run_now ctx i st = (x, st')" by (simp add: CachedStore_Store_def)
  then show ?case
    by (cases rule: CachedStore_Get_cases)
      (use 4(1) fill_contract(4,5) [OF cached_inv_clock [THEN iffD2]] in auto)
next
  case (5 st ctx i b st')
  then have "inv (src st)" "cs_source (cstore st) = api" by (auto simp: cached_inv_def)
  with 5 show ?case
    using isBanned_pure [of "src st" ctx i]
    by (auto simp: CachedStore_Store_def CachedStore_IsBanned_def split: prod.splits)
qed

end

text \<open>The cache over the in-memory store, as the reference server assembles it.\<close>

interpretation memcache: cached_store ms_inv heap MemoryStore_Store
  by unfold_locales

section \<open>Bounded staleness\<close>

text \<open>
  A pointer outside the store: allocated, none of the store's own, its roles in an
  allocated array. No operation of the store changes the tenant behind such a pointer;
  the cache holds only such pointers.
\<close>

definition outside :: "mem_state \<Rightarrow> addr \<Rightarrow> bool" where
  "outside s p \<longleftrightarrow> p < next_addr (heap s) \<and> p \<notin> ran (ms_tenants (mstore s)) \<and>
     valid_slice (heap s) (sRoles (structs (heap s) p))"

definition keeps_outside :: "mem_state \<Rightarrow> mem_state \<Rightarrow> bool" where
  "keeps_outside s s' \<longleftrightarrow>
     (\<forall>p. outside s p \<longrightarrow> outside s' p \<and> deref (heap s') p = deref (heap s) p)"

lemma keeps_outsideI:
  assumes "next_addr (heap s) \<le> next_addr (heap s')"
    and "\<And>p. outside s p \<Longrightarrow> structs (heap s') p = structs (heap s) p"
    and "\<And>a. a < next_addr (heap s) \<Longrightarrow> arrays (heap s') a = arrays (heap s) a"
    and "\<And>p. outside s p \<Longrightarrow> p \<notin> ran (ms_tenants (mstore s'))"
  shows "keeps_outside s s'"
  using assms
  by (fastforce simp: keeps_outside_def outside_def deref_def struct_value_def slice_roles_def
      valid_slice_def split: option.splits)

lemma keeps_outside_trans:
  "keeps_outside s s' \<Longrightarrow> keeps_outside s' s'' \<Longrightarrow> keeps_outside s s''"
  by (simp add: keeps_outside_def)

lemma keeps_outside_refl [simp]: "keeps_outside s s"
  by (simp add: keeps_outside_def)

lemma Get_keeps_outside:
  assumes "ms_inv s" and "MemoryStore_Get ctx i s = (x, s')"
  shows "keeps_outside s s'" and "x = Inr p \<Longrightarrow> outside s' p"
proof -
  note fr = ms_get_correct [OF assms]
  show "keeps_outside s s'"
    using fr(3,5,6,7) by (intro keeps_outsideI) (auto simp: outside_def)
  show "x = Inr p \<Longrightarrow> outside s' p"
    using fr(3,4) ms_invD(1) [OF assms(1)] by (fastforce simp: outside_def ran_def)
qed

lemma set_keeps_outside: "keeps_outside s (put_copy t s)"
  by (rule keeps_outsideI)
    (auto simp: put_copy_def split_def heap_simps outside_def ran_def split: if_splits)

lemma SetState_keeps_outside:
  assumes "MemoryStore_SetState ctx i st s = (x, s')"
  shows "keeps_outside s s'"
  using assms
  by (intro keeps_outsideI)
    (auto simp: MemoryStore_SetState_def heap_simps outside_def ran_def split: option.splits)

lemma new_tenant_keeps_outside:
  assumes "new_tenant v (heap s) = (t, h)"
  shows "keeps_outside s (s\<lparr>heap := h\<rparr>)"
  using assms
  by (intro keeps_outsideI) (auto simp: new_tenant_def alloc_array_def outside_def)

lemma write_keeps_outside:
  assumes "new_tenant v (heap s) = (t, h)"
    and "MemoryStore_Create ctx t (s\<lparr>heap := h\<rparr>) = (x, s') \<or>
      MemoryStore_Update ctx t (s\<lparr>heap := h\<rparr>) = (x, s')"
  shows "keeps_outside s s'"
  using assms(2) new_tenant_keeps_outside [OF assms(1)] set_keeps_outside [of "s\<lparr>heap := h\<rparr>" t]
  by (auto simp: MemoryStore_Create_def MemoryStore_Update_def
      dest: keeps_outside_trans split: if_splits)

lemma write_keeps_inv:
  assumes "ms_inv s" and "new_tenant v (heap s) = (t, h)"
    and "MemoryStore_Create ctx t (s\<lparr>heap := h\<rparr>) = (x, s') \<or>
      MemoryStore_Update ctx t (s\<lparr>heap := h\<rparr>) = (x, s')"
  shows "ms_inv s'"
  using assms(3) new_tenant_frame(1,4) [OF assms(1,2)] ms_set_correct(1) [of "s\<lparr>heap := h\<rparr>" t]
  by (auto simp: MemoryStore_Create_def MemoryStore_Update_def split: if_splits)

text \<open>
  A system step: a lookup through the cache, an administrative write to the store behind
  it, or the passing of time (readings of the clock by other code). A history is the list
  of the states passed through, the newest first.
\<close>

inductive cs_step :: "mem_state Do \<Rightarrow> mem_state cached_state \<Rightarrow> mem_state cached_state \<Rightarrow> bool"
  for Do where
  step_get: "CachedStore_Get Do ctx i st = (x, st') \<Longrightarrow> cs_step Do st st'"
| step_create: "new_tenant v (heap (src st)) = (t, h) \<Longrightarrow>
    MemoryStore_Create ctx t ((src st)\<lparr>heap := h\<rparr>) = (u, s) \<Longrightarrow> cs_step Do st (st\<lparr>src := s\<rparr>)"
| step_update: "new_tenant v (heap (src st)) = (t, h) \<Longrightarrow>
    MemoryStore_Update ctx t ((src st)\<lparr>heap := h\<rparr>) = (u, s) \<Longrightarrow> cs_step Do st (st\<lparr>src := s\<rparr>)"
| step_setState: "MemoryStore_SetState ctx i state (src st) = (u, s) \<Longrightarrow>
    cs_step Do st (st\<lparr>src := s\<rparr>)"
| step_time: "cs_step Do st (st\<lparr>clock := \<lambda>n. clock st (n + k)\<rparr>)"

inductive cs_history ::
  "mem_state Do \<Rightarrow> Duration \<Rightarrow> mem_state cached_state list \<Rightarrow> bool" for Do ttl where
  history_start: "ms_inv s \<Longrightarrow> mono c \<Longrightarrow>
    cs_history Do ttl [\<lparr>src = s, cstore = NewCachedStore MemoryStore_Store ttl, clock = c\<rparr>]"
| history_step: "cs_history Do ttl (st # H) \<Longrightarrow> cs_step Do st st' \<Longrightarrow>
    cs_history Do ttl (st' # st # H)"

declare cs_step.intros [step_intros] cs_history.intros [step_intros]

text \<open>
  The value behind a cached pointer was the source's value before some step of the
  history, and the entry expires within the TTL after that step.
\<close>

definition backed ::
  "Duration \<Rightarrow> mem_state cached_state list \<Rightarrow> TenantID \<Rightarrow> Tenant \<Rightarrow> Time \<Rightarrow> bool" where
  "backed ttl H i v e \<longleftrightarrow> (\<exists>post pre G. suffix (post # pre # G) H \<and>
     ms_view (src pre) i = Some v \<and> nanos e \<le> nanos (clock post 0) + sint ttl)"

definition cache_ok :: "Duration \<Rightarrow> mem_state cached_state list \<Rightarrow> bool" where
  "cache_ok ttl H \<longleftrightarrow> (case H of [] \<Rightarrow> True | st # _ \<Rightarrow>
     ms_inv (src st) \<and> mono (clock st) \<and> cs_source (cstore st) = MemoryStore_Store \<and>
     cs_ttl (cstore st) = ttl \<and>
     (\<forall>i e. cs_cache (cstore st) i = Some e \<longrightarrow> outside (src st) (ce_tenant e) \<and>
        backed ttl H i (deref (heap (src st)) (ce_tenant e)) (ce_expiresAt e)))"

lemma backed_Cons: "backed ttl H i v e \<Longrightarrow> backed ttl (st # H) i v e"
  unfolding backed_def by (meson suffix_Cons)

lemma mono_clock_shift: "mono (c :: Clock) \<Longrightarrow> mono (\<lambda>n. c (n + k))"
  by (auto simp: mono_def)

text \<open>A step that leaves the cache alone and every pointer outside the store intact.\<close>

lemma cache_ok_frame:
  assumes ok: "cache_ok ttl (st # H)" and "ms_inv (src st')" and "mono (clock st')"
    and "cstore st' = cstore st" and "keeps_outside (src st) (src st')"
  shows "cache_ok ttl (st' # st # H)"
  using assms by (fastforce simp: cache_ok_def keeps_outside_def intro: backed_Cons)

lemma cache_ok_fill:
  assumes ok: "cache_ok ttl (st # H)"
    and fill: "CachedStore_fill ctx i (st\<lparr>clock := \<lambda>n. clock st (n + k)\<rparr>) = (x, st')"
  shows "cache_ok ttl (st' # st # H)"
proof -
  let ?st = "st\<lparr>clock := \<lambda>n. clock st (n + k)\<rparr>"
  from ok have inv: "ms_inv (src st)" and mono: "mono (clock st)"
    and source: "cs_source (cstore st) = MemoryStore_Store" and ttl: "cs_ttl (cstore st) = ttl"
    by (auto simp: cache_ok_def)
  note eqs = CachedStore_fill_eqs [OF fill]
  have get: "MemoryStore_Get ctx i (src st) = (x, src st')"
    using eqs(1) source by (simp add: MemoryStore_Store_def)
  let ?s = "src st'"
  note get_ok = ms_get_correct [OF inv get] and keep = Get_keeps_outside [OF inv get]
  have mono': "mono (clock st')"
    using mono_clock_shift [OF mono, of k] mono_clock_shift [OF mono, of "Suc k"] eqs(5)
    by (auto split: sum.splits)
  have old: "outside ?s (ce_tenant e) \<and>
      backed ttl (st' # st # H) j (deref (heap ?s) (ce_tenant e)) (ce_expiresAt e)"
    if "cs_cache (cstore st) j = Some e" for j e
    using ok that keep(1) by (auto simp: cache_ok_def keeps_outside_def intro: backed_Cons)
  have new: "outside ?s p \<and>
      backed ttl (st' # st # H) i (deref (heap ?s) p) (Time_Add (clock st k) ttl)"
    if "x = Inr p" for p
  proof -
    have "clock st k \<le> clock st' 0" using eqs(5) that mono by (simp add: mono_def)
    moreover have "ms_view (src st) i = Some (deref (heap ?s) p)"
      using get_ok(4) [OF that] by simp
    ultimately have "backed ttl (st' # st # H) i (deref (heap ?s) p) (Time_Add (clock st k) ttl)"
      unfolding backed_def by (intro exI [of _ st'] exI [of _ st] exI [of _ H])
        (simp add: less_eq_Time_def)
    with keep(2) [OF that] show ?thesis by simp
  qed
  show ?thesis
    using get_ok(1) mono' eqs(2-4) source ttl old new
    by (auto simp: cache_ok_def split: sum.splits if_splits)
qed

lemma cache_ok_get:
  assumes ok: "cache_ok ttl (st # H)" and get: "CachedStore_Get run_now ctx i st = (x, st')"
  shows "cache_ok ttl (st' # st # H)"
  using get
proof (cases rule: CachedStore_Get_cases)
  case (hit e)
  with ok mono_clock_shift [of "clock st" 1] show ?thesis
    by (intro cache_ok_frame [OF ok]) (auto simp: cache_ok_def)
next
  case (miss k)
  with ok show ?thesis by (blast intro: cache_ok_fill)
qed

lemma cs_history_ok: "cs_history run_now ttl H \<Longrightarrow> cache_ok ttl H"
proof (induction rule: cs_history.induct)
  case (history_start s c)
  then show ?case by (simp add: cache_ok_def NewCachedStore_def)
next
  case (history_step st H st')
  then have ok: "cache_ok ttl (st # H)" and "ms_inv (src st)" "mono (clock st)"
    by (auto simp: cache_ok_def)
  with history_step.hyps(2) show ?case
  proof (cases rule: cs_step.cases)
    case (step_get ctx i x)
    then show ?thesis by (rule cache_ok_get [OF ok])
  qed (auto intro!: cache_ok_frame [OF ok] mono_clock_shift
      dest: write_keeps_inv write_keeps_outside SetState_keeps_outside ms_setState_correct(1))
qed

text \<open>
  C7. Bounded staleness. In every history of lookups through a new cache, administrative
  writes to the in-memory store behind it and passing time, a tenant that a lookup
  returns is either the store's present one or was the store's tenant before some earlier
  step, and the lookup's clock reading is less than one TTL after the end of that step. A
  change of a tenant is therefore seen by every lookup once the TTL has passed.
\<close>

theorem cached_get_bounded_staleness:
  assumes solo: "singleflight_solo Do" and hist: "cs_history Do ttl (st # H)"
    and get: "CachedStore_Get Do ctx i st = (Inr p, st')"
  shows "ms_view (src st) i = Some (deref (heap (src st')) p) \<or>
    (\<exists>post pre G. suffix (post # pre # G) (st # H) \<and>
       ms_view (src pre) i = Some (deref (heap (src st')) p) \<and>
       nanos (clock st 0) < nanos (clock post 0) + sint ttl)"
proof -
  note Do = singleflight_solo_eq [OF solo]
  from hist have ok: "cache_ok ttl (st # H)" by (simp add: Do cs_history_ok)
  from get have "CachedStore_Get run_now ctx i st = (Inr p, st')" by (simp add: Do)
  then show ?thesis
  proof (cases rule: CachedStore_Get_cases)
    case (hit e)
    with ok have "backed ttl (st # H) i (deref (heap (src st')) p) (ce_expiresAt e)"
      by (auto simp: cache_ok_def)
    with hit(4) show ?thesis by (fastforce simp: backed_def less_Time_def)
  next
    case (miss k)
    have "MemoryStore_Get ctx i (src st) = (Inr p, src st')"
      using CachedStore_fill_eqs(1) [OF miss(1)] ok
      by (simp add: cache_ok_def MemoryStore_Store_def)
    with ok show ?thesis by (auto simp: cache_ok_def ms_get_correct(4))
  qed
qed

text \<open>
  A history for the witnesses: the demonstration store, a cache with a TTL of ten
  nanoseconds and a clock that advances by one; a lookup fills the cache, then the tenant
  is banned in the store.
\<close>

definition demo_clock :: Clock where
  "demo_clock n = Time (int n)"

definition demo_start :: "mem_state cached_state" where
  "demo_start = \<lparr>src = demo_store, cstore = NewCachedStore MemoryStore_Store 10, clock = demo_clock\<rparr>"

definition demo_filled :: "mem_state cached_state" where
  "demo_filled = snd (CachedStore_Get run_now Background ''acme'' demo_start)"

definition demo_banned :: "mem_state cached_state" where
  "demo_banned = demo_filled
     \<lparr>src := snd (MemoryStore_SetState Background ''acme'' Banned (src demo_filled))\<rparr>"

lemmas demo_cache_simps = demo_banned_def demo_filled_def demo_start_def demo_store_def
  demo_heap_def demo_clock_def NewCachedStore_def CachedStore_Get_def CachedStore_fill_def
  MemoryStore_Store_def MemoryStore_Get_def MemoryStore_SetState_def alloc_struct_def
  write_State_def time_Now_def Time_Add_def deref_def struct_value_def slice_roles_def

lemma demo_history: "cs_history run_now 10 [demo_banned, demo_filled, demo_start]"
proof -
  have "mono demo_clock" by (auto simp: mono_def demo_clock_def)
  then have "cs_history run_now 10 [demo_start]"
    unfolding demo_start_def by (intro history_start demo_store_inv)
  then have "cs_history run_now 10 [demo_filled, demo_start]"
    by (rule history_step)
      (rule step_get [OF prod.collapse [symmetric, of "CachedStore_Get run_now Background ''acme'' demo_start",
            folded demo_filled_def]])
  then show ?thesis
    unfolding demo_banned_def by (rule history_step) (rule step_setState, rule prod.collapse [symmetric])
qed

theorem cached_get_bounded_staleness_witness:
  "\<exists>st'. CachedStore_Get run_now Background ''acme'' demo_banned = (Inr 2, st') \<and>
     tState (deref (heap (src st')) 2) = Active \<and>
     map_option tState (ms_view (src demo_banned) ''acme'') = Some Banned \<and>
     (\<exists>post pre G. suffix (post # pre # G) [demo_banned, demo_filled, demo_start] \<and>
       ms_view (src pre) ''acme'' = Some (deref (heap (src st')) 2) \<and>
       nanos (clock demo_banned 0) < nanos (clock post 0) + sint (10 :: Duration))"
proof -
  have solo: "singleflight_solo run_now" by (simp add: singleflight_solo_def)
  obtain st' where get: "CachedStore_Get run_now Background ''acme'' demo_banned = (Inr 2, st')"
    and stale: "tState (deref (heap (src st')) 2) = Active"
    by (simp add: demo_cache_simps)
  have now: "map_option tState (ms_view (src demo_banned) ''acme'') = Some Banned"
    by (simp add: demo_cache_simps ms_view_def)
  then have "ms_view (src demo_banned) ''acme'' \<noteq> Some (deref (heap (src st')) 2)"
    using stale by auto
  with cached_get_bounded_staleness [OF solo demo_history get] get stale now show ?thesis
    by blast
qed

text \<open>
  The ban state is never cached: as soon as \<^verbatim>\<open>SetState\<close> on the store has returned,
  \<^verbatim>\<open>CachedStore.IsBanned\<close> answers by the new state, whatever the cache holds.
\<close>

lemma cached_isBanned_immediate:
  assumes "ms_inv (src st)" and "cs_source (cstore st) = MemoryStore_Store"
    and "MemoryStore_SetState ctx i state (src st) = (Inr u, s)"
  shows "CachedStore_IsBanned ctx' i (st\<lparr>src := s\<rparr>) = (Inr (state = Banned), st\<lparr>src := s\<rparr>)"
  using mem.setState_then_isBanned [OF assms(1), of ctx i state u s] assms
  by (simp add: CachedStore_IsBanned_def MemoryStore_AdminStore_def)

text \<open>
  C35. A lookup hands out the cache's own pointer. An assignment to a field of the returned
  struct, made by one caller, is what the next lookup of that tenant returns while the
  entry is live: the tenant is shared by all callers for the TTL.
\<close>

theorem cached_pointer_shared:
  assumes solo: "singleflight_solo Do" and get: "CachedStore_Get Do ctx i st = (Inr p, st1)"
    and live: "cs_cache (cstore st1) i = Some e" "clock st1 0 < ce_expiresAt e"
    and st2: "st2 = st1\<lparr>src := (src st1)\<lparr>heap := write_State p x (heap (src st1))\<rparr>\<rparr>"
  shows "\<exists>st3. CachedStore_Get Do ctx' i st2 = (Inr p, st3) \<and>
    tState (deref (heap (src st3)) p) = x"
proof -
  note Do = singleflight_solo_eq [OF solo]
  from get have "CachedStore_Get run_now ctx i st = (Inr p, st1)" by (simp add: Do)
  then have "ce_tenant e = p"
  proof (cases rule: CachedStore_Get_cases)
    case (miss k)
    from CachedStore_fill_eqs(4) [OF this(1)] live(1) show ?thesis by auto
  qed (use live(1) in auto)
  then show ?thesis
    using live by (simp add: Do st2 CachedStore_Get_def time_Now_def deref_def heap_simps)
qed

theorem cached_pointer_shared_witness:
  "\<exists>st3. CachedStore_Get run_now Background ''acme''
      (demo_filled\<lparr>src := (src demo_filled)\<lparr>heap := write_State 2 Banned (heap (src demo_filled))\<rparr>\<rparr>)
      = (Inr 2, st3) \<and> tState (deref (heap (src st3)) 2) = Banned"
proof -
  have solo: "singleflight_solo run_now" by (simp add: singleflight_solo_def)
  have get: "CachedStore_Get run_now Background ''acme'' demo_start = (Inr 2, demo_filled)"
    by (simp add: demo_cache_simps)
  have live: "cs_cache (cstore demo_filled) ''acme'' = Some \<lparr>ce_tenant = 2, ce_expiresAt = Time 10\<rparr>"
    "clock demo_filled 0 < ce_expiresAt \<lparr>ce_tenant = 2, ce_expiresAt = Time 10\<rparr>"
    by (simp_all add: demo_cache_simps)
  show ?thesis by (rule cached_pointer_shared [OF solo get live]) simp
qed

end
