(* ===== verification/Subdomain_Resolver.thy ===== *)
theory Subdomain_Resolver
  imports Tenant
begin

text \<open>
  The subdomain resolver (\<^verbatim>\<open>src/resolver/subdomain.go\<close>): the tenant identifier is the
  one label that stands before the base domain in the request's host. The lemmas say
  exactly which hosts resolve, and that the identifiers it yields hold neither a dot nor
  a colon.
\<close>

definition ErrNoTenant :: go_error where
  "ErrNoTenant = ErrVar ''resolver.ErrNoTenant'' ''resolver: no tenant found in request''"

record SubdomainResolver =
  baseDomain :: string

definition NewSubdomainResolver :: "string \<Rightarrow> SubdomainResolver" where
  "NewSubdomainResolver d = \<lparr>baseDomain = d\<rparr>"

definition SubdomainResolver_Resolve :: "SubdomainResolver \<Rightarrow> Resolver" where
  "SubdomainResolver_Resolve sr r =
     (let host = Host r;
          idx = strings_Index host '':'';
          host = (if idx \<noteq> -1 then take (nat idx) host else host);
          suffix = ''.'' @ baseDomain sr in
      if \<not> strings_HasSuffix host suffix then Inl ErrNoTenant
      else
        (let subdomain = strings_TrimSuffix host suffix in
         if subdomain = '''' then Inl ErrNoTenant
         else if subdomain = '''' \<or> strings_Contains subdomain ''.'' then Inl ErrNoTenant
         else Inr subdomain))"

text \<open>The host without its port: everything before the first colon.\<close>

definition host_name :: "string \<Rightarrow> string" where
  "host_name h = takeWhile (\<lambda>c. c \<noteq> CHR '':'') h"

lemma strip_port:
  "(if strings_Index h '':'' \<noteq> -1 then take (nat (strings_Index h '':'')) h else h) = host_name h"
proof (cases "strings_Index h '':'' = -1")
  case True
  then have "CHR '':'' \<notin> set h" by (simp add: strings_Index_absent)
  then have "host_name h = h" unfolding host_name_def by (subst takeWhile_eq_all_conv) auto
  with True show ?thesis by simp
next
  case False
  then show ?thesis by (simp add: host_name_def take_strings_Index)
qed

lemma host_name_no_colon: "CHR '':'' \<notin> set (host_name h)"
  by (auto simp: host_name_def dest: set_takeWhileD)

lemma host_name_with_port:
  "CHR '':'' \<notin> set h \<Longrightarrow> host_name (h @ '':'' @ port) = h"
  "CHR '':'' \<notin> set h \<Longrightarrow> host_name h = h"
  unfolding host_name_def by (subst takeWhile_append2; auto) (subst takeWhile_eq_all_conv; auto)

lemma Resolve_unfold:
  "SubdomainResolver_Resolve sr r =
     (let suffix = ''.'' @ baseDomain sr; host = host_name (Host r) in
      if strings_HasSuffix host suffix \<and> strings_TrimSuffix host suffix \<noteq> '''' \<and>
         CHR ''.'' \<notin> set (strings_TrimSuffix host suffix)
      then Inr (strings_TrimSuffix host suffix) else Inl ErrNoTenant)"
  unfolding SubdomainResolver_Resolve_def Let_def strip_port by simp

lemma Resolve_error_iff: "SubdomainResolver_Resolve sr r = Inl e \<longleftrightarrow>
    e = ErrNoTenant \<and> (\<forall>i. SubdomainResolver_Resolve sr r \<noteq> Inr i)"
  by (auto simp: Resolve_unfold Let_def)

lemma Resolve_Inr_iff:
  "SubdomainResolver_Resolve sr r = Inr i \<longleftrightarrow>
     host_name (Host r) = i @ ''.'' @ baseDomain sr \<and> i \<noteq> '''' \<and> CHR ''.'' \<notin> set i"
proof
  assume "SubdomainResolver_Resolve sr r = Inr i"
  then show "host_name (Host r) = i @ ''.'' @ baseDomain sr \<and> i \<noteq> '''' \<and> CHR ''.'' \<notin> set i"
    by (auto simp: Resolve_unfold Let_def strings_HasSuffix_def strings_TrimSuffix_def
        split: if_splits) (metis append_take_drop_id)+
next
  assume "host_name (Host r) = i @ ''.'' @ baseDomain sr \<and> i \<noteq> '''' \<and> CHR ''.'' \<notin> set i"
  then show "SubdomainResolver_Resolve sr r = Inr i"
    using strings_TrimSuffix_append [of i "''.'' @ baseDomain sr"]
      strings_HasSuffix_append [of i "''.'' @ baseDomain sr"]
    by (simp add: Resolve_unfold Let_def)
qed

lemma Resolve_id_charset:
  assumes "SubdomainResolver_Resolve sr r = Inr i"
  shows "i \<noteq> '''' \<and> CHR ''.'' \<notin> set i \<and> CHR '':'' \<notin> set i"
  using assms host_name_no_colon [of "Host r"] by (auto simp: Resolve_Inr_iff)

text \<open>
  C12. The resolver identifies a tenant exactly when the host, cut before its first colon,
  is one non-empty label without a dot followed by a dot and the base domain; the
  identifier is that label. Every other host is answered with \<^const>\<open>ErrNoTenant\<close>, the
  bare base domain, a foreign domain and a host of several subdomain levels among them.
\<close>

theorem subdomain_resolve_spec:
  "(SubdomainResolver_Resolve sr r = Inr i \<longleftrightarrow>
      takeWhile (\<lambda>c. c \<noteq> CHR '':'') (Host r) = i @ ''.'' @ baseDomain sr \<and>
      i \<noteq> '''' \<and> CHR ''.'' \<notin> set i) \<and>
   (SubdomainResolver_Resolve sr r = Inl e \<longleftrightarrow>
      e = ErrNoTenant \<and> (\<nexists>j. SubdomainResolver_Resolve sr r = Inr j))"
  using Resolve_Inr_iff [of sr r i] Resolve_error_iff [of sr r e] by (simp add: host_name_def)

text \<open>
  Round trip: for a label without dot and colon and a base domain without colon, the
  host \<^verbatim>\<open>label.base\<close>, with or without a port, resolves to the label.
\<close>

lemma subdomain_resolve_roundtrip:
  assumes "i \<noteq> ''''" and "CHR ''.'' \<notin> set i" and "CHR '':'' \<notin> set i"
    and "CHR '':'' \<notin> set d"
    and "Host r = i @ ''.'' @ d \<or> Host r = i @ ''.'' @ d @ '':'' @ port"
  shows "SubdomainResolver_Resolve (NewSubdomainResolver d) r = Inr i"
proof -
  have "CHR '':'' \<notin> set (i @ ''.'' @ d)" using assms(3,4) by simp
  from host_name_with_port [OF this] assms(5) have "host_name (Host r) = i @ ''.'' @ d"
    by fastforce
  with assms(1,2) show ?thesis by (simp add: Resolve_Inr_iff NewSubdomainResolver_def)
qed

end
