(* ===== verification/Middleware.thy ===== *)
theory Middleware
  imports Tenant_Context Cached_Store Subdomain_Resolver
begin

text \<open>
  The middleware adapters (\<^verbatim>\<open>src/middleware/{nethttp,chi,gin,echo}\<close>): each asks the manager for
  the tenant of the request, refuses the request with 404 if there is none, and otherwise
  lets the next handler see the request with the tenant in its context. Gin and Echo are
  not part of the repository: the operations the adapters use of their contexts are
  arguments.
\<close>

section \<open>The adapters\<close>

text \<open>
  A request's own context is never nil, so that \<^verbatim>\<open>WithTenant\<close> does not panic; the panic of
  a manager that was not made by \<^verbatim>\<open>New\<close> is passed on.
\<close>

definition with_tenant :: "Request \<Rightarrow> addr \<Rightarrow> panic + Request" where
  "with_tenant r t =
     (case WithTenant (Some (req_Context r)) (Some t) of
        Inl p \<Rightarrow> Inl p
      | Inr ctx \<Rightarrow> Inr (Request_WithContext r ctx))"

definition Wrap :: "'s Manager \<Rightarrow> 's Handler \<Rightarrow> 's Handler" where
  "Wrap m nxt r s =
     (case Manager_Resolve m r s of
        Inl p \<Rightarrow> (Inl p, s)
      | Inr (Inl err, s') \<Rightarrow> (Inr (http_Error ''tenant not found'' StatusNotFound), s')
      | Inr (Inr t, s') \<Rightarrow>
          (case with_tenant r t of Inl p \<Rightarrow> (Inl p, s') | Inr r' \<Rightarrow> nxt r' s'))"

definition chi_Middleware :: "'s Manager \<Rightarrow> 's Handler \<Rightarrow> 's Handler" where
  "chi_Middleware m nxt r s =
     (case Manager_Resolve m r s of
        Inl p \<Rightarrow> (Inl p, s)
      | Inr (Inl err, s') \<Rightarrow> (Inr (http_Error ''tenant not found'' StatusNotFound), s')
      | Inr (Inr t, s') \<Rightarrow>
          (case with_tenant r t of Inl p \<Rightarrow> (Inl p, s') | Inr r \<Rightarrow> nxt r s'))"

text \<open>
  What the Gin adapter uses of a \<^verbatim>\<open>*gin.Context\<close>: its \<^verbatim>\<open>Request\<close> field, \<^verbatim>\<open>AbortWithStatus\<close>, and
  \<^verbatim>\<open>Next\<close>, which runs the handlers that follow and may panic.
\<close>

record ('c, 's) gin_api =
  gin_Request :: "'c \<Rightarrow> Request"
  gin_set_Request :: "Request \<Rightarrow> 'c \<Rightarrow> 'c"
  gin_AbortWithStatus :: "int \<Rightarrow> 'c \<Rightarrow> 'c"
  gin_Next :: "'c \<Rightarrow> 's \<Rightarrow> (panic + 'c) \<times> 's"

definition gin_Middleware :: "('c, 's) gin_api \<Rightarrow> 's Manager \<Rightarrow> 'c \<Rightarrow> 's \<Rightarrow> (panic + 'c) \<times> 's" where
  "gin_Middleware api m c s =
     (case Manager_Resolve m (gin_Request api c) s of
        Inl p \<Rightarrow> (Inl p, s)
      | Inr (Inl err, s') \<Rightarrow> (Inr (gin_AbortWithStatus api StatusNotFound c), s')
      | Inr (Inr t, s') \<Rightarrow>
          (case with_tenant (gin_Request api c) t of
             Inl p \<Rightarrow> (Inl p, s')
           | Inr r \<Rightarrow> gin_Next api (gin_set_Request api r c) s'))"

text \<open>What the Echo adapter uses of Echo; a handler returns an error or nil.\<close>

record 'c echo_api =
  echo_Request :: "'c \<Rightarrow> Request"
  echo_SetRequest :: "Request \<Rightarrow> 'c \<Rightarrow> 'c"
  echo_NewHTTPError :: "int \<Rightarrow> string \<Rightarrow> go_error"

type_synonym ('c, 's) echo_HandlerFunc = "'c \<Rightarrow> 's \<Rightarrow> (panic + unit result \<times> 'c) \<times> 's"

definition echo_Middleware ::
  "'c echo_api \<Rightarrow> 's Manager \<Rightarrow> ('c, 's) echo_HandlerFunc \<Rightarrow> ('c, 's) echo_HandlerFunc" where
  "echo_Middleware api m nxt c s =
     (case Manager_Resolve m (echo_Request api c) s of
        Inl p \<Rightarrow> (Inl p, s)
      | Inr (Inl err, s') \<Rightarrow> (Inr (Inl (echo_NewHTTPError api StatusNotFound ''tenant not found''), c), s')
      | Inr (Inr t, s') \<Rightarrow>
          (case with_tenant (echo_Request api c) t of
             Inl p \<Rightarrow> (Inl p, s')
           | Inr r \<Rightarrow> nxt (echo_SetRequest api r c) s'))"

section \<open>One specification for the four\<close>

text \<open>The verdict on a request: refuse it, or let it pass with the tenant in its context.\<close>

datatype verdict = Refuse | Pass addr

definition gate :: "'s Manager \<Rightarrow> Request \<Rightarrow> 's \<Rightarrow> panic + (verdict \<times> 's)" where
  "gate m r s =
     (case Manager_Resolve m r s of
        Inl p \<Rightarrow> Inl p
      | Inr (Inl err, s') \<Rightarrow> Inr (Refuse, s')
      | Inr (Inr t, s') \<Rightarrow> Inr (Pass t, s'))"

abbreviation tenant_request :: "Request \<Rightarrow> addr \<Rightarrow> Request" where
  "tenant_request r t \<equiv> Request_WithContext r (WithValue (req_Context r) tenantContextKey (TenantPtr (Some t)))"

lemma with_tenant_eq [simp]: "with_tenant r t = Inr (tenant_request r t)"
  by (simp add: with_tenant_def WithTenant_def)

lemma FromContext_tenant [simp]: "FromContext (Some (WithValue c tenantContextKey (TenantPtr t))) = t"
  by (simp add: FromContext_def)

lemma gate_cases:
  obtains (panic) p where "gate m r s = Inl p" and "Manager_Resolve m r s = Inl p"
  | (refuse) e s' where "gate m r s = Inr (Refuse, s')" and "Manager_Resolve m r s = Inr (Inl e, s')"
  | (pass) t s' where "gate m r s = Inr (Pass t, s')" and "Manager_Resolve m r s = Inr (Inr t, s')"
  unfolding gate_def
  by (cases "Manager_Resolve m r s"; (auto split: sum.splits prod.splits)?) (metis sumE surj_pair)

text \<open>
  C21. The four adapters do the same. For one manager, request and state they give the same
  verdict and leave the same state behind; a refused request never reaches the next handler
  and is answered with status 404 by each in the way of its framework; a request that passes
  reaches the next handler exactly once, unchanged but for the tenant in its context, where
  \<^verbatim>\<open>FromContext\<close> finds it.
\<close>

theorem middleware_adapters_agree:
  assumes "gin_Request gin c = r" and "echo_Request echo c' = r"
  shows "case gate m r s of
      Inl p \<Rightarrow> Wrap m nxt r s = (Inl p, s) \<and> chi_Middleware m nxt r s = (Inl p, s) \<and>
        gin_Middleware gin m c s = (Inl p, s) \<and> echo_Middleware echo m enxt c' s = (Inl p, s)
    | Inr (Refuse, s') \<Rightarrow>
        Wrap m nxt r s = (Inr (http_Error ''tenant not found'' 404), s') \<and>
        chi_Middleware m nxt r s = (Inr (http_Error ''tenant not found'' 404), s') \<and>
        gin_Middleware gin m c s = (Inr (gin_AbortWithStatus gin 404 c), s') \<and>
        echo_Middleware echo m enxt c' s = (Inr (Inl (echo_NewHTTPError echo 404 ''tenant not found''), c'), s')
    | Inr (Pass t, s') \<Rightarrow>
        (\<exists>r'. FromContext (Some (req_Context r')) = Some t \<and> Host r' = Host r \<and> Method r' = Method r \<and>
          Path r' = Path r \<and>
          Wrap m nxt r s = nxt r' s' \<and> chi_Middleware m nxt r s = nxt r' s' \<and>
          gin_Middleware gin m c s = gin_Next gin (gin_set_Request gin r' c) s' \<and>
          echo_Middleware echo m enxt c' s = enxt (echo_SetRequest echo r' c') s')"
proof (cases rule: gate_cases [of m r s])
  case (pass t s')
  with assms show ?thesis
    by (simp add: Wrap_def chi_Middleware_def gin_Middleware_def echo_Middleware_def)
      (intro exI [of _ "tenant_request r t"], simp)
qed (use assms in \<open>simp_all add: Wrap_def chi_Middleware_def gin_Middleware_def echo_Middleware_def status_defs\<close>)

text \<open>Stand-ins for the frameworks: a context is the request and the status answered so far.\<close>

definition demo_gin :: "(Request \<times> int, 's) gin_api" where
  "demo_gin = \<lparr>gin_Request = fst, gin_set_Request = (\<lambda>r c. (r, snd c)),
     gin_AbortWithStatus = (\<lambda>code c. (fst c, code)), gin_Next = (\<lambda>c s. (Inr c, s))\<rparr>"

definition demo_echo :: "(Request \<times> int) echo_api" where
  "demo_echo = \<lparr>echo_Request = fst, echo_SetRequest = (\<lambda>r c. (r, snd c)),
     echo_NewHTTPError = (\<lambda>code msg. ForeignErr msg)\<rparr>"

definition demo_request :: "string \<Rightarrow> Request" where
  "demo_request host = \<lparr>Method = ''GET'', Host = host, Path = [''api'', ''me''],
     req_Context = Background, pathValues = []\<rparr>"

definition demo_manager :: "mem_state Manager" where
  "demo_manager = \<lparr>m_resolver = Some (SubdomainResolver_Resolve (NewSubdomainResolver ''localhost'')),
     m_store = Some MemoryStore_Store\<rparr>"

lemma demo_resolves: "SubdomainResolver_Resolve (NewSubdomainResolver ''localhost'') (demo_request ''acme.localhost'') = Inr ''acme''"
  by (simp add: Resolve_Inr_iff NewSubdomainResolver_def host_name_def demo_request_def)

theorem middleware_adapters_agree_witness:
  "\<exists>s'. gate demo_manager (demo_request ''acme.localhost'') demo_store = Inr (Pass 2, s') \<and>
     (\<exists>r'. FromContext (Some (req_Context r')) = Some 2 \<and>
       gin_Middleware demo_gin demo_manager (demo_request ''acme.localhost'', 0) demo_store = (Inr (r', 0), s') \<and>
       Wrap demo_manager (\<lambda>r s. (Inl (Panic (Host r)), s)) (demo_request ''acme.localhost'') demo_store =
         (Inl (Panic ''acme.localhost''), s'))"
proof -
  let ?r = "demo_request ''acme.localhost''"
  obtain s' where g: "gate demo_manager ?r demo_store = Inr (Pass 2, s')"
    by (simp add: gate_def Manager_Resolve_def demo_manager_def demo_resolves MemoryStore_Store_def
      MemoryStore_Get_def demo_store_def demo_heap_def alloc_struct_def)
  have "gin_Request demo_gin (?r, 0) = ?r" and "echo_Request demo_echo (?r, 0) = ?r"
    by (simp_all add: demo_gin_def demo_echo_def)
  from middleware_adapters_agree [OF this, where m = demo_manager and s = demo_store and
      nxt = "\<lambda>r s. (Inl (Panic (Host r)), s)" and enxt = "\<lambda>c s. (Inr (Inr (), c), s)"] g
  show ?thesis by (auto simp: demo_gin_def demo_request_def)
qed

section \<open>Isolation\<close>

lemma cached_refusal:
  assumes "cached_inv ms_inv heap MemoryStore_Store st" and "CachedStore_Get run_now ctx i st = (Inl e, st')"
  shows "ms_view (src st) i = None"
  using assms(2)
proof (cases rule: CachedStore_Get_cases)
  case (miss k)
  from assms(1) have "ms_inv (src st)" and "cs_source (cstore st) = MemoryStore_Store" by (auto simp: cached_inv_def)
  with CachedStore_fill_eqs(1) [OF miss(1)] mem.get_view [of "src st" ctx i] show ?thesis
    by (cases "ms_view (src st) i") simp_all
qed auto

text \<open>
  What the adapter does with a request, for the assembly of the reference server. \<open>memcache_ok\<close>
  is the invariant of the cache over the in-memory store.
\<close>

abbreviation memcache_ok :: "mem_state cached_state \<Rightarrow> bool" where
  "memcache_ok \<equiv> cached_inv ms_inv heap MemoryStore_Store"

definition server_manager :: "mem_state Do \<Rightarrow> string \<Rightarrow> panic + mem_state cached_state Manager" where
  "server_manager Do domain =
     New [WithResolver (Some (SubdomainResolver_Resolve (NewSubdomainResolver domain))),
          WithStore (Some (CachedStore_Store Do))]"

lemma server_manager_fields:
  assumes "server_manager Do domain = Inr m" and "singleflight_solo Do"
  shows "m_resolver m = Some (SubdomainResolver_Resolve (NewSubdomainResolver domain))"
    and "m_store m = Some (CachedStore_Store run_now)"
  using assms(1) singleflight_solo_eq [OF assms(2)]
  by (auto simp: server_manager_def New_def WithResolver_def WithStore_def Let_def split: if_splits)

lemma server_manager_total: "\<exists>m. server_manager Do domain = Inr m"
  by (simp add: server_manager_def New_def WithResolver_def WithStore_def)

lemma wrap_cases:
  assumes "memcache_ok st" and "singleflight_solo Do" and "server_manager Do domain = Inr m"
  obtains (pass) i t st' where "SubdomainResolver_Resolve (NewSubdomainResolver domain) r = Inr i"
      and "memcache_ok st'" and "tID (deref (heap (src st')) t) = i"
      and "CachedStore_Get run_now (req_Context r) i st = (Inr t, st')"
      and "\<And>nxt. Wrap m nxt r st = nxt (tenant_request r t) st'"
  | (refuse) st' where "memcache_ok st'"
      and "\<And>i. SubdomainResolver_Resolve (NewSubdomainResolver domain) r = Inr i \<Longrightarrow> ms_view (src st) i = None"
      and "\<And>nxt. Wrap m nxt r st = (Inr (http_Error ''tenant not found'' 404), st')"
proof -
  note m = server_manager_fields [OF assms(3,2)]
  obtain x st' where run: "Manager_Resolve m r st = Inr (x, st')"
    using memcache.cached.resolve_returns [OF m] by blast
  show thesis
  proof (cases x)
    case (Inr t)
    from memcache.cached.resolve_ok [OF assms(1) m] run Inr have inv: "memcache_ok st'"
      and res: "SubdomainResolver_Resolve (NewSubdomainResolver domain) r = Inr (tID (deref (heap (src st')) t))"
      by auto
    have "CachedStore_Get run_now (req_Context r) (tID (deref (heap (src st')) t)) st = (Inr t, st')"
      using run res Inr by (auto simp: Manager_Resolve_def m CachedStore_Store_def split: prod.splits sum.splits)
    moreover have "Wrap m nxt r st = nxt (tenant_request r t) st'" for nxt
      using run Inr by (simp add: Wrap_def)
    ultimately show thesis using pass [OF res inv refl] by blast
  next
    case (Inl e)
    from memcache.cached.resolve_error [OF assms(1) m] run Inl have inv: "memcache_ok st'" by blast
    have "ms_view (src st) i = None" if "SubdomainResolver_Resolve (NewSubdomainResolver domain) r = Inr i" for i
      using run that Inl cached_refusal [OF assms(1)]
      by (auto simp: Manager_Resolve_def m CachedStore_Store_def split: prod.splits sum.splits)
    moreover have "Wrap m nxt r st = (Inr (http_Error ''tenant not found'' 404), st')" for nxt
      using run Inl by (simp add: Wrap_def status_defs)
    ultimately show thesis using refuse [OF inv] by blast
  qed
qed

text \<open>
  C2. Tenant isolation of the request path, for the assembly of the reference server (subdomain
  resolver, cache over the in-memory store, net/http adapter): whatever the cache holds,
  the next handler is called only with a tenant whose identifier is the one the request's
  own host names, found by \<^verbatim>\<open>FromContext\<close>; every other request is answered with 404 without
  calling the next handler, and only if its host names no tenant or one the store does not
  hold. The assembly never panics of itself.
\<close>

theorem wrap_tenant_isolation:
  assumes "memcache_ok st" and "singleflight_solo Do" and "server_manager Do domain = Inr m"
  shows "\<exists>st'. memcache_ok st' \<and>
    ((\<exists>i t r'. SubdomainResolver_Resolve (NewSubdomainResolver domain) r = Inr i \<and>
        FromContext (Some (req_Context r')) = Some t \<and> tID (deref (heap (src st')) t) = i \<and>
        Host r' = Host r \<and> Path r' = Path r \<and> Method r' = Method r \<and> Wrap m nxt r st = nxt r' st') \<or>
     (\<forall>i. SubdomainResolver_Resolve (NewSubdomainResolver domain) r = Inr i \<longrightarrow> ms_view (src st) i = None) \<and>
     Wrap m nxt r st = (Inr (http_Error ''tenant not found'' 404), st'))"
  using assms
proof (cases rule: wrap_cases [where r = r])
  case (pass i t st')
  then show ?thesis
    by (intro exI [of _ st'] conjI disjI1 exI [of _ i] exI [of _ t] exI [of _ "tenant_request r t"]) simp_all
next
  case (refuse st')
  then show ?thesis by blast
qed

theorem wrap_tenant_isolation_witness:
  "\<exists>m. server_manager run_now ''localhost'' = Inr m \<and>
     (\<exists>st'. Wrap m (\<lambda>r s. (Inl (Panic (Host r)), s)) (demo_request ''acme.localhost'') demo_start =
       (Inl (Panic ''acme.localhost''), st'))"
proof -
  obtain m where m: "server_manager run_now ''localhost'' = Inr m" using server_manager_total by blast
  have inv: "memcache_ok demo_start"
    using demo_store_inv by (simp add: cached_inv_def demo_start_def NewCachedStore_def)
  have solo: "singleflight_solo (run_now :: mem_state Do)" by (simp add: singleflight_solo_def)
  have "ms_view (src demo_start) ''acme'' \<noteq> None"
    by (simp add: demo_start_def ms_view_def demo_store_def)
  with wrap_tenant_isolation [OF inv solo m, where r = "demo_request ''acme.localhost''" and
      nxt = "\<lambda>r s. (Inl (Panic (Host r)), s)"] demo_resolves
  have "\<exists>st'. Wrap m (\<lambda>r s. (Inl (Panic (Host r)), s)) (demo_request ''acme.localhost'') demo_start =
      (Inl (Panic ''acme.localhost''), st')"
    by (auto simp: demo_request_def)
  with m show ?thesis by blast
qed

end
