(* ===== verification/Rbac.thy ===== *)
theory Rbac
  imports Tenant
begin

text \<open>
  Role-based access control (\<^verbatim>\<open>src/rbac/rbac.go\<close>): per tenant and role a set of
  permissions. \<^verbatim>\<open>Can\<close> grants a permission exactly if the last definition of one of
  the tenant's roles, for that tenant, lists it.
\<close>

type_synonym Permission = string

record RBAC =
  definitions :: "TenantID \<rightharpoonup> (Role \<rightharpoonup> Permission set)"

definition RBAC_New :: RBAC where
  "RBAC_New = \<lparr>definitions = Map.empty\<rparr>"

text \<open>The loop that fills \<^verbatim>\<open>permSet\<close>.\<close>

fun permSet_loop :: "Permission list \<Rightarrow> Permission set \<Rightarrow> Permission set" where
  "permSet_loop [] ps = ps"
| "permSet_loop (p # permissions) ps = permSet_loop permissions (insert p ps)"

definition RBAC_DefineRole :: "RBAC \<Rightarrow> TenantID \<Rightarrow> Role \<Rightarrow> Permission list \<Rightarrow> RBAC" where
  "RBAC_DefineRole r tenantID role permissions =
     (let defs = (if definitions r tenantID = None then (definitions r)(tenantID \<mapsto> Map.empty)
                  else definitions r);
          permSet = permSet_loop permissions {}
      in r\<lparr>definitions := defs(tenantID \<mapsto> (the (defs tenantID))(role \<mapsto> permSet))\<rparr>)"

text \<open>The loop over the tenant's roles: the first that grants the permission ends it.\<close>

fun can_loop :: "(Role \<rightharpoonup> Permission set) \<Rightarrow> Role list \<Rightarrow> Permission \<Rightarrow> bool" where
  "can_loop tenantRoles [] permission = False"
| "can_loop tenantRoles (role # roles) permission =
     (case tenantRoles role of
        Some permSet \<Rightarrow> (if permission \<in> permSet then True else can_loop tenantRoles roles permission)
      | None \<Rightarrow> can_loop tenantRoles roles permission)"

definition RBAC_Can :: "RBAC \<Rightarrow> Tenant \<Rightarrow> Permission \<Rightarrow> bool" where
  "RBAC_Can r t permission =
     (case definitions r (tID t) of
        None \<Rightarrow> False
      | Some tenantRoles \<Rightarrow> can_loop tenantRoles (tRoles t) permission)"

lemma permSet_loop_set: "permSet_loop permissions ps = ps \<union> set permissions"
  by (induction permissions arbitrary: ps) auto

lemma can_loop_iff:
  "can_loop m roles p \<longleftrightarrow> (\<exists>role \<in> set roles. \<exists>ps. m role = Some ps \<and> p \<in> ps)"
  by (induction roles) (auto split: option.splits)

text \<open>The set of permissions a role has for a tenant, the empty set when undefined.\<close>

definition grants :: "RBAC \<Rightarrow> TenantID \<Rightarrow> Role \<Rightarrow> Permission set" where
  "grants r i role = (case definitions r i of None \<Rightarrow> {}
     | Some m \<Rightarrow> (case m role of None \<Rightarrow> {} | Some ps \<Rightarrow> ps))"

lemma grants_New [simp]: "grants RBAC_New i role = {}"
  by (simp add: grants_def RBAC_New_def)

lemma grants_DefineRole:
  "grants (RBAC_DefineRole r i role ps) j role' =
     (if j = i \<and> role' = role then set ps else grants r j role')"
  by (auto simp: grants_def RBAC_DefineRole_def permSet_loop_set Let_def split: option.splits)

lemma Can_iff_grants: "RBAC_Can r t p \<longleftrightarrow> (\<exists>role \<in> set (tRoles t). p \<in> grants r (tID t) role)"
  by (auto simp: RBAC_Can_def can_loop_iff grants_def split: option.splits)

text \<open>A history of \<^verbatim>\<open>DefineRole\<close> calls, and the permissions its last call for a role lists.\<close>

type_synonym role_def = "TenantID \<times> Role \<times> Permission list"

definition define_all :: "role_def list \<Rightarrow> RBAC \<Rightarrow> RBAC" where
  "define_all ds r = foldl (\<lambda>r (i, role, ps). RBAC_DefineRole r i role ps) r ds"

definition last_defined :: "role_def list \<Rightarrow> TenantID \<Rightarrow> Role \<Rightarrow> Permission list option" where
  "last_defined ds i role = map_of (map (\<lambda>(i, role, ps). ((i, role), ps)) (rev ds)) (i, role)"

lemma grants_define_all:
  "grants (define_all ds RBAC_New) i role =
     (case last_defined ds i role of None \<Rightarrow> {} | Some ps \<Rightarrow> set ps)"
proof (induction ds rule: rev_induct)
  case (snoc d ds)
  obtain j role' ps where d: "d = (j, role', ps)" by (cases d) auto
  with snoc show ?case
    by (auto simp: define_all_def last_defined_def grants_DefineRole)
qed (simp add: define_all_def last_defined_def)

text \<open>
  C17. After any history of \<^verbatim>\<open>DefineRole\<close> calls on a new \<^verbatim>\<open>RBAC\<close>, \<^verbatim>\<open>Can\<close> grants
  a permission exactly if the tenant holds a role whose last definition for that very
  tenant lists the permission. Nothing is granted that was not defined, a redefinition
  revokes what it does not list, and the definitions of other tenants are irrelevant.
\<close>

theorem rbac_can_iff_last_definition:
  "RBAC_Can (define_all ds RBAC_New) t p \<longleftrightarrow>
     (\<exists>role \<in> set (tRoles t). \<exists>ps. last_defined ds (tID t) role = Some ps \<and> p \<in> set ps)"
  by (auto simp: Can_iff_grants grants_define_all split: option.splits)

text \<open>
  A definition for one tenant changes no decision about a tenant with another identifier, nor
  about a tenant that does not hold the role, from any state.
\<close>

lemma rbac_define_isolated:
  assumes "tID t \<noteq> i \<or> role \<notin> set (tRoles t)"
  shows "RBAC_Can (RBAC_DefineRole r i role ps) t p = RBAC_Can r t p"
  using assms by (auto simp: Can_iff_grants grants_DefineRole)

end
