(* ===== verification/Server_Config.thy ===== *)
theory Server_Config
  imports Go_Lib
begin

text \<open>
  The configuration of the reference server (\<^verbatim>\<open>src/cmd/server/config.go\<close>) and the port of the
  health check tool (\<^verbatim>\<open>src/cmd/healthcheck/main.go\<close>). The environment is a partial map; an
  absent variable is \<^term>\<open>None\<close>, an empty one is not.
\<close>

type_synonym Env = "string \<rightharpoonup> string"

definition defaultPort :: int where "defaultPort = 8080"
definition defaultTenantBaseDomain :: string where "defaultTenantBaseDomain = ''localhost''"
definition defaultCacheTTLSeconds :: int where "defaultCacheTTLSeconds = 10"
definition defaultLogFormat :: string where "defaultLogFormat = ''text''"

record serverConfig =
  cfg_port :: int
  cfg_tenantBaseDomain :: string
  cfg_cacheTTL :: Duration
  cfg_logFormat :: string

definition parsePort :: "Env \<Rightarrow> int result" where
  "parsePort env =
     (case env ''PORT'' of
        None \<Rightarrow> Inr defaultPort
      | Some raw \<Rightarrow>
          (let invalid = Errorf ''invalid PORT: %q (must be an integer between 1 and 65535)'' [raw] in
           case strconv_Atoi raw of
             Inl err \<Rightarrow> Inl invalid
           | Inr port \<Rightarrow> (if port < 1 \<or> port > 65535 then Inl invalid else Inr port)))"

definition parseTenantBaseDomain :: "Env \<Rightarrow> string result" where
  "parseTenantBaseDomain env =
     (case env ''TENANT_BASE_DOMAIN'' of
        None \<Rightarrow> Inr defaultTenantBaseDomain
      | Some raw \<Rightarrow>
          (if raw = '''' then Inl (Errorf ''invalid TENANT_BASE_DOMAIN: must not be empty'' [])
           else Inr raw))"

definition parseCacheTTLSeconds :: "Env \<Rightarrow> int result" where
  "parseCacheTTLSeconds env =
     (case env ''CACHE_TTL_SECONDS'' of
        None \<Rightarrow> Inr defaultCacheTTLSeconds
      | Some raw \<Rightarrow>
          (let invalid = Errorf ''invalid CACHE_TTL_SECONDS: %q (must be a positive integer)'' [raw] in
           case strconv_Atoi raw of
             Inl err \<Rightarrow> Inl invalid
           | Inr seconds \<Rightarrow> (if seconds \<le> 0 then Inl invalid else Inr seconds)))"

definition parseLogFormat :: "Env \<Rightarrow> string result" where
  "parseLogFormat env =
     (case env ''LOG_FORMAT'' of
        None \<Rightarrow> Inr defaultLogFormat
      | Some raw \<Rightarrow>
          (if raw \<noteq> ''text'' \<and> raw \<noteq> ''json''
           then Inl (Errorf (''invalid LOG_FORMAT: %q (must be '' @ [CHR 0x22] @ ''text'' @ [CHR 0x22] @ '' or '' @
             [CHR 0x22] @ ''json'' @ [CHR 0x22] @ '')'') [raw])
           else Inr raw))"

definition loadServerConfig :: "Env \<Rightarrow> serverConfig result" where
  "loadServerConfig env =
     (case parsePort env of Inl err \<Rightarrow> Inl err | Inr port \<Rightarrow>
      (case parseTenantBaseDomain env of Inl err \<Rightarrow> Inl err | Inr domain \<Rightarrow>
       (case parseCacheTTLSeconds env of Inl err \<Rightarrow> Inl err | Inr ttlSeconds \<Rightarrow>
        (case parseLogFormat env of Inl err \<Rightarrow> Inl err | Inr logFormat \<Rightarrow>
           Inr \<lparr>cfg_port = port, cfg_tenantBaseDomain = domain,
             cfg_cacheTTL = word_of_int ttlSeconds * Second, cfg_logFormat = logFormat\<rparr>))))"

lemmas config_defs = parsePort_def parseTenantBaseDomain_def parseCacheTTLSeconds_def parseLogFormat_def
  defaultPort_def defaultTenantBaseDomain_def defaultCacheTTLSeconds_def defaultLogFormat_def Let_def

section \<open>What is accepted\<close>

text \<open>A variable is acceptable when it is absent or its value passes a test.\<close>

definition absent_or :: "Env \<Rightarrow> string \<Rightarrow> (string \<Rightarrow> bool) \<Rightarrow> bool" where
  "absent_or env v P \<longleftrightarrow> (case env v of None \<Rightarrow> True | Some raw \<Rightarrow> P raw)"

definition int_in :: "int \<Rightarrow> int \<Rightarrow> string \<Rightarrow> bool" where
  "int_in lo hi raw \<longleftrightarrow> (\<exists>n. strconv_Atoi raw = Inr n \<and> lo \<le> n \<and> n \<le> hi)"

lemma Atoi_range: "strconv_Atoi raw = Inr n \<Longrightarrow> - (2 ^ 63) \<le> n \<and> n < 2 ^ 63"
  by (auto simp: strconv_Atoi_def Let_def split: prod.splits if_splits)

lemma parsePort_ok:
  "(\<exists>p. parsePort env = Inr p) \<longleftrightarrow> absent_or env ''PORT'' (int_in 1 65535)"
  by (auto simp: config_defs absent_or_def int_in_def split: option.split sum.split)

lemma parseTTL_ok:
  "(\<exists>p. parseCacheTTLSeconds env = Inr p) \<longleftrightarrow> absent_or env ''CACHE_TTL_SECONDS'' (int_in 1 (2 ^ 63 - 1))"
proof (cases "env ''CACHE_TTL_SECONDS''")
  case (Some raw)
  show ?thesis
  proof (cases "strconv_Atoi raw")
    case (Inr n)
    with Atoi_range [OF Inr] Some show ?thesis by (auto simp: config_defs absent_or_def int_in_def)
  qed (simp add: config_defs absent_or_def int_in_def Some)
qed (simp add: config_defs absent_or_def)

lemma parseDomain_ok:
  "(\<exists>p. parseTenantBaseDomain env = Inr p) \<longleftrightarrow> absent_or env ''TENANT_BASE_DOMAIN'' (\<lambda>raw. raw \<noteq> '''')"
  by (auto simp: config_defs absent_or_def split: option.split)

lemma parseLogFormat_ok:
  "(\<exists>p. parseLogFormat env = Inr p) \<longleftrightarrow> absent_or env ''LOG_FORMAT'' (\<lambda>raw. raw \<in> {''text'', ''json''})"
  by (auto simp: config_defs absent_or_def split: option.split)

lemma loadServerConfig_ok:
  "(\<exists>cfg. loadServerConfig env = Inr cfg) \<longleftrightarrow> (\<exists>p. parsePort env = Inr p) \<and>
     (\<exists>d. parseTenantBaseDomain env = Inr d) \<and> (\<exists>t. parseCacheTTLSeconds env = Inr t) \<and>
     (\<exists>l. parseLogFormat env = Inr l)"
  by (auto simp: loadServerConfig_def split: sum.split)

text \<open>What a variable is set to: the default when it is absent, its parsed value otherwise.\<close>

definition setting :: "Env \<Rightarrow> string \<Rightarrow> (string \<Rightarrow> 'a) \<Rightarrow> 'a \<Rightarrow> 'a" where
  "setting env v parse dflt = (case env v of None \<Rightarrow> dflt | Some raw \<Rightarrow> parse raw)"

lemma parse_settings:
  "parsePort env = Inr p \<Longrightarrow> p = setting env ''PORT'' (projr \<circ> strconv_Atoi) 8080 \<and> p \<in> {1..65535}"
  "parseTenantBaseDomain env = Inr d \<Longrightarrow> d = setting env ''TENANT_BASE_DOMAIN'' id ''localhost'' \<and> d \<noteq> ''''"
  "parseCacheTTLSeconds env = Inr t \<Longrightarrow> t = setting env ''CACHE_TTL_SECONDS'' (projr \<circ> strconv_Atoi) 10"
  "parseLogFormat env = Inr l \<Longrightarrow> l = setting env ''LOG_FORMAT'' id ''text'' \<and> l \<in> {''text'', ''json''}"
  by (auto simp: config_defs setting_def split: option.splits sum.splits if_splits)

lemma parsePort_again: "p \<in> {1..65535} \<Longrightarrow> parsePort (env(''PORT'' \<mapsto> itoa p)) = Inr p"
  by (simp add: config_defs strconv_Atoi_itoa)

text \<open>
  C34. The configuration is loaded exactly if each variable is absent or valid: an integer from 1
  to 65535 for \<^verbatim>\<open>PORT\<close>, a non-empty \<^verbatim>\<open>TENANT_BASE_DOMAIN\<close>, a positive 64-bit integer for
  \<^verbatim>\<open>CACHE_TTL_SECONDS\<close>, \<^verbatim>\<open>text\<close> or \<^verbatim>\<open>json\<close> for \<^verbatim>\<open>LOG_FORMAT\<close>; an empty variable is never taken
  for an absent one. Each field of what is loaded is the value of its variable, or 8080,
  \<^verbatim>\<open>localhost\<close>, 10 seconds and \<^verbatim>\<open>text\<close> for an absent one, the TTL as that number of seconds in
  64-bit nanoseconds (which wrap around for large values). Port, domain and format are then
  within their bounds, and every port is reachable by its decimal numeral.
\<close>

theorem config_accepts_exactly_valid:
  "((\<exists>cfg. loadServerConfig env = Inr cfg) \<longleftrightarrow>
     absent_or env ''PORT'' (int_in 1 65535) \<and>
     absent_or env ''TENANT_BASE_DOMAIN'' (\<lambda>raw. raw \<noteq> '''') \<and>
     absent_or env ''CACHE_TTL_SECONDS'' (int_in 1 (2 ^ 63 - 1)) \<and>
     absent_or env ''LOG_FORMAT'' (\<lambda>raw. raw \<in> {''text'', ''json''})) \<and>
   (case loadServerConfig env of Inl err \<Rightarrow> True
    | Inr cfg \<Rightarrow>
        cfg_port cfg = setting env ''PORT'' (projr \<circ> strconv_Atoi) 8080 \<and>
        cfg_tenantBaseDomain cfg = setting env ''TENANT_BASE_DOMAIN'' id ''localhost'' \<and>
        cfg_cacheTTL cfg = word_of_int (setting env ''CACHE_TTL_SECONDS'' (projr \<circ> strconv_Atoi) 10 * 10 ^ 9) \<and>
        cfg_logFormat cfg = setting env ''LOG_FORMAT'' id ''text'' \<and>
        cfg_port cfg \<in> {1..65535} \<and> cfg_tenantBaseDomain cfg \<noteq> '''' \<and>
        cfg_logFormat cfg \<in> {''text'', ''json''} \<and>
        parsePort (env(''PORT'' \<mapsto> itoa (cfg_port cfg))) = Inr (cfg_port cfg))"
  (is "?accepted \<and> ?loaded")
proof
  show ?accepted
    unfolding loadServerConfig_ok parsePort_ok parseTTL_ok parseDomain_ok parseLogFormat_ok by blast
  show ?loaded
  proof (cases "loadServerConfig env")
    case (Inr cfg)
    then obtain t where ttl: "cfg_cacheTTL cfg = word_of_int t * Second" "parseCacheTTLSeconds env = Inr t"
      and rest: "parsePort env = Inr (cfg_port cfg)" "parseTenantBaseDomain env = Inr (cfg_tenantBaseDomain cfg)"
        "parseLogFormat env = Inr (cfg_logFormat cfg)"
      by (auto simp: loadServerConfig_def split: sum.splits)
    have "cfg_cacheTTL cfg = word_of_int (setting env ''CACHE_TTL_SECONDS'' (projr \<circ> strconv_Atoi) 10 * 10 ^ 9)"
      using ttl(1) parse_settings(3) [OF ttl(2)] by (simp add: Second_def)
    with Inr parse_settings(1,2,4) [of env] rest parsePort_again show ?thesis by auto
  qed simp
qed

section \<open>The TTL in nanoseconds\<close>

text \<open>The TTL that a value of \<^verbatim>\<open>CACHE_TTL_SECONDS\<close> gives, as a signed number of nanoseconds.\<close>

definition loaded_ttl :: "string \<Rightarrow> int result" where
  "loaded_ttl raw = map_sum id (sint \<circ> cfg_cacheTTL) (loadServerConfig [''CACHE_TTL_SECONDS'' \<mapsto> raw])"

lemma sint_64: "sint (word_of_int x :: 64 word) = (x + 2 ^ 63) mod 2 ^ 64 - 2 ^ 63"
  by (simp add: sint_sbintrunc' signed_take_bit_eq_take_bit_shift take_bit_eq_mod)

lemma loaded_ttl_wraps:
  assumes "0 < n" and "n < 2 ^ 63"
  shows "loaded_ttl (itoa n) = Inr ((n * 10 ^ 9 + 2 ^ 63) mod 2 ^ 64 - 2 ^ 63)"
proof -
  from assms have "strconv_Atoi (itoa n) = Inr n" by (intro strconv_Atoi_itoa) auto
  moreover have "sint (word_of_int n * Second) = (n * 10 ^ 9 + 2 ^ 63) mod 2 ^ 64 - 2 ^ 63"
    using sint_64 [of "n * 10 ^ 9"] by (simp add: Second_def)
  ultimately show ?thesis using assms(1) by (simp add: loaded_ttl_def loadServerConfig_def config_defs)
qed

text \<open>
  C39. The TTL wraps around. Every positive 64-bit number of seconds is accepted, and the TTL is
  that number of nanoseconds modulo 2^64, taken as a signed number: the number itself exactly
  up to 9223372036 seconds. Beyond, it may be negative, so that no cache entry is ever
  live (9300000000 seconds), or positive and unrelated to what was asked for (18446744074
  seconds give 290448384 nanoseconds).
\<close>

theorem config_ttl_exact_or_wraps:
  "(\<forall>n. 0 < n \<and> n < 2 ^ 63 \<longrightarrow>
      loaded_ttl (itoa n) = Inr ((n * 10 ^ 9 + 2 ^ 63) mod 2 ^ 64 - 2 ^ 63) \<and>
      (loaded_ttl (itoa n) = Inr (n * 10 ^ 9) \<longleftrightarrow> n \<le> 9223372036)) \<and>
   (\<exists>ttl < 0. loaded_ttl (itoa 9300000000) = Inr ttl) \<and>
   loaded_ttl (itoa 18446744074) = Inr 290448384"
proof (intro conjI allI impI)
  fix n :: int
  assume n: "0 < n \<and> n < 2 ^ 63"
  then show wrap: "loaded_ttl (itoa n) = Inr ((n * 10 ^ 9 + 2 ^ 63) mod 2 ^ 64 - 2 ^ 63)"
    by (intro loaded_ttl_wraps) auto
  show "loaded_ttl (itoa n) = Inr (n * 10 ^ 9) \<longleftrightarrow> n \<le> 9223372036"
  proof
    assume "n \<le> 9223372036"
    with n have "(n * 10 ^ 9 + 2 ^ 63) mod 2 ^ 64 = n * 10 ^ 9 + (2 :: int) ^ 63"
      by (intro mod_pos_pos_trivial) auto
    then show "loaded_ttl (itoa n) = Inr (n * 10 ^ 9)" unfolding wrap by simp
  next
    assume "loaded_ttl (itoa n) = Inr (n * 10 ^ 9)"
    then have "(n * 10 ^ 9 + 2 ^ 63) mod 2 ^ 64 = n * 10 ^ 9 + (2 :: int) ^ 63" unfolding wrap by simp
    moreover have "(n * 10 ^ 9 + 2 ^ 63) mod 2 ^ 64 < (2 :: int) ^ 64" by simp
    ultimately have "n * 10 ^ 9 + (2 :: int) ^ 63 < 2 ^ 64" by linarith
    then show "n \<le> 9223372036" by simp
  qed
next
  show "\<exists>ttl < 0. loaded_ttl (itoa 9300000000) = Inr ttl"
    by (simp add: loaded_ttl_wraps)
  show "loaded_ttl (itoa 18446744074) = Inr 290448384"
    by (simp add: loaded_ttl_wraps)
qed

theorem config_ttl_exact_or_wraps_witness: "loaded_ttl (itoa 30) = Inr 30000000000"
  using config_ttl_exact_or_wraps by (elim conjE allE [of _ 30]) simp

section \<open>The health check tool\<close>

definition healthcheck_port :: "Env \<Rightarrow> int" where
  "healthcheck_port env =
     (let raw = (case env ''PORT'' of None \<Rightarrow> '''' | Some v \<Rightarrow> v) in
      if raw \<noteq> '''' then (case strconv_Atoi raw of Inr parsed \<Rightarrow> parsed | Inl err \<Rightarrow> defaultPort)
      else defaultPort)"

text \<open>
  \<open>get\<close> is the request over the network (\<^verbatim>\<open>client.Get\<close>): the status code of the answer, or an
  error. The result is the exit code of the process.
\<close>

definition healthcheck_main :: "(string \<Rightarrow> int result) \<Rightarrow> Env \<Rightarrow> int" where
  "healthcheck_main get env =
     (let url = ''http://127.0.0.1:'' @ itoa (healthcheck_port env) @ ''/healthz'' in
      case get url of
        Inl err \<Rightarrow> 1
      | Inr status \<Rightarrow> (if status \<noteq> 200 then 1 else 0))"

text \<open>
  The tool probes the server. In every environment in which the server accepts its
  configuration, the health check reports success exactly if a request for \<^verbatim>\<open>/healthz\<close> at the
  port the server listens on is answered with 200.
\<close>

lemma healthcheck_probes_server_port:
  assumes "loadServerConfig env = Inr cfg"
  shows "healthcheck_main get env = 0 \<longleftrightarrow>
    get (''http://127.0.0.1:'' @ itoa (cfg_port cfg) @ ''/healthz'') = Inr 200"
proof -
  from assms have "parsePort env = Inr (cfg_port cfg)"
    by (auto simp: loadServerConfig_def split: sum.splits)
  moreover have "strconv_Atoi [] = Inl ErrSyntax" by (simp add: strconv_Atoi_def)
  ultimately have "healthcheck_port env = cfg_port cfg"
    by (auto simp: parsePort_def healthcheck_port_def Let_def split: option.splits sum.splits if_splits)
  then show ?thesis by (auto simp: healthcheck_main_def split: sum.split)
qed

end
