(* ===== verification/Server.thy ===== *)
theory Server
  imports Middleware Rbac Server_Config
begin

text \<open>
  The reference server (\<^verbatim>\<open>src/cmd/server/main.go\<close>, \<^verbatim>\<open>src/cmd/server/health.go\<close>): what \<^verbatim>\<open>main\<close>
  assembles from the configuration, the application's handlers, the probes, and the life of
  the process from start to shutdown as a step relation. Logging is left out.
\<close>

section \<open>Assembly\<close>

record server_state =
  sv_tenants :: "mem_state cached_state"
  sv_ready :: bool

text \<open>One \<^verbatim>\<open>Create\<close> of the start-up, whose error \<^verbatim>\<open>main\<close> ignores.\<close>

definition seed :: "Tenant \<Rightarrow> mem_state \<Rightarrow> mem_state" where
  "seed v s = (let (t, h) = new_tenant v (heap s) in snd (MemoryStore_Create Background t (s\<lparr>heap := h\<rparr>)))"

definition server_store :: "Heap \<Rightarrow> mem_state" where
  "server_store h =
     (let s = \<lparr>heap = h, mstore = NewMemoryStore\<rparr>;
          s = seed \<lparr>tID = ''acme'', tState = Active, tRoles = [''admin'']\<rparr> s
      in seed \<lparr>tID = ''globex'', tState = Active, tRoles = [''viewer'']\<rparr> s)"

definition server_tenants :: "serverConfig \<Rightarrow> Heap \<Rightarrow> Clock \<Rightarrow> mem_state cached_state" where
  "server_tenants cfg h c =
     \<lparr>src = server_store h, cstore = NewCachedStore MemoryStore_Store (cfg_cacheTTL cfg), clock = c\<rparr>"

definition server_authz :: RBAC where
  "server_authz =
     RBAC_DefineRole (RBAC_DefineRole RBAC_New ''acme'' ''admin'' [''users:read'', ''users:write''])
       ''globex'' ''viewer'' [''users:read'']"

text \<open>
  The handlers of the application. \<^verbatim>\<open>encoding/json\<close> writes the keys of a map in order, and a
  nil slice as null.
\<close>

definition json_roles :: "Heap \<Rightarrow> addr \<Rightarrow> json" where
  "json_roles h t =
     (case sRoles (structs h t) of None \<Rightarrow> JNull | Some a \<Rightarrow> JArray (map JString (arrays h a)))"

definition handle_me :: "mem_state cached_state Handler" where
  "handle_me r st =
     (case FromContext (Some (req_Context r)) of
        None \<Rightarrow> (Inr (http_Error ''no tenant in context'' StatusInternalServerError), st)
      | Some t \<Rightarrow>
          (let h = heap (src st) in
           (Inr (json_response StatusOK
              [(''roles'', json_roles h t), (''tenant_id'', JString (sID (structs h t))),
               (''tenant_state'', JString (sState (structs h t)))]), st)))"

definition handle_users :: "RBAC \<Rightarrow> mem_state cached_state Handler" where
  "handle_users authz r st =
     (case FromContext (Some (req_Context r)) of
        None \<Rightarrow> (Inr (http_Error ''no tenant in context'' StatusInternalServerError), st)
      | Some t \<Rightarrow>
          (if \<not> RBAC_Can authz (deref (heap (src st)) t) ''users:write''
           then (Inr (http_Error ''forbidden: users:write required'' StatusForbidden), st)
           else (Inr (json_response StatusOK [(''message'', JString ''user list would go here'')]), st)))"

definition get_route :: "string list \<Rightarrow> 's Handler \<Rightarrow> 's route" where
  "get_route p handler = \<lparr>rt_method = Some ''GET'', rt_segments = map Lit p, rt_subtree = False,
     rt_handler = handler\<rparr>"

definition app_mux :: "mem_state cached_state route list" where
  "app_mux = [get_route [''api'', ''me''] handle_me, get_route [''api'', ''users''] (handle_users server_authz)]"

definition healthzHandler :: "server_state Handler" where
  "healthzHandler r s = (Inr (json_response StatusOK [(''status'', JString ''ok'')]), s)"

definition readyzHandler :: "server_state Handler" where
  "readyzHandler r s =
     (if \<not> sv_ready s
      then (Inr (json_response StatusServiceUnavailable [(''status'', JString ''not ready'')]), s)
      else (Inr (json_response StatusOK [(''status'', JString ''ready'')]), s))"

definition on_tenants :: "mem_state cached_state Handler \<Rightarrow> server_state Handler" where
  "on_tenants handler r s =
     (let (x, st) = handler r (sv_tenants s) in (x, s\<lparr>sv_tenants := st\<rparr>))"

text \<open>The outer router; \<^verbatim>\<open>/\<close> matches every path and every method.\<close>

definition server_handler :: "mem_state cached_state Manager \<Rightarrow> server_state Handler" where
  "server_handler m = ServeMux_ServeHTTP
     [get_route [''healthz''] healthzHandler, get_route [''readyz''] readyzHandler,
      \<lparr>rt_method = None, rt_segments = [], rt_subtree = True,
        rt_handler = on_tenants (Wrap m (ServeMux_ServeHTTP app_mux))\<rparr>]"

section \<open>Life of the process\<close>

datatype phase = Starting | Running | Draining | Terminated int

text \<open>The \<^verbatim>\<open>switch\<close> after \<^verbatim>\<open>server.Shutdown\<close>: the exit code of \<^verbatim>\<open>main\<close>.\<close>

definition shutdown_exit :: "go_error option \<Rightarrow> bool \<Rightarrow> int" where
  "shutdown_exit err deadlineExceeded =
     (case err of None \<Rightarrow> 0 | Some e \<Rightarrow> (if deadlineExceeded then 0 else 1))"

inductive server_step :: "mem_state cached_state Manager \<Rightarrow> phase \<times> server_state \<Rightarrow> phase \<times> server_state \<Rightarrow> bool"
  for m :: "mem_state cached_state Manager" where
  mark_ready: "server_step m (Starting, s) (Running, s\<lparr>sv_ready := True\<rparr>)"
| signal: "server_step m (Running, s) (Draining, s\<lparr>sv_ready := False\<rparr>)"
| shutdown: "server_step m (Draining, s) (Terminated (shutdown_exit err late), s)"
| listen_error: "ph \<in> {Starting, Running, Draining} \<Longrightarrow> server_step m (ph, s) (Terminated 1, s)"
| request: "ph \<in> {Starting, Running, Draining} \<Longrightarrow> server_handler m r s = (x, s') \<Longrightarrow> server_step m (ph, s) (ph, s')"
| tenants_change: "server_step m (ph, s) (ph, s\<lparr>sv_tenants := st\<rparr>)"

definition server_start :: "serverConfig \<Rightarrow> Heap \<Rightarrow> Clock \<Rightarrow> phase \<times> server_state" where
  "server_start cfg h c = (Starting, \<lparr>sv_tenants = server_tenants cfg h c, sv_ready = False\<rparr>)"

text \<open>
  \<^verbatim>\<open>main\<close> up to the start of the listening goroutine: an invalid configuration ends the process
  with status 1, before anything else is made; otherwise the logger is chosen and the server
  is assembled. The address is that of every interface at the configured port.
\<close>

datatype slog_handler = JSONHandler | TextHandler

definition choose_handler :: "serverConfig \<Rightarrow> slog_handler" where
  "choose_handler cfg = (if cfg_logFormat cfg = ''json'' then JSONHandler else TextHandler)"

record http_Server =
  srv_Addr :: string
  srv_Handler :: "server_state Handler"

record running =
  run_log :: slog_handler
  run_server :: http_Server
  run_state :: "phase \<times> server_state"

definition server_main :: "mem_state Do \<Rightarrow> Env \<Rightarrow> Heap \<Rightarrow> Clock \<Rightarrow> panic + (int + running)" where
  "server_main Do env h c =
     (case loadServerConfig env of
        Inl err \<Rightarrow> Inr (Inl 1)
      | Inr cfg \<Rightarrow>
          (case server_manager Do (cfg_tenantBaseDomain cfg) of
             Inl p \<Rightarrow> Inl p
           | Inr m \<Rightarrow> Inr (Inr \<lparr>run_log = choose_handler cfg,
               run_server = \<lparr>srv_Addr = '':'' @ itoa (cfg_port cfg), srv_Handler = server_handler m\<rparr>,
               run_state = server_start cfg h c\<rparr>)))"

lemmas route_simps = ServeMux_ServeHTTP_def get_route_def method_matches_def

lemma ServeMux_keeps_ready:
  assumes "\<And>rt r s. rt \<in> set rts \<Longrightarrow> sv_ready (snd (rt_handler rt r s)) = sv_ready s"
  shows "sv_ready (snd (ServeMux_routes rts seen r s)) = sv_ready s"
  using assms by (induction rts seen r s rule: ServeMux_routes.induct) (auto split: option.split)

lemma server_handler_keeps_ready: "sv_ready (snd (server_handler m r s)) = sv_ready s"
  unfolding server_handler_def ServeMux_ServeHTTP_def
  by (rule ServeMux_keeps_ready)
    (auto simp: get_route_def healthzHandler_def readyzHandler_def on_tenants_def split_def Let_def split: if_splits)

lemma server_handler_ready: "server_handler m r s = (x, s') \<Longrightarrow> sv_ready s' = sv_ready s"
  using server_handler_keeps_ready [of m r s] by simp

lemma server_ready_iff_running:
  assumes "(server_step m)\<^sup>*\<^sup>* (server_start cfg h c) (ph, s)" and "\<forall>code. ph \<noteq> Terminated code"
  shows "sv_ready s \<longleftrightarrow> ph = Running"
proof -
  have "case ps of (ph, s) \<Rightarrow> (\<forall>code. ph \<noteq> Terminated code) \<longrightarrow> (sv_ready s \<longleftrightarrow> ph = Running)"
    if "(server_step m)\<^sup>*\<^sup>* (server_start cfg h c) ps" for ps
    using that
  proof (induction rule: rtranclp_induct)
    case (step x y)
    from step(2,3) show ?case
      by (cases rule: server_step.cases) (auto dest: server_handler_ready)
  qed (simp add: server_start_def)
  from this [OF assms(1)] assms(2) show ?thesis by simp
qed

text \<open>
  C33. The probes. In every state the process can reach before it terminates, whatever requests
  it has served and however its tenants have changed, \<^verbatim>\<open>GET /healthz\<close> is answered with 200 and
  \<^verbatim>\<open>GET /readyz\<close> with 200 exactly between the end of the start-up and the shutdown signal, and
  with 503 otherwise. Neither depends on the request's host, asks for a tenant, or changes
  anything.
\<close>

theorem server_probes:
  assumes "(server_step m)\<^sup>*\<^sup>* (server_start cfg h c) (ph, s)" and "\<forall>code. ph \<noteq> Terminated code"
    and "Method r = ''GET''"
  shows "(Path r = [''healthz''] \<longrightarrow> (\<exists>resp. server_handler m r s = (Inr resp, s) \<and> Status resp = 200)) \<and>
    (Path r = [''readyz''] \<longrightarrow>
      (\<exists>resp. server_handler m r s = (Inr resp, s) \<and> Status resp = (if ph = Running then 200 else 503)))"
  using server_ready_iff_running [OF assms(1,2)] assms(3)
  by (auto simp: server_handler_def route_simps healthzHandler_def readyzHandler_def json_response_def status_defs)

section \<open>The application behind the router\<close>

lemma server_handler_app:
  assumes "Path r = [''api'', v]"
  shows "server_handler m r s = on_tenants (Wrap m (ServeMux_ServeHTTP app_mux)) (r\<lparr>pathValues := []\<rparr>) s"
  using assms by (simp add: server_handler_def route_simps)

lemma resolve_pathValues [simp]:
  "SubdomainResolver_Resolve sr (r\<lparr>pathValues := vs\<rparr>) = SubdomainResolver_Resolve sr r"
  by (simp add: SubdomainResolver_Resolve_def)

text \<open>What a \<^verbatim>\<open>GET\<close> of one of the two application paths does, given its handler.\<close>

lemma app_request_cases:
  assumes "memcache_ok (sv_tenants s)" and "singleflight_solo Do" and "server_manager Do domain = Inr m"
    and "Method r = ''GET''" and "(Path r, handler) \<in> {([''api'', ''me''], handle_me), ([''api'', ''users''], handle_users server_authz)}"
  obtains (pass) i t r' st' where "SubdomainResolver_Resolve (NewSubdomainResolver domain) r = Inr i"
      and "memcache_ok st'" and "tID (deref (heap (src st')) t) = i" and "FromContext (Some (req_Context r')) = Some t"
      and "CachedStore_Get run_now (req_Context r) i (sv_tenants s) = (Inr t, st')"
      and "server_handler m r s = (fst (handler r' st'), s\<lparr>sv_tenants := snd (handler r' st')\<rparr>)"
  | (refuse) st' where "memcache_ok st'"
      and "\<And>i. SubdomainResolver_Resolve (NewSubdomainResolver domain) r = Inr i \<Longrightarrow> ms_view (src (sv_tenants s)) i = None"
      and "server_handler m r s = (Inr (http_Error ''tenant not found'' 404), s\<lparr>sv_tenants := st'\<rparr>)"
proof -
  let ?r = "r\<lparr>pathValues := []\<rparr>" and ?app = "ServeMux_ServeHTTP app_mux"
  from assms(5) obtain v where v: "Path r = [''api'', v]" by auto
  note serve = server_handler_app [OF v, of m s]
  have route: "?app r1 st = handler (r1\<lparr>pathValues := []\<rparr>) st"
    if "Path r1 = Path r" and "Method r1 = Method r" for r1 st
    using that assms(4,5) by (auto simp: app_mux_def route_simps)
  from assms(1-3) show thesis
  proof (cases rule: wrap_cases [where r = ?r])
    case (pass i t st')
    show thesis
      by (rule that(1) [of i st' t "tenant_request ?r t\<lparr>pathValues := []\<rparr>"])
        (use pass serve in \<open>simp_all add: on_tenants_def split_def route Let_def\<close>)
  next
    case (refuse st')
    then show thesis using serve by (intro that(2) [of st']) (simp_all add: on_tenants_def)
  qed
qed

text \<open>
  What \<^verbatim>\<open>GET /api/me\<close> discloses. In every state of the cache and the store, a request is
  answered either with 200 and the identity of the tenant that its own host names, never of
  another tenant, or, when the host names none or one the store does not hold, with 404.
  The handler's own guard against a missing tenant is never reached.
\<close>

lemma server_me_isolated:
  assumes "memcache_ok (sv_tenants s)" and "singleflight_solo Do" and "server_manager Do domain = Inr m"
    and "Method r = ''GET''" and "Path r = [''api'', ''me'']"
  shows "\<exists>x s'. server_handler m r s = (Inr x, s') \<and> memcache_ok (sv_tenants s') \<and> sv_ready s' = sv_ready s \<and>
    ((\<exists>i roles st. SubdomainResolver_Resolve (NewSubdomainResolver domain) r = Inr i \<and>
        x = json_response 200 [(''roles'', roles), (''tenant_id'', JString i), (''tenant_state'', st)]) \<or>
     (\<forall>i. SubdomainResolver_Resolve (NewSubdomainResolver domain) r = Inr i \<longrightarrow>
        ms_view (src (sv_tenants s)) i = None) \<and> x = http_Error ''tenant not found'' 404)"
proof -
  have path: "(Path r, handle_me) \<in> {([''api'', ''me''], handle_me), ([''api'', ''users''], handle_users server_authz)}"
    using assms(5) by simp
  from assms(1-4) path show ?thesis
  proof (cases rule: app_request_cases)
    case (pass i t r' st')
    then show ?thesis by (auto simp: handle_me_def Let_def status_defs deref_def)
  next
    case (refuse st')
    then show ?thesis by simp
  qed
qed

text \<open>
  Who may use \<^verbatim>\<open>GET /api/users\<close>. With the roles the server defines, a request is answered
  with 200 only if its host names the tenant \<^verbatim>\<open>acme\<close>, in whatever state the cache and the store
  are and whatever roles their tenants hold; every other answer is 403 or 404.
\<close>

lemma server_users_only_acme:
  assumes "memcache_ok (sv_tenants s)" and "singleflight_solo Do" and "server_manager Do domain = Inr m"
    and "Method r = ''GET''" and "Path r = [''api'', ''users'']"
  shows "\<exists>x s'. server_handler m r s = (Inr x, s') \<and> memcache_ok (sv_tenants s') \<and>
    Status x \<in> {200, 403, 404} \<and>
    (Status x = 200 \<longrightarrow> SubdomainResolver_Resolve (NewSubdomainResolver domain) r = Inr ''acme'')"
proof -
  have path: "(Path r, handle_users server_authz) \<in> {([''api'', ''me''], handle_me), ([''api'', ''users''], handle_users server_authz)}"
    using assms(5) by simp
  have only: "tID t = ''acme''" if "RBAC_Can server_authz t ''users:write''" for t
    using that by (auto simp: server_authz_def Can_iff_grants grants_DefineRole split: if_splits)
  from assms(1-4) path show ?thesis
  proof (cases rule: app_request_cases)
    case (pass i t r' st')
    then show ?thesis
      using only [of "deref (heap (src st')) t"]
      by (auto simp: handle_users_def status_defs json_response_def http_Error_def)
  next
    case (refuse st')
    then show ?thesis by (simp add: http_Error_def)
  qed
qed

section \<open>The server just started\<close>

lemma seed_ok:
  assumes "ms_inv s" and "tID v \<notin> dom (ms_view s)"
  shows "ms_inv (seed v s)" and "ms_view (seed v s) = (ms_view s)(tID v \<mapsto> v)"
proof -
  obtain t h where new: "new_tenant v (heap s) = (t, h)" by fastforce
  note fr = new_tenant_frame [OF assms(1) new]
  obtain u s' where run: "AdminStore_Create MemoryStore_AdminStore Background t (s\<lparr>heap := h\<rparr>) = (u, s')" by fastforce
  then have "seed v s = s'" by (simp add: seed_def new MemoryStore_AdminStore_def)
  with mem.create_view [OF fr(1) _ run] fr(2,4,5,6) assms(2)
  show "ms_inv (seed v s)" and "ms_view (seed v s) = (ms_view s)(tID v \<mapsto> v)" by (simp_all del: dom_ms_view)
qed

lemma server_store_ok:
  "ms_inv (server_store h)"
  "ms_view (server_store h) = [''acme'' \<mapsto> \<lparr>tID = ''acme'', tState = Active, tRoles = [''admin'']\<rparr>,
     ''globex'' \<mapsto> \<lparr>tID = ''globex'', tState = Active, tRoles = [''viewer'']\<rparr>]"
proof -
  let ?s0 = "\<lparr>heap = h, mstore = NewMemoryStore\<rparr>"
  let ?acme = "\<lparr>tID = ''acme'', tState = Active, tRoles = [''admin'']\<rparr>"
  let ?globex = "\<lparr>tID = ''globex'', tState = Active, tRoles = [''viewer'']\<rparr>"
  have one: "ms_inv (seed ?acme ?s0)" "ms_view (seed ?acme ?s0) = [''acme'' \<mapsto> ?acme]"
    using seed_ok [OF ms_inv_empty, of ?acme h] by (simp_all add: ms_view_empty del: dom_ms_view)
  have "tID ?globex \<notin> dom (ms_view (seed ?acme ?s0))" unfolding one(2) by simp
  from seed_ok [OF one(1) this] one(2)
  show "ms_inv (server_store h)"
    "ms_view (server_store h) = [''acme'' \<mapsto> ?acme, ''globex'' \<mapsto> ?globex]"
    by (simp_all add: server_store_def Let_def)
qed

lemma server_tenants_ok: "memcache_ok (server_tenants cfg h c)"
  by (simp add: cached_inv_def server_tenants_def NewCachedStore_def server_store_ok)

text \<open>The first lookup fills the cache with what the store holds.\<close>

lemma first_lookup:
  assumes "CachedStore_Get run_now ctx i (server_tenants cfg h c) = (Inr t, st')"
  shows "ms_view (server_store h) i = Some (deref (heap (src st')) t)"
proof -
  from assms have "CachedStore_fill ctx i (server_tenants cfg h c) = (Inr t, st')"
    by (simp add: CachedStore_Get_def server_tenants_def NewCachedStore_def)
  from CachedStore_fill_eqs(1) [OF this] have "Store_Get MemoryStore_Store ctx i (server_store h) = (Inr t, src st')"
    by (simp add: server_tenants_def NewCachedStore_def)
  from mem.get_view_state [OF server_store_ok(1) this] show ?thesis by simp
qed

definition server_request :: "string \<Rightarrow> string \<Rightarrow> Request" where
  "server_request host v = \<lparr>Method = ''GET'', Host = host, Path = [''api'', v], req_Context = Background, pathValues = []\<rparr>"

text \<open>The two requests the server suggests in its log when it has started.\<close>

lemma server_examples:
  assumes "CHR '':'' \<notin> set domain" and "server_manager run_now domain = Inr m"
    and "sv_tenants s = server_tenants cfg h c"
  shows "\<exists>x s'. server_handler m (server_request (''acme.'' @ domain) ''users'') s = (Inr x, s') \<and> Status x = 200"
    and "\<exists>x s'. server_handler m (server_request (''globex.'' @ domain) ''users'') s = (Inr x, s') \<and> Status x = 403"
proof -
  have ok: "memcache_ok (sv_tenants s)" using server_tenants_ok assms(3) by simp
  have solo: "singleflight_solo (run_now :: mem_state Do)" by (simp add: singleflight_solo_def)
  have answer: "\<exists>x s'. server_handler m (server_request (i @ ''.'' @ domain) ''users'') s = (Inr x, s') \<and>
      Status x = (if RBAC_Can server_authz t ''users:write'' then 200 else 403)"
    if i: "ms_view (server_store h) i = Some t" "i \<in> {''acme'', ''globex''}" for i t
  proof -
    let ?r = "server_request (i @ ''.'' @ domain) ''users''"
    have res: "SubdomainResolver_Resolve (NewSubdomainResolver domain) ?r = Inr i"
      using i(2) assms(1) host_name_with_port(2) [of "i @ ''.'' @ domain"]
      by (auto simp: Resolve_Inr_iff NewSubdomainResolver_def server_request_def)
    have get: "Method ?r = ''GET''" and path: "(Path ?r, handle_users server_authz) \<in>
        {([''api'', ''me''], handle_me), ([''api'', ''users''], handle_users server_authz)}"
      by (simp_all add: server_request_def)
    from ok solo assms(2) get path show ?thesis
    proof (cases rule: app_request_cases)
      case (pass j p r' st')
      with res have j: "j = i" by simp
      with first_lookup pass(5) assms(3) i(1) have "deref (heap (src st')) p = t" by fastforce
      with pass(4,6) show ?thesis by (auto simp: handle_users_def status_defs json_response_def http_Error_def)
    next
      case (refuse st')
      with res i(1) assms(3) show ?thesis by (simp add: server_tenants_def)
    qed
  qed
  show "\<exists>x s'. server_handler m (server_request (''acme.'' @ domain) ''users'') s = (Inr x, s') \<and> Status x = 200"
    using answer [of "''acme''"]
    by (simp add: server_store_ok server_authz_def Can_iff_grants grants_DefineRole)
  show "\<exists>x s'. server_handler m (server_request (''globex.'' @ domain) ''users'') s = (Inr x, s') \<and> Status x = 403"
    using answer [of "''globex''"]
    by (simp add: server_store_ok server_authz_def Can_iff_grants grants_DefineRole)
qed

definition demo_cfg :: serverConfig where
  "demo_cfg = \<lparr>cfg_port = 8080, cfg_tenantBaseDomain = ''localhost'', cfg_cacheTTL = 10 * Second, cfg_logFormat = ''text''\<rparr>"

definition demo_server :: server_state where
  "demo_server = \<lparr>sv_tenants = server_tenants demo_cfg demo_heap (\<lambda>n. Time (int n)), sv_ready = False\<rparr>"

lemma demo_server_start: "server_start demo_cfg demo_heap (\<lambda>n. Time (int n)) = (Starting, demo_server)"
  by (simp add: server_start_def demo_server_def)

lemma demo_server_ok: "memcache_ok (sv_tenants demo_server)"
  by (simp add: demo_server_def server_tenants_ok)

lemma demo_solo: "singleflight_solo (run_now :: mem_state Do)"
  by (simp add: singleflight_solo_def)

lemma server_request_resolves:
  "SubdomainResolver_Resolve (NewSubdomainResolver ''localhost'') (server_request ''acme.localhost'' v) = Inr ''acme''"
  "SubdomainResolver_Resolve (NewSubdomainResolver ''localhost'') (server_request ''globex.localhost'' v) = Inr ''globex''"
  by (simp_all add: Resolve_Inr_iff NewSubdomainResolver_def host_name_def server_request_def)

theorem server_probes_witness:
  "\<exists>m resp. server_manager run_now ''localhost'' = Inr m \<and>
     server_handler m \<lparr>Method = ''GET'', Host = ''10.0.0.1'', Path = [''readyz''], req_Context = Background, pathValues = []\<rparr>
       (demo_server\<lparr>sv_ready := True\<rparr>) = (Inr resp, demo_server\<lparr>sv_ready := True\<rparr>) \<and> Status resp = 200"
proof -
  obtain m where m: "server_manager run_now ''localhost'' = Inr m" using server_manager_total by blast
  have run: "(server_step m)\<^sup>*\<^sup>* (server_start demo_cfg demo_heap (\<lambda>n. Time (int n))) (Running, demo_server\<lparr>sv_ready := True\<rparr>)"
    unfolding demo_server_start by (rule r_into_rtranclp) (rule server_step.mark_ready)
  from server_probes [OF run, of "\<lparr>Method = ''GET'', Host = ''10.0.0.1'', Path = [''readyz''], req_Context = Background, pathValues = []\<rparr>"] m
  show ?thesis by simp
qed

section \<open>Every request\<close>

text \<open>The handlers behind the middleware always find a tenant and leave the state alone.\<close>

lemma app_mux_answers:
  assumes "FromContext (Some (req_Context r)) = Some t"
  shows "\<exists>x. ServeMux_ServeHTTP app_mux r st = (Inr x, st) \<and> Status x \<in> {200, 403, 404, 405}"
  using assms
  by (auto simp: app_mux_def route_simps handle_me_def handle_users_def status_defs json_response_def http_Error_def
      Let_def split: option.splits)

lemma server_handler_answers:
  assumes "memcache_ok (sv_tenants s)" and "singleflight_solo Do" and "server_manager Do domain = Inr m"
  shows "\<exists>x s'. server_handler m r s = (Inr x, s') \<and> memcache_ok (sv_tenants s') \<and>
    Status x \<in> {200, 403, 404, 405, 503}"
proof -
  have tenants: "\<exists>x s'. on_tenants (Wrap m (ServeMux_ServeHTTP app_mux)) r' s = (Inr x, s') \<and>
      memcache_ok (sv_tenants s') \<and> Status x \<in> {200, 403, 404, 405, 503}" for r'
    using assms
  proof (cases rule: wrap_cases [where r = r'])
    case (pass i t st')
    have "FromContext (Some (req_Context (tenant_request r' t))) = Some t" by simp
    from app_mux_answers [OF this, of st'] pass show ?thesis by (auto simp: on_tenants_def)
  next
    case (refuse st')
    then show ?thesis by (simp add: on_tenants_def http_Error_def)
  qed
  show ?thesis using tenants assms(1)
    by (auto simp: server_handler_def route_simps healthzHandler_def readyzHandler_def json_response_def status_defs
        split: option.split)
qed

fun serve_all :: "'s Handler \<Rightarrow> Request list \<Rightarrow> 's \<Rightarrow> (panic + Response) list \<times> 's" where
  "serve_all handler [] s = ([], s)"
| "serve_all handler (r # rs) s =
     (let (x, s1) = handler r s; (xs, s2) = serve_all handler rs s1 in (x # xs, s2))"

lemma serve_all_invariant:
  assumes "\<And>r s. I s \<Longrightarrow> \<exists>x s'. handler r s = (Inr x, s') \<and> I s' \<and> Status x \<in> codes"
    and "I s" and "serve_all handler rs s = (xs, s')"
  shows "I s' \<and> length xs = length rs \<and> (\<forall>x \<in> set xs. \<exists>resp. x = Inr resp \<and> Status resp \<in> codes)"
  using assms(2,3)
proof (induction rs arbitrary: s xs)
  case (Cons r rs)
  from assms(1) [OF Cons.prems(1), of r] obtain x s1 where
    one: "handler r s = (Inr x, s1)" "I s1" "Status x \<in> codes" by blast
  obtain ys s2 where "serve_all handler rs s1 = (ys, s2)" by fastforce
  with Cons.IH [OF one(2)] Cons.prems(2) one show ?case by auto
qed simp

lemmas serve_all_answers =
  serve_all_invariant [where I = "\<lambda>s. memcache_ok (sv_tenants s)", OF server_handler_answers]

text \<open>
  A path that \<^verbatim>\<open>ServeMux\<close> hands to a handler as it is: no segment is a dot or two dots, and
  only the last one may be empty. Every other path is answered by the router with a
  redirect, which is outside the model.
\<close>

definition canonical_path :: "string list \<Rightarrow> bool" where
  "canonical_path segs \<longleftrightarrow> [] \<notin> set (butlast segs) \<and>
     (\<forall>seg \<in> set segs. seg \<notin> {''.'', ''..''} \<and> CHR ''/'' \<notin> set seg)"

text \<open>
  C11. The server from its start to its answers. Before it listens, \<^verbatim>\<open>main\<close> never panics: an
  invalid configuration ends it with status 1, and a valid one gives a server at the
  configured port with the configured log format. For every sequence of requests, of any
  method, host and canonical path, that this server handles one after the other: no
  handler panics, the invariant of store and cache holds after every one of them (each
  cached pointer refers to a live struct of the identifier it is stored under), and each
  request is answered with 200, 403, 404, 405 or 503; the handlers' own answer for an
  impossible state, 500, never occurs.
\<close>

theorem server_serves_every_request:
  assumes "singleflight_solo Do" and "\<forall>r \<in> set rs. canonical_path (Path r)"
  shows "case server_main Do env h c of
      Inl p \<Rightarrow> False
    | Inr (Inl code) \<Rightarrow> code = 1 \<and> (\<exists>err. loadServerConfig env = Inl err)
    | Inr (Inr run) \<Rightarrow> (\<exists>cfg. loadServerConfig env = Inr cfg \<and>
          srv_Addr (run_server run) = '':'' @ itoa (cfg_port cfg) \<and>
          (run_log run = JSONHandler \<longleftrightarrow> cfg_logFormat cfg = ''json'')) \<and>
        (case serve_all (srv_Handler (run_server run)) rs (snd (run_state run)) of (xs, s) \<Rightarrow>
           memcache_ok (sv_tenants s) \<and> length xs = length rs \<and>
           (\<forall>x \<in> set xs. \<exists>resp. x = Inr resp \<and> Status resp \<in> {200, 403, 404, 405, 503}))"
proof (cases "loadServerConfig env")
  case (Inl err)
  then show ?thesis by (simp add: server_main_def)
next
  case (Inr cfg)
  obtain m where m: "server_manager Do (cfg_tenantBaseDomain cfg) = Inr m" using server_manager_total by blast
  obtain xs s where run: "serve_all (server_handler m) rs (snd (server_start cfg h c)) = (xs, s)" by fastforce
  have "memcache_ok (sv_tenants (snd (server_start cfg h c)))"
    using server_tenants_ok by (simp add: server_start_def)
  from serve_all_answers [OF _ assms(1) m this run] Inr m run show ?thesis
    by (simp add: server_main_def choose_handler_def)
qed

theorem server_serves_every_request_witness:
  "case server_main run_now [''PORT'' \<mapsto> itoa 9090] demo_heap (\<lambda>n. Time (int n)) of
     Inr (Inr run) \<Rightarrow> srv_Addr (run_server run) = '':'' @ itoa 9090 \<and> run_log run = TextHandler \<and>
       (case serve_all (srv_Handler (run_server run))
          [server_request ''acme.localhost'' ''me'', server_request ''nobody.localhost'' ''users'']
          (snd (run_state run)) of (xs, s) \<Rightarrow> memcache_ok (sv_tenants s) \<and> length xs = 2)
   | _ \<Rightarrow> False"
proof -
  let ?env = "[''PORT'' \<mapsto> itoa 9090]" and ?c = "\<lambda>n. Time (int n)"
  let ?rs = "[server_request ''acme.localhost'' ''me'', server_request ''nobody.localhost'' ''users'']"
  have solo: "singleflight_solo (run_now :: mem_state Do)" by (simp add: singleflight_solo_def)
  have atoi: "strconv_Atoi (itoa 9090) = Inr 9090" by (simp add: strconv_Atoi_itoa)
  have cfg: "loadServerConfig ?env = Inr \<lparr>cfg_port = 9090, cfg_tenantBaseDomain = ''localhost'',
      cfg_cacheTTL = 10 * Second, cfg_logFormat = ''text''\<rparr>"
    by (simp add: loadServerConfig_def config_defs atoi)
  obtain run where main: "server_main run_now ?env demo_heap ?c = Inr (Inr run)"
    and run: "srv_Addr (run_server run) = '':'' @ itoa 9090" "run_log run = TextHandler"
    using server_manager_total [of run_now "''localhost''"] by (auto simp: server_main_def cfg choose_handler_def)
  obtain xs s where serve: "serve_all (srv_Handler (run_server run)) ?rs (snd (run_state run)) = (xs, s)" by fastforce
  have "\<forall>r \<in> set ?rs. canonical_path (Path r)" by (simp add: server_request_def canonical_path_def)
  from server_serves_every_request [OF solo this, where env = ?env and h = demo_heap and c = ?c]
  have "memcache_ok (sv_tenants s) \<and> length xs = length ?rs"
    unfolding main sum.case serve prod.case by blast
  then show ?thesis unfolding main sum.case serve prod.case using run by simp
qed

end
