(* ===== verification/Loadtest_Servers.thy ===== *)
theory Loadtest_Servers
  imports Server
begin

text \<open>
  The three servers of the load tests (\<^verbatim>\<open>src/loadtest/servers\<close>): a baseline without tenants, the
  tenant path without access control, and the same with it. They assemble the components as
  the reference server does, with tenants and handlers of their own. A \<^verbatim>\<open>main\<close> is modelled up to its
  calls of \<^verbatim>\<open>http.ListenAndServe\<close>, with what each does when it returns.
\<close>

section \<open>Listening\<close>

text \<open>
  A call of \<^verbatim>\<open>http.ListenAndServe\<close>: the address, the handler (none: the package's default mux), and
  whether \<^verbatim>\<open>main\<close> waits for it. If so, an error ends the process with status 1 (\<^verbatim>\<open>log.Fatal\<close>);
  if not, it is only logged.
\<close>

record 's listener =
  ls_Addr :: string
  ls_Handler :: "'s Handler option"
  ls_main :: bool

definition listener_returns :: "'s listener \<Rightarrow> unit result \<Rightarrow> int option" where
  "listener_returns l res =
     (if ls_main l then (case res of Inl err \<Rightarrow> Some 1 | Inr _ \<Rightarrow> Some 0) else None)"

section \<open>Scenario A: httponly\<close>

definition ping_handler :: "'s Handler" where
  "ping_handler r s = (Inr (json_response StatusOK [(''status'', JString ''ok'')]), s)"

definition httponly_mux :: "'s route list" where
  "httponly_mux = [get_route [''ping''] ping_handler]"

definition httponly_main :: "'s listener list" where
  "httponly_main = [\<lparr>ls_Addr = '':8081'', ls_Handler = Some (ServeMux_ServeHTTP httponly_mux), ls_main = True\<rparr>]"

section \<open>Scenario B: tenantcore\<close>

text \<open>The literals without \<^verbatim>\<open>Roles\<close> have a nil slice.\<close>

definition seed_plain :: "TenantID \<Rightarrow> mem_state \<Rightarrow> mem_state" where
  "seed_plain i s = snd (MemoryStore_Create Background \<lparr>sID = i, sState = Active, sRoles = None\<rparr> s)"

definition tenantcore_store :: "Heap \<Rightarrow> mem_state" where
  "tenantcore_store h =
     seed_plain ''initech'' (seed_plain ''globex'' (seed_plain ''acme'' \<lparr>heap = h, mstore = NewMemoryStore\<rparr>))"

definition loadtest_tenants :: "mem_state \<Rightarrow> Clock \<Rightarrow> mem_state cached_state" where
  "loadtest_tenants s c = \<lparr>src = s, cstore = NewCachedStore MemoryStore_Store (10 * Second), clock = c\<rparr>"

definition tenant_id_response :: "mem_state cached_state \<Rightarrow> addr \<Rightarrow> Response" where
  "tenant_id_response st t = json_response StatusOK [(''tenant_id'', JString (sID (structs (heap (src st)) t)))]"

definition tenantcore_me :: "mem_state cached_state Handler" where
  "tenantcore_me r st =
     (case FromContext (Some (req_Context r)) of
        None \<Rightarrow> (Inr (http_Error ''no tenant in context'' StatusInternalServerError), st)
      | Some t \<Rightarrow> (Inr (tenant_id_response st t), st))"

definition tenantcore_handler :: "mem_state cached_state Manager \<Rightarrow> mem_state cached_state Handler" where
  "tenantcore_handler m = Wrap m (ServeMux_ServeHTTP [get_route [''api'', ''me''] tenantcore_me])"

text \<open>The profiler listens on a port of its own, in a goroutine.\<close>

definition tenantcore_main ::
  "mem_state Do \<Rightarrow> Heap \<Rightarrow> Clock \<Rightarrow> panic + mem_state cached_state listener list \<times> mem_state cached_state" where
  "tenantcore_main Do h c =
     (case server_manager Do ''localhost'' of
        Inl p \<Rightarrow> Inl p
      | Inr m \<Rightarrow> Inr ([\<lparr>ls_Addr = '':6061'', ls_Handler = None, ls_main = False\<rparr>,
            \<lparr>ls_Addr = '':8082'', ls_Handler = Some (tenantcore_handler m), ls_main = True\<rparr>],
          loadtest_tenants (tenantcore_store h) c))"

section \<open>Scenario C: rbac\<close>

definition rbac_store :: "Heap \<Rightarrow> mem_state" where
  "rbac_store h =
     seed \<lparr>tID = ''initech'', tState = Active, tRoles = [''viewer'']\<rparr>
      (seed \<lparr>tID = ''globex'', tState = Active, tRoles = [''viewer'']\<rparr>
        (seed \<lparr>tID = ''acme'', tState = Active, tRoles = [''admin'']\<rparr> \<lparr>heap = h, mstore = NewMemoryStore\<rparr>))"

definition rbac_authz :: RBAC where
  "rbac_authz = RBAC_DefineRole server_authz ''initech'' ''viewer'' [''users:read'']"

definition rbac_users :: "mem_state cached_state Handler" where
  "rbac_users r st =
     (case FromContext (Some (req_Context r)) of
        None \<Rightarrow> (Inr (http_Error ''no tenant in context'' StatusInternalServerError), st)
      | Some t \<Rightarrow>
          (if \<not> RBAC_Can rbac_authz (deref (heap (src st)) t) ''users:write''
           then (Inr (http_Error ''forbidden: users:write required'' StatusForbidden), st)
           else (Inr (tenant_id_response st t), st)))"

definition rbac_handler :: "mem_state cached_state Manager \<Rightarrow> mem_state cached_state Handler" where
  "rbac_handler m = Wrap m (ServeMux_ServeHTTP [get_route [''api'', ''users''] rbac_users])"

definition rbac_main ::
  "mem_state Do \<Rightarrow> Heap \<Rightarrow> Clock \<Rightarrow> panic + mem_state cached_state listener list \<times> mem_state cached_state" where
  "rbac_main Do h c =
     (case server_manager Do ''localhost'' of
        Inl p \<Rightarrow> Inl p
      | Inr m \<Rightarrow> Inr ([\<lparr>ls_Addr = '':8083'', ls_Handler = Some (rbac_handler m), ls_main = True\<rparr>],
          loadtest_tenants (rbac_store h) c))"

section \<open>Lemmas\<close>

lemma loadtest_stores_ok:
  "memcache_ok (loadtest_tenants (tenantcore_store h) c)"
  "memcache_ok (loadtest_tenants (rbac_store h) c)"
proof -
  have plain: "ms_inv (seed_plain i s)" if "ms_inv s" for i s
    using mem.create_view [OF that, of "\<lparr>sID = i, sState = Active, sRoles = None\<rparr>" Background]
    by (cases "MemoryStore_Create Background \<lparr>sID = i, sState = Active, sRoles = None\<rparr> s")
      (simp add: seed_plain_def MemoryStore_AdminStore_def valid_slice_def)
  have full: "ms_inv (seed v s)" if "ms_inv s" for v s
  proof -
    obtain t h where new: "new_tenant v (heap s) = (t, h)" by fastforce
    note fr = new_tenant_frame [OF that new]
    show ?thesis
      using mem.create_view [OF fr(1), of t Background] fr(4)
      by (cases "MemoryStore_Create Background t (s\<lparr>heap := h\<rparr>)")
        (simp add: seed_def new MemoryStore_AdminStore_def)
  qed
  show "memcache_ok (loadtest_tenants (tenantcore_store h) c)" "memcache_ok (loadtest_tenants (rbac_store h) c)"
    by (simp_all add: cached_inv_def loadtest_tenants_def NewCachedStore_def tenantcore_store_def rbac_store_def
      plain full ms_inv_empty)
qed

text \<open>Scenario B answers with the tenant the request's host names, or 404.\<close>

lemma tenantcore_isolated:
  assumes "memcache_ok st" and "singleflight_solo Do" and "server_manager Do domain = Inr m"
    and "Method r = ''GET''" and "Path r = [''api'', ''me'']"
  shows "\<exists>x st'. tenantcore_handler m r st = (Inr x, st') \<and> memcache_ok st' \<and>
    (x = http_Error ''tenant not found'' 404 \<or>
     (\<exists>i. SubdomainResolver_Resolve (NewSubdomainResolver domain) r = Inr i \<and>
        x = json_response 200 [(''tenant_id'', JString i)]))"
  using assms(1-3)
proof (cases rule: wrap_cases [where r = r])
  case (pass i t st')
  with assms(4,5) show ?thesis
    by (simp add: tenantcore_handler_def route_simps tenantcore_me_def tenant_id_response_def deref_def status_defs)
next
  case (refuse st')
  then show ?thesis by (auto simp: tenantcore_handler_def)
qed

text \<open>Scenario C answers 200 to the tenant \<^verbatim>\<open>acme\<close> only, as the reference server does.\<close>

lemma rbac_only_acme:
  assumes "memcache_ok st" and "singleflight_solo Do" and "server_manager Do domain = Inr m"
    and "rbac_handler m r st = (Inr x, st')" and "Status x = 200"
  shows "SubdomainResolver_Resolve (NewSubdomainResolver domain) r = Inr ''acme''"
  using assms(1-3)
proof (cases rule: wrap_cases [where r = r])
  case (pass i t st1)
  have "tID v = ''acme''" if "RBAC_Can rbac_authz v ''users:write''" for v
    using that by (auto simp: rbac_authz_def server_authz_def Can_iff_grants grants_DefineRole split: if_splits)
  with pass assms(4,5) show ?thesis
    by (auto simp: rbac_handler_def route_simps rbac_users_def status_defs http_Error_def split: if_splits option.splits)
next
  case (refuse st1)
  with assms(4,5) show ?thesis by (auto simp: rbac_handler_def http_Error_def)
qed

text \<open>No request makes a handler panic, and the stores stay consistent.\<close>

lemma loadtest_handlers_answer:
  assumes "memcache_ok st" and "singleflight_solo Do" and "server_manager Do domain = Inr m"
  shows "\<exists>x st'. tenantcore_handler m r st = (Inr x, st') \<and> memcache_ok st' \<and> Status x \<in> {200, 404, 405}" (is ?thesis1)
    and "\<exists>x st'. rbac_handler m r st = (Inr x, st') \<and> memcache_ok st' \<and> Status x \<in> {200, 403, 404, 405}" (is ?thesis2)
proof -
  have me: "\<exists>x. ServeMux_ServeHTTP [get_route [''api'', ''me''] tenantcore_me] (tenant_request r t) st = (Inr x, st) \<and>
      Status x \<in> {200, 404, 405}" for t st
    by (auto simp: route_simps tenantcore_me_def tenant_id_response_def json_response_def status_defs http_Error_def
        split: option.splits)
  have users: "\<exists>x. ServeMux_ServeHTTP [get_route [''api'', ''users''] rbac_users] (tenant_request r t) st = (Inr x, st) \<and>
      Status x \<in> {200, 403, 404, 405}" for t st
    by (auto simp: route_simps rbac_users_def tenant_id_response_def json_response_def status_defs http_Error_def
        split: option.splits)
  have "?thesis1 \<and> ?thesis2" using assms
  proof (cases rule: wrap_cases [where r = r])
    case (pass i t st')
    with me [of t st'] users [of t st'] show ?thesis by (auto simp: tenantcore_handler_def rbac_handler_def)
  next
    case (refuse st')
    then show ?thesis by (auto simp: tenantcore_handler_def rbac_handler_def http_Error_def)
  qed
  then show ?thesis1 ?thesis2 by blast+
qed

text \<open>Started as their \<^verbatim>\<open>main\<close> starts them, the two tenant servers answer every sequence of requests.\<close>

lemma loadtest_servers_serve:
  assumes "singleflight_solo Do" and "prog \<in> {tenantcore_main Do h c, rbac_main Do h c}"
  shows "\<exists>ls st. prog = Inr (ls, st) \<and> (\<forall>l \<in> set ls. \<forall>handler. ls_Handler l = Some handler \<longrightarrow>
    (case serve_all handler rs st of (xs, st') \<Rightarrow> memcache_ok st' \<and> length xs = length rs \<and>
       (\<forall>x \<in> set xs. \<exists>resp. x = Inr resp \<and> Status resp \<in> {200, 403, 404, 405})))"
proof -
  obtain m where m: "server_manager Do ''localhost'' = Inr m" using server_manager_total by blast
  have one: "\<exists>x st'. handler r st = (Inr x, st') \<and> memcache_ok st' \<and> Status x \<in> {200, 403, 404, 405}"
    if "memcache_ok st" and "handler = tenantcore_handler m \<or> handler = rbac_handler m" for handler r st
    using loadtest_handlers_answer [OF that(1) assms(1) m, of r] that(2) by auto
  have many: "case serve_all handler rs st of (xs, st') \<Rightarrow> memcache_ok st' \<and> length xs = length rs \<and>
      (\<forall>x \<in> set xs. \<exists>resp. x = Inr resp \<and> Status resp \<in> {200, 403, 404, 405})"
    if "memcache_ok st" and "handler = tenantcore_handler m \<or> handler = rbac_handler m" for handler st
    using serve_all_invariant [where I = memcache_ok and codes = "{200, 403, 404, 405}", OF one [OF _ that(2)] that(1)]
    by (cases "serve_all handler rs st") simp
  have "tenantcore_main Do h c = Inr ([\<lparr>ls_Addr = '':6061'', ls_Handler = None, ls_main = False\<rparr>,
      \<lparr>ls_Addr = '':8082'', ls_Handler = Some (tenantcore_handler m), ls_main = True\<rparr>], loadtest_tenants (tenantcore_store h) c)"
    and "rbac_main Do h c = Inr ([\<lparr>ls_Addr = '':8083'', ls_Handler = Some (rbac_handler m), ls_main = True\<rparr>],
      loadtest_tenants (rbac_store h) c)"
    by (simp_all add: tenantcore_main_def rbac_main_def m)
  moreover note many [OF loadtest_stores_ok(1) [of h c], of "tenantcore_handler m"]
    many [OF loadtest_stores_ok(2) [of h c], of "rbac_handler m"]
  moreover have "prog = tenantcore_main Do h c \<or> prog = rbac_main Do h c" using assms(2) by simp
  ultimately show ?thesis by (elim disjE) (simp_all del: insert_iff)
qed

end
