(* ===== verification/Cached_Concurrent.thy ===== *)
theory Cached_Concurrent
  imports Cached_Store
begin

text \<open>
  Concurrent lookups through the caching store (\<^verbatim>\<open>src/store/cached.go\<close>). Any number of
  goroutines are inside \<^verbatim>\<open>Get\<close>; the read of the cache under the lock, the reading of the
  clock, the call of \<^verbatim>\<open>group.Do\<close>, the source's answer, the write of the entry and the return
  from \<^verbatim>\<open>Do\<close> are the steps between which they interleave, with changes of the source by
  others in between. The \<^verbatim>\<open>singleflight.Group\<close> of \<^verbatim>\<open>golang.org/x/sync\<close> is an argument; its
  documentation is the named hypothesis: one execution per key at a time, and every caller
  that comes in meanwhile receives its result.
\<close>

section \<open>The interleavings\<close>

text \<open>
  The group: a caller (by its number) enters \<^verbatim>\<open>Do\<close> and learns whether it is to run the
  function; the function for a key returns; what the call of \<^verbatim>\<open>Do\<close> has returned with, if it
  has.
\<close>

record 'g group_api =
  sf_enter :: "string \<Rightarrow> nat \<Rightarrow> 'g \<Rightarrow> bool \<times> 'g"
  sf_return :: "string \<Rightarrow> addr result \<Rightarrow> 'g \<Rightarrow> 'g"
  sf_result :: "nat \<Rightarrow> 'g \<Rightarrow> addr result option"

text \<open>\<open>flight\<close> gives the callers that share the execution in flight for a key.\<close>

definition singleflight_documented :: "'g group_api \<Rightarrow> ('g \<Rightarrow> string \<rightharpoonup> nat set) \<Rightarrow> bool" where
  "singleflight_documented api flight \<longleftrightarrow>
     (\<forall>k n g. case flight g k of
        None \<Rightarrow> fst (sf_enter api k n g) \<and> flight (snd (sf_enter api k n g)) = (flight g)(k \<mapsto> {n})
      | Some ns \<Rightarrow> \<not> fst (sf_enter api k n g) \<and> flight (snd (sf_enter api k n g)) = (flight g)(k \<mapsto> insert n ns)) \<and>
     (\<forall>k n m g. sf_result api m (snd (sf_enter api k n g)) = sf_result api m g) \<and>
     (\<forall>k r g ns. flight g k = Some ns \<longrightarrow>
        flight (sf_return api k r g) = (flight g)(k := None) \<and>
        (\<forall>m. sf_result api m (sf_return api k r g) = (if m \<in> ns then Some r else sf_result api m g)))"

datatype lookup =
    Began Context TenantID
  | Read Context TenantID "cacheEntry option"
  | Missed Context TenantID
  | Fetching Context TenantID
  | Fetched TenantID addr
  | Cached TenantID addr
  | InDo TenantID
  | Answered TenantID "addr result"

text \<open>\<open>cy_log\<close> records the answers of the source and nothing reads it.\<close>

record ('s, 'g) cache_system =
  cy_state :: "'s cached_state"
  cy_group :: 'g
  cy_calls :: "lookup list"
  cy_log :: "(TenantID \<times> addr result) list"

abbreviation at_call :: "('s, 'g) cache_system \<Rightarrow> nat \<Rightarrow> lookup \<Rightarrow> bool" where
  "at_call s n c \<equiv> n < length (cy_calls s) \<and> cy_calls s ! n = c"

abbreviation goto :: "nat \<Rightarrow> lookup \<Rightarrow> ('s, 'g) cache_system \<Rightarrow> ('s, 'g) cache_system" where
  "goto n c s \<equiv> s\<lparr>cy_calls := (cy_calls s)[n := c]\<rparr>"

inductive lookup_step :: "'g group_api \<Rightarrow> ('s, 'g) cache_system \<Rightarrow> ('s, 'g) cache_system \<Rightarrow> bool"
  for api :: "'g group_api" where
  call: "lookup_step api s (s\<lparr>cy_calls := cy_calls s @ [Began ctx i]\<rparr>)"
| read: "at_call s n (Began ctx i) \<Longrightarrow>
    lookup_step api s (goto n (Read ctx i (cs_cache (cstore (cy_state s)) i)) s)"
| hit: "at_call s n (Read ctx i (Some e)) \<Longrightarrow> time_Now (clock (cy_state s)) = (now, c) \<Longrightarrow>
    Time_Before now (ce_expiresAt e) \<Longrightarrow>
    lookup_step api s (goto n (Answered i (Inr (ce_tenant e))) (s\<lparr>cy_state := (cy_state s)\<lparr>clock := c\<rparr>\<rparr>))"
| expired: "at_call s n (Read ctx i (Some e)) \<Longrightarrow> time_Now (clock (cy_state s)) = (now, c) \<Longrightarrow>
    \<not> Time_Before now (ce_expiresAt e) \<Longrightarrow>
    lookup_step api s (goto n (Missed ctx i) (s\<lparr>cy_state := (cy_state s)\<lparr>clock := c\<rparr>\<rparr>))"
| absent: "at_call s n (Read ctx i None) \<Longrightarrow> lookup_step api s (goto n (Missed ctx i) s)"
| lead: "at_call s n (Missed ctx i) \<Longrightarrow> sf_enter api i n (cy_group s) = (True, g) \<Longrightarrow>
    lookup_step api s (goto n (Fetching ctx i) (s\<lparr>cy_group := g\<rparr>))"
| follow: "at_call s n (Missed ctx i) \<Longrightarrow> sf_enter api i n (cy_group s) = (False, g) \<Longrightarrow>
    lookup_step api s (goto n (InDo i) (s\<lparr>cy_group := g\<rparr>))"
| fetch_error: "at_call s n (Fetching ctx i) \<Longrightarrow>
    Store_Get (cs_source (cstore (cy_state s))) ctx i (src (cy_state s)) = (Inl err, m) \<Longrightarrow>
    lookup_step api s (goto n (InDo i) (s\<lparr>cy_state := (cy_state s)\<lparr>src := m\<rparr>,
      cy_group := sf_return api i (Inl err) (cy_group s), cy_log := cy_log s @ [(i, Inl err)]\<rparr>))"
| fetch: "at_call s n (Fetching ctx i) \<Longrightarrow>
    Store_Get (cs_source (cstore (cy_state s))) ctx i (src (cy_state s)) = (Inr t, m) \<Longrightarrow>
    lookup_step api s (goto n (Fetched i t) (s\<lparr>cy_state := (cy_state s)\<lparr>src := m\<rparr>,
      cy_log := cy_log s @ [(i, Inr t)]\<rparr>))"
| store: "at_call s n (Fetched i t) \<Longrightarrow> time_Now (clock (cy_state s)) = (now, c) \<Longrightarrow>
    e = \<lparr>ce_tenant = t, ce_expiresAt = Time_Add now (cs_ttl (cstore (cy_state s)))\<rparr> \<Longrightarrow>
    lookup_step api s (goto n (Cached i t) (s\<lparr>cy_state := (cy_state s)\<lparr>clock := c,
      cstore := (cstore (cy_state s))\<lparr>cs_cache := (cs_cache (cstore (cy_state s)))(i \<mapsto> e)\<rparr>\<rparr>\<rparr>))"
| return: "at_call s n (Cached i t) \<Longrightarrow>
    lookup_step api s (goto n (InDo i) (s\<lparr>cy_group := sf_return api i (Inr t) (cy_group s)\<rparr>))"
| result: "at_call s n (InDo i) \<Longrightarrow> sf_result api n (cy_group s) = Some r \<Longrightarrow>
    lookup_step api s (goto n (Answered i r) s)"
| source_changes: "lookup_step api s (s\<lparr>cy_state := (cy_state s)\<lparr>src := m\<rparr>\<rparr>)"

abbreviation lookup_steps :: "'g group_api \<Rightarrow> ('s, 'g) cache_system \<Rightarrow> ('s, 'g) cache_system \<Rightarrow> bool" where
  "lookup_steps api \<equiv> (lookup_step api)\<^sup>*\<^sup>*"

definition new_cache_system :: "'s Store \<Rightarrow> Duration \<Rightarrow> 's \<Rightarrow> Clock \<Rightarrow> 'g \<Rightarrow> ('s, 'g) cache_system" where
  "new_cache_system source ttl m c g =
     \<lparr>cy_state = \<lparr>src = m, cstore = NewCachedStore source ttl, clock = c\<rparr>, cy_group = g, cy_calls = [], cy_log = []\<rparr>"

section \<open>The invariant\<close>

text \<open>The caller that runs the function for a tenant.\<close>

fun fetching :: "TenantID \<Rightarrow> lookup \<Rightarrow> bool" where
  "fetching i (Fetching ctx j) \<longleftrightarrow> j = i"
| "fetching i (Fetched j t) \<longleftrightarrow> j = i"
| "fetching i (Cached j t) \<longleftrightarrow> j = i"
| "fetching i c \<longleftrightarrow> False"

definition runners :: "lookup list \<Rightarrow> TenantID \<Rightarrow> nat set" where
  "runners cs i = {n. n < length cs \<and> fetching i (cs ! n)}"

text \<open>The last tenant the source returned for an identifier.\<close>

definition latest :: "(TenantID \<times> addr result) list \<Rightarrow> TenantID \<Rightarrow> addr option" where
  "latest log i = fold (\<lambda>(j, r) x. case r of Inr t \<Rightarrow> (if j = i then Some t else x) | Inl e \<Rightarrow> x) log None"

lemma latest_snoc [simp]:
  "latest [] i = None"
  "latest (log @ [(j, Inl err)]) i = latest log i"
  "latest (log @ [(j, Inr t)]) i = (if j = i then Some t else latest log i)"
  by (simp_all add: latest_def)

lemma latest_logged: "latest log i = Some t \<Longrightarrow> (i, Inr t) \<in> set log"
proof (induction log rule: rev_induct)
  case (snoc x log)
  then show ?case by (cases x; cases "snd x") (auto split: if_splits)
qed simp


text \<open>Inside \<^verbatim>\<open>Do\<close> for a tenant: running the function, or waiting.\<close>

definition in_do :: "TenantID \<Rightarrow> lookup \<Rightarrow> bool" where
  "in_do i c \<longleftrightarrow> c = InDo i \<or> fetching i c"

definition flight_inv :: "'g group_api \<Rightarrow> ('g \<Rightarrow> string \<rightharpoonup> nat set) \<Rightarrow> ('s, 'g) cache_system \<Rightarrow> bool" where
  "flight_inv api flight s \<longleftrightarrow>
     (\<forall>i. flight (cy_group s) i = None \<longrightarrow> runners (cy_calls s) i = {}) \<and>
     (\<forall>i ns. flight (cy_group s) i = Some ns \<longrightarrow> (\<exists>n \<in> ns. runners (cy_calls s) i = {n}) \<and>
        (\<forall>m \<in> ns. m < length (cy_calls s) \<and> in_do i (cy_calls s ! m) \<and> sf_result api m (cy_group s) = None))"

definition result_inv :: "'g group_api \<Rightarrow> ('g \<Rightarrow> string \<rightharpoonup> nat set) \<Rightarrow> ('s, 'g) cache_system \<Rightarrow> bool" where
  "result_inv api flight s \<longleftrightarrow>
     (\<forall>m r. sf_result api m (cy_group s) = Some r \<longrightarrow>
        (\<exists>i. (at_call s m (InDo i) \<or> at_call s m (Answered i r)) \<and> (i, r) \<in> set (cy_log s))) \<and>
     (\<forall>m i. at_call s m (InDo i) \<longrightarrow> sf_result api m (cy_group s) \<noteq> None \<or>
        (\<exists>ns. flight (cy_group s) i = Some ns \<and> m \<in> ns))"

text \<open>What the log says of a caller's place.\<close>

fun justified :: "(TenantID \<times> addr result) list \<Rightarrow> lookup \<Rightarrow> bool" where
  "justified log (Answered i r) \<longleftrightarrow> (i, r) \<in> set log"
| "justified log (Read ctx i (Some e)) \<longleftrightarrow> (i, Inr (ce_tenant e)) \<in> set log"
| "justified log (Cached i t) \<longleftrightarrow> (i, Inr t) \<in> set log"
| "justified log (Fetched i t) \<longleftrightarrow> latest log i = Some t"
| "justified log c \<longleftrightarrow> True"

definition log_inv :: "('s, 'g) cache_system \<Rightarrow> bool" where
  "log_inv s \<longleftrightarrow>
     (\<forall>c \<in> set (cy_calls s). justified (cy_log s) c) \<and>
     (\<forall>i e. cs_cache (cstore (cy_state s)) i = Some e \<longrightarrow> (i, Inr (ce_tenant e)) \<in> set (cy_log s)) \<and>
     (\<forall>i. (\<forall>t. Fetched i t \<notin> set (cy_calls s)) \<longrightarrow>
        map_option ce_tenant (cs_cache (cstore (cy_state s)) i) = latest (cy_log s) i)"

lemma runners_append [simp]: "runners (cs @ [Began ctx i]) j = runners cs j"
  by (auto simp: runners_def nth_append less_Suc_eq)

lemma runners_update:
  "n < length cs \<Longrightarrow> runners (cs[n := c]) i = (if fetching i c then insert n (runners cs i) else runners cs i - {n})"
  by (auto simp: runners_def nth_list_update split: if_splits)

lemma runner_iff: "n < length cs \<Longrightarrow> n \<in> runners cs i \<longleftrightarrow> fetching i (cs ! n)"
  by (simp add: runners_def)

lemma documented_enter:
  assumes "singleflight_documented api flight"
  shows "case flight g k of
      None \<Rightarrow> fst (sf_enter api k n g) \<and> flight (snd (sf_enter api k n g)) = (flight g)(k \<mapsto> {n})
    | Some ns \<Rightarrow> \<not> fst (sf_enter api k n g) \<and> flight (snd (sf_enter api k n g)) = (flight g)(k \<mapsto> insert n ns)"
    and "sf_result api m (snd (sf_enter api k n g)) = sf_result api m g"
  using assms unfolding singleflight_documented_def by blast+

lemma documented_lead:
  assumes "singleflight_documented api flight" and "sf_enter api k n g = (True, g')"
  shows "flight g k = None" and "flight g' = (flight g)(k \<mapsto> {n})" and "sf_result api m g' = sf_result api m g"
  using documented_enter [OF assms(1), where g = g and k = k and n = n] assms(2) by (auto split: option.splits)

lemma documented_follow:
  assumes "singleflight_documented api flight" and "sf_enter api k n g = (False, g')"
  shows "\<exists>ns. flight g k = Some ns \<and> flight g' = (flight g)(k \<mapsto> insert n ns)"
    and "sf_result api m g' = sf_result api m g"
  using documented_enter [OF assms(1), where g = g and k = k and n = n] assms(2) by (auto split: option.splits)

lemma documented_return:
  assumes "singleflight_documented api flight" and "flight g k = Some ns"
  shows "flight (sf_return api k r g) = (flight g)(k := None)"
    and "sf_result api m (sf_return api k r g) = (if m \<in> ns then Some r else sf_result api m g)"
  using assms unfolding singleflight_documented_def by blast+

lemma in_do_unique: "in_do i c \<Longrightarrow> in_do j c \<Longrightarrow> i = j"
  by (cases c) (auto simp: in_do_def)

text \<open>A move that neither enters nor leaves \<^verbatim>\<open>Do\<close>.\<close>

lemma flight_inv_move:
  assumes "flight_inv api flight s" and "n < length (cy_calls s)"
    and "\<And>i. fetching i c \<longleftrightarrow> fetching i (cy_calls s ! n)" and "\<And>i. in_do i (cy_calls s ! n) \<Longrightarrow> in_do i c"
  shows "flight_inv api flight (goto n c s)"
proof -
  have "runners (cy_calls (goto n c s)) i = runners (cy_calls s) i" for i
    using runner_iff [OF assms(2), of i] by (auto simp: runners_update assms(2,3))
  with assms(1,2,4) show ?thesis by (auto simp: flight_inv_def nth_list_update)
qed


lemma flight_invD:
  assumes "flight_inv api flight s"
  shows "flight (cy_group s) i = None \<Longrightarrow> runners (cy_calls s) i = {}"
    and "flight (cy_group s) i = Some ns \<Longrightarrow> \<exists>n \<in> ns. runners (cy_calls s) i = {n}"
    and "flight (cy_group s) i = Some ns \<Longrightarrow> m \<in> ns \<Longrightarrow> m < length (cy_calls s)"
    and "flight (cy_group s) i = Some ns \<Longrightarrow> m \<in> ns \<Longrightarrow> in_do i (cy_calls s ! m)"
    and "flight (cy_group s) i = Some ns \<Longrightarrow> m \<in> ns \<Longrightarrow> sf_result api m (cy_group s) = None"
  using assms by (auto simp: flight_inv_def)

lemma not_in_flight:
  assumes "flight_inv api flight s" and "at_call s n (Missed ctx i)"
  shows "n \<notin> runners (cy_calls s) j" and "flight (cy_group s) j = Some ns \<Longrightarrow> n \<notin> ns"
  using assms(2) flight_invD(4) [OF assms(1), of j ns n] by (auto simp: runners_def in_do_def)

lemma no_result_yet:
  assumes "result_inv api flight s" and "at_call s n (Missed ctx i)"
  shows "sf_result api n (cy_group s) = None"
proof (cases "sf_result api n (cy_group s)")
  case (Some r)
  with assms(1) obtain j where "at_call s n (InDo j) \<or> at_call s n (Answered j r)" unfolding result_inv_def by blast
  with assms(2) show ?thesis by auto
qed simp

text \<open>The steps at the boundary of \<^verbatim>\<open>Do\<close>: running the function, waiting, returning.\<close>

lemma flight_inv_enter:
  assumes inv: "flight_inv api flight s" "result_inv api flight s" and at: "at_call s n (Missed ctx i)"
    and g: "flight g = (flight (cy_group s))(i \<mapsto> insert n ns)" "\<And>m. sf_result api m g = sf_result api m (cy_group s)"
    and c: "in_do i c" and ns: "flight (cy_group s) i = None \<and> ns = {} \<and> fetching i c \<or>
      flight (cy_group s) i = Some ns \<and> \<not> fetching i c"
  shows "flight_inv api flight (goto n c (s\<lparr>cy_group := g\<rparr>))"
proof -
  let ?s = "goto n c (s\<lparr>cy_group := g\<rparr>)"
  note D = flight_invD [OF inv(1)] and out = not_in_flight [OF inv(1) at]
  have run: "runners (cy_calls ?s) j = (if fetching j c then insert n (runners (cy_calls s) j) else runners (cy_calls s) j)" for j
    using at out(1) [of j] by (simp add: runners_update)
  have other: "\<not> fetching j c" if "j \<noteq> i" for j using c that in_do_unique [of i c j] by (auto simp: in_do_def)
  have "\<exists>n \<in> ns'. runners (cy_calls ?s) j = {n}" if "flight g j = Some ns'" for j ns'
    using that ns D(1,2) run other by (cases "j = i") (auto simp: g)
  moreover have "runners (cy_calls ?s) j = {}" if "flight g j = None" for j
    using that D(1) run other [of j] by (auto simp: g split: if_splits)
  moreover have "m < length (cy_calls ?s) \<and> in_do j (cy_calls ?s ! m) \<and> sf_result api m g = None"
    if "flight g j = Some ns'" "m \<in> ns'" for j ns' m
    using that ns D(3-5) at c no_result_yet [OF inv(2) at] out(2)
    by (cases "j = i"; cases "m = n") (auto simp: g)
  ultimately show ?thesis by (auto simp: flight_inv_def)
qed

lemma runner_in_flight:
  assumes "flight_inv api flight s" and "at_call s n c" and "fetching i c"
  obtains ns where "flight (cy_group s) i = Some ns" and "n \<in> ns" and "runners (cy_calls s) i = {n}"
proof -
  from assms(2,3) have "n \<in> runners (cy_calls s) i" by (auto simp: runners_def)
  with that flight_invD(1,2) [OF assms(1), of i] show thesis
    by (cases "flight (cy_group s) i") fastforce+
qed

lemma flight_inv_return:
  assumes doc: "singleflight_documented api flight" and inv: "flight_inv api flight s"
    and at: "at_call s n c" "fetching i c"
  shows "flight_inv api flight (goto n (InDo i) (s\<lparr>cy_state := st, cy_group := sf_return api i r (cy_group s), cy_log := l\<rparr>))"
    (is "flight_inv api flight ?s")
proof -
  from runner_in_flight [OF inv at] obtain ns where ns: "flight (cy_group s) i = Some ns" "n \<in> ns" "runners (cy_calls s) i = {n}" .
  note ret = documented_return [OF doc ns(1), where r = r] and D = flight_invD [OF inv]
  have apart: "m \<notin> ns" if "flight (cy_group s) j = Some ns'" "m \<in> ns'" "j \<noteq> i" for j ns' m
    using D(4) [OF ns(1)] D(4) [OF that(1,2)] in_do_unique that(3) by blast
  have "n \<notin> runners (cy_calls s) j" if "j \<noteq> i" for j
    using at that by (cases c) (auto simp: runners_def)
  then have run: "runners ((cy_calls s)[n := InDo i]) j = (if j = i then {} else runners (cy_calls s) j)" for j
    using at ns(3) by (auto simp: runners_update)
  have "m < length (cy_calls ?s) \<and> in_do j (cy_calls ?s ! m) \<and> sf_result api m (cy_group ?s) = None"
    if "flight (cy_group s) j = Some ns'" "m \<in> ns'" "j \<noteq> i" for j ns' m
    using D(3-5) [OF that(1,2)] apart [OF that] ns(2) by (cases "m = n") (auto simp: ret)
  with D(1,2) show ?thesis by (auto simp: flight_inv_def ret run)
qed

lemma result_inv_return:
  assumes doc: "singleflight_documented api flight" and inv: "flight_inv api flight s" "result_inv api flight s"
    and at: "at_call s n c" "fetching i c" and log: "set (cy_log s) \<subseteq> set l" "(i, r) \<in> set l"
  shows "result_inv api flight (goto n (InDo i) (s\<lparr>cy_state := st, cy_group := sf_return api i r (cy_group s), cy_log := l\<rparr>))"
    (is "result_inv api flight ?s")
proof -
  from runner_in_flight [OF inv(1) at] obtain ns where ns: "flight (cy_group s) i = Some ns" "n \<in> ns" "runners (cy_calls s) i = {n}" .
  note ret = documented_return [OF doc ns(1), where r = r] and D = flight_invD [OF inv(1)]
  have waiting: "at_call ?s m (InDo i)" if "m \<in> ns" for m
    using D(3,4) [OF ns(1) that] ns(3) by (cases "m = n") (auto simp: in_do_def runners_def)
  have "\<exists>j. (at_call ?s m (InDo j) \<or> at_call ?s m (Answered j r')) \<and> (j, r') \<in> set l"
    if "sf_result api m (cy_group ?s) = Some r'" for m r'
  proof (cases "m \<in> ns")
    case True
    with that have "r' = r" by (simp add: ret)
    with waiting [OF True] log show ?thesis by blast
  next
    case False
    with that have "sf_result api m (cy_group s) = Some r'" by (simp add: ret)
    with inv(2) obtain j where "at_call s m (InDo j) \<or> at_call s m (Answered j r')" and "(j, r') \<in> set (cy_log s)"
      unfolding result_inv_def by blast
    moreover have "m \<noteq> n" using False ns(2) by blast
    ultimately show ?thesis using log by auto
  qed
  moreover have "sf_result api m (cy_group ?s) \<noteq> None \<or> (\<exists>ns'. flight (cy_group ?s) j = Some ns' \<and> m \<in> ns')"
    if "at_call ?s m (InDo j)" for m j
  proof (cases "m \<in> ns")
    case False
    with that ns(2) have "at_call s m (InDo j)" by (cases "m = n") auto
    with inv(2) have "sf_result api m (cy_group s) \<noteq> None \<or> (\<exists>ns'. flight (cy_group s) j = Some ns' \<and> m \<in> ns')"
      unfolding result_inv_def by blast
    with False ns(1) show ?thesis by (auto simp: ret)
  qed (simp add: ret)
  ultimately show ?thesis unfolding result_inv_def by simp
qed


lemma flight_inv_frame [simp]:
  "flight_inv api flight (s\<lparr>cy_state := st\<rparr>) = flight_inv api flight s"
  "flight_inv api flight (s\<lparr>cy_log := l\<rparr>) = flight_inv api flight s"
  by (simp_all add: flight_inv_def)

lemma flight_inv_call [simp]: "flight_inv api flight s \<Longrightarrow> flight_inv api flight (s\<lparr>cy_calls := cy_calls s @ [Began ctx i]\<rparr>)"
  by (fastforce simp: flight_inv_def nth_append intro: less_SucI)

text \<open>A step that neither delivers nor withdraws a result.\<close>

lemma result_inv_transfer:
  assumes inv: "result_inv api flight s" and same: "\<And>m. sf_result api m (cy_group s') = sf_result api m (cy_group s)"
    and forth: "\<And>m j r. sf_result api m (cy_group s) = Some r \<Longrightarrow> at_call s m (InDo j) \<or> at_call s m (Answered j r) \<Longrightarrow>
      at_call s' m (InDo j) \<or> at_call s' m (Answered j r)"
    and log: "set (cy_log s) \<subseteq> set (cy_log s')"
    and backw: "\<And>m j. at_call s' m (InDo j) \<Longrightarrow> at_call s m (InDo j) \<or> (\<exists>ns. flight (cy_group s') j = Some ns \<and> m \<in> ns)"
    and flights: "\<And>m j ns. flight (cy_group s) j = Some ns \<Longrightarrow> m \<in> ns \<Longrightarrow> \<exists>ns'. flight (cy_group s') j = Some ns' \<and> m \<in> ns'"
  shows "result_inv api flight s'"
  unfolding result_inv_def
proof (intro conjI allI impI, goal_cases)
  case (1 m r)
  with inv same obtain j where j: "at_call s m (InDo j) \<or> at_call s m (Answered j r)" "(j, r) \<in> set (cy_log s)"
    unfolding result_inv_def by (metis (no_types, lifting))
  with forth [of m r j] 1 same log show ?case by auto
next
  case (2 m i)
  from backw [OF 2] show ?case
  proof
    assume "at_call s m (InDo i)"
    with inv have "sf_result api m (cy_group s) \<noteq> None \<or> (\<exists>ns. flight (cy_group s) i = Some ns \<and> m \<in> ns)"
      unfolding result_inv_def by blast
    with same flights show ?case by auto
  qed simp
qed

text \<open>A move outside \<^verbatim>\<open>Do\<close>, or within the function that it runs.\<close>

lemma result_inv_move:
  assumes inv: "result_inv api flight s" and n: "n < length (cy_calls s)"
    and old: "\<And>i. cy_calls s ! n \<noteq> InDo i" "\<And>i r. cy_calls s ! n \<noteq> Answered i r" and new: "\<And>i. c \<noteq> InDo i"
    and log: "set (cy_log s) \<subseteq> set l"
  shows "result_inv api flight (goto n c (s\<lparr>cy_state := st, cy_log := l\<rparr>))"
  using inv
proof (rule result_inv_transfer, goal_cases)
  case (2 m j r)
  then show ?case using old by (cases "m = n") auto
next
  case (4 m j)
  then show ?case using new by (cases "m = n") auto
qed (use log in auto)

lemma result_inv_enter:
  assumes inv: "result_inv api flight s" and at: "at_call s n (Missed ctx i)"
    and g: "flight g = (flight (cy_group s))(i \<mapsto> insert n ns)" "\<And>m. sf_result api m g = sf_result api m (cy_group s)"
    and ns: "\<And>m. flight (cy_group s) i = Some m \<Longrightarrow> m = ns" and c: "c = InDo i \<or> (\<forall>j. c \<noteq> InDo j)"
  shows "result_inv api flight (goto n c (s\<lparr>cy_group := g\<rparr>))"
  using inv
proof (rule result_inv_transfer, goal_cases)
  case (2 m j r)
  then show ?case using at by (cases "m = n") auto
next
  case (4 m j)
  then show ?case using at c by (cases "m = n") (auto simp: g)
next
  case (5 m j ns')
  then show ?case using ns by (cases "j = i") (auto simp: g)
qed (auto simp: g)

lemma result_inv_answer:
  assumes inv: "flight_inv api flight s" "result_inv api flight s" and at: "at_call s n (InDo i)"
    and r: "sf_result api n (cy_group s) = Some r"
  shows "result_inv api flight (goto n (Answered i r) s)" and "flight_inv api flight (goto n (Answered i r) s)"
    and "(i, r) \<in> set (cy_log s)"
proof -
  from inv(2) r obtain j where "at_call s n (InDo j) \<or> at_call s n (Answered j r)" "(j, r) \<in> set (cy_log s)"
    unfolding result_inv_def by blast
  with at show log: "(i, r) \<in> set (cy_log s)" by auto
  have out: "n \<notin> ns" if "flight (cy_group s) j = Some ns" for j ns
    using flight_invD(5) [OF inv(1) that] r by auto
  have "n \<notin> runners (cy_calls s) j" for j using at by (simp add: runners_def)
  then have run: "runners ((cy_calls s)[n := Answered i r]) j = runners (cy_calls s) j" for j
    using at by (simp add: runners_update)
  have "in_do j ((cy_calls s)[n := Answered i r] ! m)" if "flight (cy_group s) j = Some ns" "m \<in> ns" for j ns m
    using flight_invD(4) [OF inv(1) that] out [OF that(1)] that(2) by (cases "m = n") auto
  then show "flight_inv api flight (goto n (Answered i r) s)"
    using flight_invD [OF inv(1)] unfolding flight_inv_def by (simp add: run)
  from inv(2) show "result_inv api flight (goto n (Answered i r) s)"
  proof (rule result_inv_transfer, goal_cases)
    case (2 m j r')
    then show ?case using at r by (cases "m = n") auto
  next
    case (4 m j)
    then show ?case by (cases "m = n") auto
  qed auto
qed


lemma log_invD:
  assumes "log_inv s"
  shows "c \<in> set (cy_calls s) \<Longrightarrow> justified (cy_log s) c"
    and "cs_cache (cstore (cy_state s)) i = Some e \<Longrightarrow> (i, Inr (ce_tenant e)) \<in> set (cy_log s)"
    and "\<forall>t. Fetched i t \<notin> set (cy_calls s) \<Longrightarrow>
      map_option ce_tenant (cs_cache (cstore (cy_state s)) i) = latest (cy_log s) i"
  using assms unfolding log_inv_def by blast+

lemma justified_mono:
  assumes "justified log c" and "set log \<subseteq> set l" and "\<And>i t. c = Fetched i t \<Longrightarrow> latest l i = latest log i"
  shows "justified l c"
  using assms by (cases "(log, c)" rule: justified.cases) auto

lemma mem_update: "d \<in> set (xs[n := c]) \<Longrightarrow> d \<in> set xs \<or> d = c"
  using set_update_subset_insert by fastforce

lemma mem_update_other: "d \<in> set xs \<Longrightarrow> d \<noteq> xs ! n \<Longrightarrow> d \<in> set (xs[n := c])"
  by (metis in_set_conv_nth length_list_update nth_list_update_neq)

text \<open>A step that leaves the cache alone and does not fetch.\<close>

lemma log_inv_move:
  assumes inv: "log_inv s" and old: "\<And>i t. cy_calls s ! n \<noteq> Fetched i t"
    and c: "justified (cy_log s) c" and st: "cstore st = cstore (cy_state s)"
    and l: "set (cy_log s) \<subseteq> set l" "\<And>i. latest l i = latest (cy_log s) i"
  shows "log_inv (goto n c (s\<lparr>cy_state := st, cy_group := g, cy_log := l\<rparr>))"
proof -
  note D = log_invD [OF inv]
  have "justified l d" if "d \<in> set ((cy_calls s)[n := c])" for d
    using mem_update [OF that] D(1) c justified_mono [OF _ l(1)] l(2) by blast
  moreover have "\<forall>t. Fetched i t \<notin> set (cy_calls s)" if "\<forall>t. Fetched i t \<notin> set ((cy_calls s)[n := c])" for i
    using that old mem_update_other by metis
  ultimately show ?thesis using D(2,3) l unfolding log_inv_def by (auto simp: st)
qed

lemma log_inv_call: "log_inv s \<Longrightarrow> log_inv (s\<lparr>cy_calls := cy_calls s @ [Began ctx i]\<rparr>)"
  by (auto simp: log_inv_def)

lemma only_fetched:
  assumes "flight_inv api flight s" and "at_call s n c" "fetching i c" and "Fetched i t \<in> set (cy_calls s)"
  shows "Fetched i t = c"
proof -
  from assms(4) obtain m where m: "at_call s m (Fetched i t)" by (auto simp: in_set_conv_nth)
  from runner_in_flight [OF assms(1-3)] obtain ns where "runners (cy_calls s) i = {n}" .
  moreover have "m \<in> runners (cy_calls s) i" using m by (simp add: runners_def)
  ultimately show ?thesis using m assms(2) by auto
qed

lemma log_inv_fetch:
  assumes inv: "flight_inv api flight s" "log_inv s" and at: "at_call s n (Fetching ctx i)"
    and st: "cstore st = cstore (cy_state s)"
  shows "log_inv (goto n (Fetched i t) (s\<lparr>cy_state := st, cy_log := cy_log s @ [(i, Inr t)]\<rparr>))"
proof -
  note D = log_invD [OF inv(2)]
  let ?cs = "(cy_calls s)[n := Fetched i t]" and ?l = "cy_log s @ [(i, Inr t)]"
  have none: "Fetched i t' \<notin> set (cy_calls s)" for t'
    using only_fetched [OF inv(1) at, of i t'] by auto
  have mine: "Fetched i t \<in> set ?cs" using at by (simp add: set_update_memI)
  have "justified ?l d" if "d \<in> set ?cs" for d
    using mem_update [OF that]
  proof
    assume d: "d \<in> set (cy_calls s)"
    from D(1) [OF d] show ?thesis
    proof (rule justified_mono)
      show "latest ?l j = latest (cy_log s) j" if "d = Fetched j t'" for j t'
        using that d none by auto
    qed auto
  qed simp
  moreover have "map_option ce_tenant (cs_cache (cstore (cy_state s)) j) = latest ?l j"
    if "\<forall>t'. Fetched j t' \<notin> set ?cs" for j
  proof -
    from that mine have "j \<noteq> i" by blast
    moreover have "Fetched j t' \<notin> set (cy_calls s)" for t'
      using that at mem_update_other [of "Fetched j t'" "cy_calls s" n "Fetched i t"] by auto
    ultimately show ?thesis using D(3) [of j] by simp
  qed
  ultimately show ?thesis using D(2) unfolding log_inv_def by (auto simp: st)
qed

lemma log_inv_store:
  assumes inv: "flight_inv api flight s" "log_inv s" and at: "at_call s n (Fetched i t)"
    and st: "cs_cache (cstore st) = (cs_cache (cstore (cy_state s)))(i \<mapsto> e)" "ce_tenant e = t"
  shows "log_inv (goto n (Cached i t) (s\<lparr>cy_state := st\<rparr>))"
proof -
  note D = log_invD [OF inv(2)]
  let ?cs = "(cy_calls s)[n := Cached i t]"
  from at have "Fetched i t \<in> set (cy_calls s)" by (auto simp: in_set_conv_nth)
  from D(1) [OF this] have last: "latest (cy_log s) i = Some t" by simp
  then have logged: "(i, Inr t) \<in> set (cy_log s)" by (rule latest_logged)
  have "justified (cy_log s) d" if "d \<in> set ?cs" for d
    using mem_update [OF that] D(1) logged by auto
  moreover have "map_option ce_tenant (cs_cache (cstore st) j) = latest (cy_log s) j"
    if "\<forall>t'. Fetched j t' \<notin> set ?cs" for j
  proof (cases "j = i")
    case False
    have "Fetched j t' \<notin> set (cy_calls s)" for t'
      using that at False mem_update_other [of "Fetched j t'" "cy_calls s" n "Cached i t"] by auto
    with False D(3) [of j] show ?thesis by (simp add: st)
  qed (simp add: st last)
  moreover have "(j, Inr (ce_tenant e')) \<in> set (cy_log s)" if "cs_cache (cstore st) j = Some e'" for j e'
    using that D(2) [of j] logged st by (auto split: if_splits)
  ultimately show ?thesis unfolding log_inv_def by simp
qed


definition lookup_inv :: "'g group_api \<Rightarrow> ('g \<Rightarrow> string \<rightharpoonup> nat set) \<Rightarrow> ('s, 'g) cache_system \<Rightarrow> bool" where
  "lookup_inv api flight s \<longleftrightarrow> flight_inv api flight s \<and> result_inv api flight s \<and> log_inv s"


text \<open>A step of a caller outside \<^verbatim>\<open>Do\<close>.\<close>

fun outside :: "lookup \<Rightarrow> bool" where
  "outside (Began ctx i) \<longleftrightarrow> True"
| "outside (Read ctx i e) \<longleftrightarrow> True"
| "outside (Missed ctx i) \<longleftrightarrow> True"
| "outside c \<longleftrightarrow> False"

lemma lookup_inv_outside:
  assumes inv: "lookup_inv api flight s" and at: "at_call s n d" "outside d"
    and c: "outside c \<or> (\<exists>i r. c = Answered i r)" "justified (cy_log s) c" and st: "cstore st = cstore (cy_state s)"
  shows "lookup_inv api flight (goto n c (s\<lparr>cy_state := st\<rparr>))"
proof -
  from inv have I: "flight_inv api flight s" "result_inv api flight s" "log_inv s" by (simp_all add: lookup_inv_def)
  from at c(1) have kinds: "fetching i c \<longleftrightarrow> fetching i (cy_calls s ! n)" "\<not> in_do i (cy_calls s ! n)"
    "cy_calls s ! n \<noteq> InDo i" "cy_calls s ! n \<noteq> Answered i r" "cy_calls s ! n \<noteq> Fetched i t" "c \<noteq> InDo i" for i r t
    by (cases d; cases c; simp add: in_do_def)+
  have "flight_inv api flight (goto n c (s\<lparr>cy_state := st\<rparr>))"
    using I(1) at kinds by (intro flight_inv_move) simp_all
  moreover have "result_inv api flight (goto n c (s\<lparr>cy_state := st\<rparr>))"
    using result_inv_move [OF I(2), of n c "cy_log s" st] at kinds by simp
  moreover have "log_inv (goto n c (s\<lparr>cy_state := st\<rparr>))"
    using log_inv_move [OF I(3), of n c st "cy_log s" "cy_group s"] c(2) st kinds by simp
  ultimately show ?thesis by (simp add: lookup_inv_def)
qed

text \<open>The function returns: by the source's error, or after the write of the entry.\<close>

lemma lookup_inv_return:
  assumes doc: "singleflight_documented api flight" and inv: "lookup_inv api flight s"
    and at: "at_call s n c" "fetching i c" "\<And>j t. c \<noteq> Fetched j t"
    and l: "set (cy_log s) \<subseteq> set l" "\<And>j. latest l j = latest (cy_log s) j" "(i, r) \<in> set l"
    and st: "cstore st = cstore (cy_state s)"
  shows "lookup_inv api flight (goto n (InDo i) (s\<lparr>cy_state := st, cy_group := sf_return api i r (cy_group s), cy_log := l\<rparr>))"
proof -
  from inv have I: "flight_inv api flight s" "result_inv api flight s" "log_inv s" by (simp_all add: lookup_inv_def)
  show ?thesis unfolding lookup_inv_def
    using flight_inv_return [OF doc I(1) at(1,2)] result_inv_return [OF doc I(1,2) at(1,2) l(1,3)]
      log_inv_move [OF I(3), of n "InDo i" st l] at(1,3) l(1,2) st by auto
qed

lemma lookup_inv_enter:
  assumes inv: "lookup_inv api flight s" and at: "at_call s n (Missed ctx i)"
    and g: "flight g = (flight (cy_group s))(i \<mapsto> insert n ns)" "\<And>m. sf_result api m g = sf_result api m (cy_group s)"
    and c: "c = Fetching ctx i \<and> flight (cy_group s) i = None \<and> ns = {} \<or> c = InDo i \<and> flight (cy_group s) i = Some ns"
  shows "lookup_inv api flight (goto n c (s\<lparr>cy_group := g\<rparr>))"
proof -
  from inv have I: "flight_inv api flight s" "result_inv api flight s" "log_inv s" by (simp_all add: lookup_inv_def)
  have "flight_inv api flight (goto n c (s\<lparr>cy_group := g\<rparr>))"
    using c by (intro flight_inv_enter [OF I(1,2) at g]) (auto simp: in_do_def)
  moreover have "result_inv api flight (goto n c (s\<lparr>cy_group := g\<rparr>))"
    using c by (intro result_inv_enter [OF I(2) at g]) auto
  moreover have "log_inv (goto n c (s\<lparr>cy_group := g\<rparr>))"
    using log_inv_move [OF I(3), of n c "cy_state s" "cy_log s" g] at c by auto
  ultimately show ?thesis by (simp add: lookup_inv_def)
qed

text \<open>A caller inside \<^verbatim>\<open>Do\<close> that neither enters nor returns.\<close>

lemma lookup_inv_inside:
  assumes inv: "lookup_inv api flight s" and n: "n < length (cy_calls s)"
    and kinds: "\<And>j. fetching j c \<longleftrightarrow> fetching j (cy_calls s ! n)" "\<And>j. in_do j (cy_calls s ! n) \<Longrightarrow> in_do j c"
      "\<And>j. cy_calls s ! n \<noteq> InDo j" "\<And>j r. cy_calls s ! n \<noteq> Answered j r" "\<And>j. c \<noteq> InDo j"
    and log: "set (cy_log s) \<subseteq> set l" "log_inv (goto n c (s\<lparr>cy_state := st, cy_log := l\<rparr>))"
  shows "lookup_inv api flight (goto n c (s\<lparr>cy_state := st, cy_log := l\<rparr>))"
proof -
  from inv have I: "flight_inv api flight s" "result_inv api flight s" by (simp_all add: lookup_inv_def)
  have "flight_inv api flight (goto n c (s\<lparr>cy_state := st, cy_log := l\<rparr>))"
    by (intro flight_inv_move) (use I(1) n kinds(1,2) in simp_all)
  moreover have "result_inv api flight (goto n c (s\<lparr>cy_state := st, cy_log := l\<rparr>))"
    by (rule result_inv_move [OF I(2) n kinds(3-5) log(1)])
  ultimately show ?thesis using log(2) by (simp add: lookup_inv_def)
qed

lemma lookup_inv_fetch:
  assumes inv: "lookup_inv api flight s" and at: "at_call s n (Fetching ctx i)"
  shows "lookup_inv api flight (goto n (Fetched i t) (s\<lparr>cy_state := (cy_state s)\<lparr>src := m\<rparr>, cy_log := cy_log s @ [(i, Inr t)]\<rparr>))"
proof -
  from inv have "flight_inv api flight s" "log_inv s" by (simp_all add: lookup_inv_def)
  from log_inv_fetch [OF this at, of "(cy_state s)\<lparr>src := m\<rparr>" t] at show ?thesis
    by (intro lookup_inv_inside [OF inv]) (auto simp: in_do_def)
qed

lemma lookup_inv_store:
  assumes inv: "lookup_inv api flight s" and at: "at_call s n (Fetched i t)"
    and st: "cs_cache (cstore st) = (cs_cache (cstore (cy_state s)))(i \<mapsto> e)" "ce_tenant e = t"
  shows "lookup_inv api flight (goto n (Cached i t) (s\<lparr>cy_state := st\<rparr>))"
proof -
  from inv have "flight_inv api flight s" "log_inv s" by (simp_all add: lookup_inv_def)
  from log_inv_store [OF this at st] at lookup_inv_inside [OF inv, of n "Cached i t" "cy_log s" st] show ?thesis
    by (auto simp: in_do_def)
qed

lemma lookup_inv_result:
  assumes inv: "lookup_inv api flight s" and at: "at_call s n (InDo i)" "sf_result api n (cy_group s) = Some r"
  shows "lookup_inv api flight (goto n (Answered i r) s)"
proof -
  from inv have I: "flight_inv api flight s" "result_inv api flight s" "log_inv s" by (simp_all add: lookup_inv_def)
  from result_inv_answer [OF I(1,2) at] at log_inv_move [OF I(3), of n "Answered i r" "cy_state s" "cy_log s" "cy_group s"]
  show ?thesis by (auto simp: lookup_inv_def)
qed

lemma lookup_inv_step:
  assumes doc: "singleflight_documented api flight" and "lookup_step api s s'" and inv: "lookup_inv api flight s"
  shows "lookup_inv api flight s'"
  using assms(2)
proof (cases rule: lookup_step.cases)
  case (call ctx i)
  have "result_inv api flight (s\<lparr>cy_calls := cy_calls s @ [Began ctx i]\<rparr>)"
    using inv unfolding lookup_inv_def by (elim conjE, rule_tac result_inv_transfer) (auto simp: nth_append less_Suc_eq)
  with inv call show ?thesis by (simp add: lookup_inv_def log_inv_call)
next
  case (read n ctx i)
  have "justified (cy_log s) (Read ctx i (cs_cache (cstore (cy_state s)) i))"
    using inv log_invD(2) [of s i] by (cases "cs_cache (cstore (cy_state s)) i") (auto simp: lookup_inv_def)
  with lookup_inv_outside [OF inv read(2), of _ "cy_state s"] read(1) show ?thesis by simp
next
  case (hit n ctx i e now c)
  then have "justified (cy_log s) (Read ctx i (Some e))"
    using inv log_invD(1) [of s "Read ctx i (Some e)"] nth_mem [of n "cy_calls s"] by (simp add: lookup_inv_def)
  with lookup_inv_outside [OF inv hit(2)] hit(1) show ?thesis by simp
next
  case (expired n ctx i e now c)
  with lookup_inv_outside [OF inv expired(2)] show ?thesis by simp
next
  case (absent n ctx i)
  with lookup_inv_outside [OF inv absent(2), of "Missed ctx i" "cy_state s"] show ?thesis by simp
next
  case (lead n ctx i g)
  with documented_lead [OF doc lead(3)] lookup_inv_enter [OF inv lead(2), of g "{}"] show ?thesis by simp
next
  case (follow n ctx i g)
  with documented_follow [OF doc follow(3)] lookup_inv_enter [OF inv follow(2), of g] show ?thesis by auto
next
  case (fetch_error n ctx i err m)
  with lookup_inv_return [OF doc inv fetch_error(2), of i "cy_log s @ [(i, Inl err)]" "Inl err" "(cy_state s)\<lparr>src := m\<rparr>"]
  show ?thesis by auto
next
  case (store n i t now c e)
  with lookup_inv_store [OF inv store(2), of _ e] show ?thesis by simp
next
  case (return n i t)
  then have "justified (cy_log s) (Cached i t)"
    using inv log_invD(1) [of s "Cached i t"] nth_mem [of n "cy_calls s"] by (simp add: lookup_inv_def)
  with lookup_inv_return [OF doc inv return(2), of i "cy_log s" "Inr t" "cy_state s"] return(1) show ?thesis by simp
next
  case (source_changes m)
  with inv show ?thesis by (simp add: lookup_inv_def result_inv_def log_inv_def)
qed (use lookup_inv_fetch [OF inv] lookup_inv_result [OF inv] in blast)+

definition idle_group :: "'g group_api \<Rightarrow> ('g \<Rightarrow> string \<rightharpoonup> nat set) \<Rightarrow> 'g \<Rightarrow> bool" where
  "idle_group api flight g \<longleftrightarrow> flight g = Map.empty \<and> (\<forall>n. sf_result api n g = None)"

lemma lookup_inv_reachable:
  assumes "singleflight_documented api flight" and "idle_group api flight g"
    and "lookup_steps api (new_cache_system source ttl m c g) s"
  shows "lookup_inv api flight s"
  using assms(3)
proof (induction rule: rtranclp_induct)
  case base
  show ?case using assms(2)
    by (simp add: lookup_inv_def new_cache_system_def idle_group_def flight_inv_def result_inv_def log_inv_def
        runners_def NewCachedStore_def)
qed (rule lookup_inv_step [OF assms(1)])


section \<open>What concurrent callers get\<close>

text \<open>
  C9. Concurrent lookups. For any source, any number of goroutines inside \<^verbatim>\<open>Get\<close> and any
  interleaving, with a \<^verbatim>\<open>singleflight.Group\<close> that behaves as documented: at most one goroutine
  at a time asks the source for a tenant; every answer is one the source gave for that very
  identifier; a goroutine that waits in \<^verbatim>\<open>Do\<close> has its result ready or another one is running
  the function for its tenant; and, whenever no answer is about to be stored, the cache holds
  exactly the last tenant the source returned: an older answer never replaces a newer one,
  and errors are not cached.
\<close>

theorem concurrent_lookups_sound:
  assumes "singleflight_documented api flight" and "idle_group api flight g"
    and "lookup_steps api (new_cache_system source ttl m c g) s"
  shows "(\<forall>i a b. a \<in> runners (cy_calls s) i \<and> b \<in> runners (cy_calls s) i \<longrightarrow> a = b) \<and>
    (\<forall>i r. Answered i r \<in> set (cy_calls s) \<longrightarrow> (i, r) \<in> set (cy_log s)) \<and>
    (\<forall>n i. at_call s n (InDo i) \<longrightarrow> sf_result api n (cy_group s) \<noteq> None \<or> runners (cy_calls s) i \<noteq> {}) \<and>
    (\<forall>i. (\<forall>t. Fetched i t \<notin> set (cy_calls s)) \<longrightarrow>
      map_option ce_tenant (cs_cache (cstore (cy_state s)) i) = latest (cy_log s) i)"
proof (intro conjI)
  from lookup_inv_reachable [OF assms]
  have inv: "flight_inv api flight s" "result_inv api flight s" "log_inv s" by (simp_all add: lookup_inv_def)
  show "\<forall>i a b. a \<in> runners (cy_calls s) i \<and> b \<in> runners (cy_calls s) i \<longrightarrow> a = b"
  proof (intro allI impI, elim conjE)
    fix i a b assume "a \<in> runners (cy_calls s) i" and "b \<in> runners (cy_calls s) i"
    with flight_invD(1,2) [OF inv(1), of i] show "a = b" by (cases "flight (cy_group s) i") auto
  qed
  show "\<forall>i r. Answered i r \<in> set (cy_calls s) \<longrightarrow> (i, r) \<in> set (cy_log s)"
    using log_invD(1) [OF inv(3)] by fastforce
  show "\<forall>n i. at_call s n (InDo i) \<longrightarrow> sf_result api n (cy_group s) \<noteq> None \<or> runners (cy_calls s) i \<noteq> {}"
    using inv(2) flight_invD(2) [OF inv(1)] unfolding result_inv_def by blast
  show "\<forall>i. (\<forall>t. Fetched i t \<notin> set (cy_calls s)) \<longrightarrow>
      map_option ce_tenant (cs_cache (cstore (cy_state s)) i) = latest (cy_log s) i"
    using log_invD(3) [OF inv(3)] by blast
qed

section \<open>Schedules\<close>

text \<open>The next step of one caller, as a function; a caller that is blocked or done stays.\<close>

definition advance :: "'g group_api \<Rightarrow> nat \<Rightarrow> ('s, 'g) cache_system \<Rightarrow> ('s, 'g) cache_system" where
  "advance api n s =
     (let st = cy_state s in
      if n < length (cy_calls s) then
        (case cy_calls s ! n of
           Began ctx i \<Rightarrow> goto n (Read ctx i (cs_cache (cstore st) i)) s
         | Read ctx i None \<Rightarrow> goto n (Missed ctx i) s
         | Read ctx i (Some e) \<Rightarrow>
             (let (now, c) = time_Now (clock st) in
              goto n (if Time_Before now (ce_expiresAt e) then Answered i (Inr (ce_tenant e)) else Missed ctx i)
                (s\<lparr>cy_state := st\<lparr>clock := c\<rparr>\<rparr>))
         | Missed ctx i \<Rightarrow>
             (let (lead, g) = sf_enter api i n (cy_group s) in
              goto n (if lead then Fetching ctx i else InDo i) (s\<lparr>cy_group := g\<rparr>))
         | Fetching ctx i \<Rightarrow>
             (case Store_Get (cs_source (cstore st)) ctx i (src st) of
                (Inl err, m) \<Rightarrow> goto n (InDo i) (s\<lparr>cy_state := st\<lparr>src := m\<rparr>,
                  cy_group := sf_return api i (Inl err) (cy_group s), cy_log := cy_log s @ [(i, Inl err)]\<rparr>)
              | (Inr t, m) \<Rightarrow> goto n (Fetched i t) (s\<lparr>cy_state := st\<lparr>src := m\<rparr>, cy_log := cy_log s @ [(i, Inr t)]\<rparr>))
         | Fetched i t \<Rightarrow>
             (let (now, c) = time_Now (clock st);
                  e = \<lparr>ce_tenant = t, ce_expiresAt = Time_Add now (cs_ttl (cstore st))\<rparr> in
              goto n (Cached i t) (s\<lparr>cy_state := st\<lparr>clock := c,
                cstore := (cstore st)\<lparr>cs_cache := (cs_cache (cstore st))(i \<mapsto> e)\<rparr>\<rparr>\<rparr>))
         | Cached i t \<Rightarrow> goto n (InDo i) (s\<lparr>cy_group := sf_return api i (Inr t) (cy_group s)\<rparr>)
         | InDo i \<Rightarrow> (case sf_result api n (cy_group s) of None \<Rightarrow> s | Some r \<Rightarrow> goto n (Answered i r) s)
         | Answered i r \<Rightarrow> s)
      else s)"

lemma advance_step: "lookup_steps api s (advance api n s)"
proof (cases "n < length (cy_calls s)")
  case n: True
  show ?thesis
  proof (cases "cy_calls s ! n")
    case (Began ctx i)
    with lookup_step.read [of n s ctx i api] n show ?thesis by (simp add: advance_def r_into_rtranclp)
  next
    case (Read ctx i x)
    obtain now c where now: "time_Now (clock (cy_state s)) = (now, c)" by fastforce
    with Read n lookup_step.absent [of n s ctx i api] lookup_step.hit [of n s ctx i _ now c api]
      lookup_step.expired [of n s ctx i _ now c api]
    show ?thesis by (cases x) (auto simp: advance_def Let_def intro!: r_into_rtranclp)
  next
    case (Missed ctx i)
    obtain l g where "sf_enter api i n (cy_group s) = (l, g)" by fastforce
    with Missed n lookup_step.lead [of n s ctx i api g] lookup_step.follow [of n s ctx i api g]
    show ?thesis by (cases l) (auto simp: advance_def intro!: r_into_rtranclp)
  next
    case (Fetching ctx i)
    obtain x m where "Store_Get (cs_source (cstore (cy_state s))) ctx i (src (cy_state s)) = (x, m)" by fastforce
    with Fetching n lookup_step.fetch_error [of n s ctx i _ m api] lookup_step.fetch [of n s ctx i _ m api]
    show ?thesis by (cases x) (auto simp: advance_def intro!: r_into_rtranclp)
  next
    case (Fetched i t)
    with n lookup_step.store [of n s i t _ _ _ api] show ?thesis
      by (auto simp: advance_def Let_def split: prod.split intro!: r_into_rtranclp)
  next
    case (Cached i t)
    with n lookup_step.return [of n s i t api] show ?thesis by (auto simp: advance_def intro!: r_into_rtranclp)
  next
    case (InDo i)
    with n lookup_step.result [of n s i api] show ?thesis
      by (auto simp: advance_def split: option.split intro!: r_into_rtranclp)
  qed (simp add: advance_def Let_def)
qed (simp add: advance_def Let_def)

lemma schedule_steps: "lookup_steps api s (fold (advance api) ns s)"
proof (induction ns arbitrary: s)
  case (Cons n ns)
  from rtranclp_trans [OF advance_step Cons] show ?case by simp
qed simp


text \<open>A group as documented: the callers of the execution in flight per key, and the results.\<close>

type_synonym demo_group = "(string \<rightharpoonup> nat set) \<times> (nat \<Rightarrow> addr result option)"

definition demo_group_api :: "demo_group group_api" where
  "demo_group_api = \<lparr>
     sf_enter = (\<lambda>k n (f, r). case f k of None \<Rightarrow> (True, (f(k \<mapsto> {n}), r)) | Some ns \<Rightarrow> (False, (f(k \<mapsto> insert n ns), r))),
     sf_return = (\<lambda>k x (f, r). (f(k := None), \<lambda>m. if f k \<noteq> None \<and> m \<in> the (f k) then Some x else r m)),
     sf_result = (\<lambda>m (f, r). r m)\<rparr>"

lemma demo_group_documented:
  "singleflight_documented demo_group_api fst" "idle_group demo_group_api fst (Map.empty, \<lambda>_. None)"
  by (auto simp: singleflight_documented_def idle_group_def demo_group_api_def split: option.splits)

definition two_callers :: "(mem_state, demo_group) cache_system" where
  "two_callers = (new_cache_system MemoryStore_Store Second demo_store (\<lambda>n. Time (int n)) (Map.empty, \<lambda>_. None))
     \<lparr>cy_calls := [Began Background ''acme'', Began Background ''acme'']\<rparr>"

lemma two_callers_reachable:
  "lookup_steps demo_group_api
     (new_cache_system MemoryStore_Store Second demo_store (\<lambda>n. Time (int n)) (Map.empty, \<lambda>_. None)) two_callers"
proof -
  let ?s = "new_cache_system MemoryStore_Store Second demo_store (\<lambda>n. Time (int n)) (Map.empty, \<lambda>_. None)
    :: (mem_state, demo_group) cache_system"
  let ?s1 = "?s\<lparr>cy_calls := [Began Background ''acme'']\<rparr>"
  have "lookup_step demo_group_api ?s ?s1" and "lookup_step demo_group_api ?s1 two_callers"
    using lookup_step.call [of demo_group_api ?s Background "''acme''"]
      lookup_step.call [of demo_group_api ?s1 Background "''acme''"]
    by (simp_all add: new_cache_system_def two_callers_def)
  then show ?thesis by simp
qed

lemmas schedule_simps = advance_def two_callers_def new_cache_system_def NewCachedStore_def demo_group_api_def
  MemoryStore_Store_def MemoryStore_Get_def demo_store_def demo_heap_def alloc_struct_def time_Now_def Let_def

text \<open>Both miss; the second joins the first one's call of the source.\<close>

theorem concurrent_lookups_sound_witness:
  "\<exists>s p. lookup_steps demo_group_api
       (new_cache_system MemoryStore_Store Second demo_store (\<lambda>n. Time (int n)) (Map.empty, \<lambda>_. None)) s \<and>
     cy_calls s = [Answered ''acme'' (Inr p), Answered ''acme'' (Inr p)] \<and> cy_log s = [(''acme'', Inr p)] \<and>
     map_option ce_tenant (cs_cache (cstore (cy_state s)) ''acme'') = Some p"
proof -
  define s where "s = fold (advance demo_group_api) [0, 1, 0, 1, 0, 1, 0, 0, 0, 0, 1] two_callers"
  have run: "lookup_steps demo_group_api
      (new_cache_system MemoryStore_Store Second demo_store (\<lambda>n. Time (int n)) (Map.empty, \<lambda>_. None)) s"
    unfolding s_def using rtranclp_trans [OF two_callers_reachable schedule_steps] .
  have calls: "cy_calls s = [Answered ''acme'' (Inr 2), Answered ''acme'' (Inr 2)]" and log: "cy_log s = [(''acme'', Inr 2)]"
    by (simp_all add: s_def schedule_simps)
  from concurrent_lookups_sound [OF demo_group_documented run]
  have "map_option ce_tenant (cs_cache (cstore (cy_state s)) ''acme'') = latest (cy_log s) ''acme''"
    by (simp add: calls)
  then have "map_option ce_tenant (cs_cache (cstore (cy_state s)) ''acme'') = Some 2"
    unfolding log by (simp add: latest_def)
  with run calls log show ?thesis by blast
qed

text \<open>
  The function given to \<^verbatim>\<open>Do\<close> does not look into the cache again. A caller that missed before
  the entry was stored and enters \<^verbatim>\<open>Do\<close> after the first execution has returned asks the source
  once more, although the entry it replaces is live.
\<close>

lemma concurrent_misses_fetch_twice:
  "\<exists>s p q. lookup_steps demo_group_api
       (new_cache_system MemoryStore_Store Second demo_store (\<lambda>n. Time (int n)) (Map.empty, \<lambda>_. None)) s \<and>
     cy_calls s = [Answered ''acme'' (Inr p), Answered ''acme'' (Inr q)] \<and>
     cy_log s = [(''acme'', Inr p), (''acme'', Inr q)]"
proof -
  let ?s = "fold (advance demo_group_api) [0, 1, 0, 1, 0, 0, 0, 0, 0, 1, 1, 1, 1, 1] two_callers"
  have "lookup_steps demo_group_api
      (new_cache_system MemoryStore_Store Second demo_store (\<lambda>n. Time (int n)) (Map.empty, \<lambda>_. None)) ?s"
    using rtranclp_trans [OF two_callers_reachable schedule_steps] .
  moreover have "cy_calls ?s = [Answered ''acme'' (Inr 2), Answered ''acme'' (Inr 3)]"
    and "cy_log ?s = [(''acme'', Inr 2), (''acme'', Inr 3)]"
    by (simp_all add: schedule_simps)
  ultimately show ?thesis by blast
qed


section \<open>A caller that nobody interrupts\<close>

text \<open>
  With no execution in flight for its tenant, a caller that runs alone through its steps returns
  and gets the result, and leaves the cache and the source, of the sequential \<^verbatim>\<open>Get\<close>.
\<close>

abbreviation with_last :: "('s, 'g) cache_system \<Rightarrow> lookup list \<Rightarrow> lookup \<Rightarrow> ('s, 'g) cache_system" where
  "with_last s cs c \<equiv> s\<lparr>cy_calls := cs @ [c]\<rparr>"

lemma advance_last:
  "advance api (length cs) (with_last s cs (Began ctx i)) = with_last s cs (Read ctx i (cs_cache (cstore (cy_state s)) i))"
  "advance api (length cs) (with_last s cs (Read ctx i None)) = with_last s cs (Missed ctx i)"
  "time_Now (clock (cy_state s)) = (now, c) \<Longrightarrow> advance api (length cs) (with_last s cs (Read ctx i (Some e))) =
     with_last (s\<lparr>cy_state := (cy_state s)\<lparr>clock := c\<rparr>\<rparr>) cs
       (if Time_Before now (ce_expiresAt e) then Answered i (Inr (ce_tenant e)) else Missed ctx i)"
  "sf_enter api i (length cs) (cy_group s) = (True, g) \<Longrightarrow> advance api (length cs) (with_last s cs (Missed ctx i)) =
     with_last (s\<lparr>cy_group := g\<rparr>) cs (Fetching ctx i)"
  "sf_result api (length cs) (cy_group s) = Some r \<Longrightarrow> advance api (length cs) (with_last s cs (InDo i)) =
     with_last s cs (Answered i r)"
  by (simp_all add: advance_def Let_def)

lemma advance_last_fetch:
  "Store_Get (cs_source (cstore (cy_state s))) ctx i (src (cy_state s)) = (Inl err, m) \<Longrightarrow>
     advance api (length cs) (with_last s cs (Fetching ctx i)) =
     with_last (s\<lparr>cy_state := (cy_state s)\<lparr>src := m\<rparr>, cy_group := sf_return api i (Inl err) (cy_group s),
       cy_log := cy_log s @ [(i, Inl err)]\<rparr>) cs (InDo i)"
  "Store_Get (cs_source (cstore (cy_state s))) ctx i (src (cy_state s)) = (Inr t, m) \<Longrightarrow>
     advance api (length cs) (with_last s cs (Fetching ctx i)) =
     with_last (s\<lparr>cy_state := (cy_state s)\<lparr>src := m\<rparr>, cy_log := cy_log s @ [(i, Inr t)]\<rparr>) cs (Fetched i t)"
  "time_Now (clock (cy_state s)) = (now, c) \<Longrightarrow> advance api (length cs) (with_last s cs (Fetched i t)) =
     with_last (s\<lparr>cy_state := (cy_state s)\<lparr>clock := c, cstore := (cstore (cy_state s))\<lparr>cs_cache :=
       (cs_cache (cstore (cy_state s)))(i \<mapsto> \<lparr>ce_tenant = t, ce_expiresAt = Time_Add now (cs_ttl (cstore (cy_state s)))\<rparr>)\<rparr>\<rparr>\<rparr>)
       cs (Cached i t)"
  "advance api (length cs) (with_last s cs (Cached i t)) =
     with_last (s\<lparr>cy_group := sf_return api i (Inr t) (cy_group s)\<rparr>) cs (InDo i)"
  by (simp_all add: advance_def Let_def)

lemma enter_alone:
  assumes doc: "singleflight_documented api flight" and "flight g i = None"
  obtains g' where "sf_enter api i n g = (True, g')" and "sf_result api n (sf_return api i r g') = Some r"
proof -
  obtain l g' where enter: "sf_enter api i n g = (l, g')" by fastforce
  with documented_enter(1) [OF doc, where g = g and k = i and n = n] assms(2)
  have l: "l" and "flight g' = (flight g)(i \<mapsto> {n})" by auto
  then have "flight g' i = Some {n}" by simp
  from documented_return(2) [OF doc this, where m = n] enter l that show thesis by simp
qed

lemma fill_uninterrupted:
  assumes doc: "singleflight_documented api flight" and "flight (cy_group s) i = None"
    and fill: "CachedStore_fill ctx i (cy_state s) = (r, st)"
  shows "\<exists>k g l. (advance api (length cs) ^^ k) (with_last s cs (Missed ctx i)) =
    with_last (s\<lparr>cy_state := st, cy_group := g, cy_log := l\<rparr>) cs (Answered i r)"
proof -
  obtain g where enter: "sf_enter api i (length cs) (cy_group s) = (True, g)"
    and result: "sf_result api (length cs) (sf_return api i r g) = Some r"
    using enter_alone [OF doc assms(2)] by blast
  obtain x m where src: "Store_Get (cs_source (cstore (cy_state s))) ctx i (src (cy_state s)) = (x, m)" by fastforce
  obtain now c where now: "time_Now (clock (cy_state s)) = (now, c)" by fastforce
  have "(advance api (length cs) ^^ (case x of Inl e \<Rightarrow> 3 | Inr t \<Rightarrow> 5)) (with_last s cs (Missed ctx i)) =
      with_last (s\<lparr>cy_state := st, cy_group := sf_return api i r g, cy_log := cy_log s @ [(i, r)]\<rparr>) cs (Answered i r)"
    using fill src now result
    by (cases x) (auto simp: CachedStore_fill_def numeral_eq_Suc funpow_swap1 advance_last(4) [OF enter]
        advance_last(5) advance_last_fetch)
  then show ?thesis by blast
qed

lemma lookup_uninterrupted:
  assumes doc: "singleflight_documented api flight" and "flight (cy_group s) i = None"
    and get: "CachedStore_Get run_now ctx i (cy_state s) = (r, st)"
  shows "\<exists>k g l. (advance api (length (cy_calls s)) ^^ k) (with_last s (cy_calls s) (Began ctx i)) =
    with_last (s\<lparr>cy_state := st, cy_group := g, cy_log := l\<rparr>) (cy_calls s) (Answered i r)"
proof -
  let ?n = "length (cy_calls s)" and ?at = "with_last s (cy_calls s)"
  obtain now c where now: "time_Now (clock (cy_state s)) = (now, c)" by fastforce
  have missed: ?thesis
    if "(advance api ?n ^^ 2) (?at (Began ctx i)) = with_last (s\<lparr>cy_state := st1\<rparr>) (cy_calls s) (Missed ctx i)"
      and "CachedStore_fill ctx i st1 = (r, st)" for st1
  proof -
    have "flight (cy_group (s\<lparr>cy_state := st1\<rparr>)) i = None" using assms(2) by simp
    from fill_uninterrupted [OF doc this, of ctx r st "cy_calls s"] that(2) obtain k g l where
      "(advance api ?n ^^ k) (with_last (s\<lparr>cy_state := st1\<rparr>) (cy_calls s) (Missed ctx i)) =
       with_last (s\<lparr>cy_state := st, cy_group := g, cy_log := l\<rparr>) (cy_calls s) (Answered i r)" by auto
    with that(1) have "(advance api ?n ^^ (k + 2)) (?at (Began ctx i)) =
       with_last (s\<lparr>cy_state := st, cy_group := g, cy_log := l\<rparr>) (cy_calls s) (Answered i r)"
      by (simp only: funpow_add comp_apply)
    then show ?thesis by blast
  qed
  show ?thesis
  proof (cases "cs_cache (cstore (cy_state s)) i")
    case None
    with get missed [of "cy_state s"] show ?thesis by (simp add: CachedStore_Get_def numeral_2_eq_2 advance_last)
  next
    case (Some e)
    show ?thesis
    proof (cases "Time_Before now (ce_expiresAt e)")
      case True
      with get Some now have "(advance api ?n ^^ 2) (?at (Began ctx i)) =
          with_last (s\<lparr>cy_state := st, cy_group := cy_group s, cy_log := cy_log s\<rparr>) (cy_calls s) (Answered i r)"
        by (auto simp: CachedStore_Get_def numeral_2_eq_2 advance_last)
      then show ?thesis by blast
    next
      case False
      with get Some now missed [of "(cy_state s)\<lparr>clock := c\<rparr>"] show ?thesis by (simp add: CachedStore_Get_def numeral_2_eq_2 advance_last)
    qed
  qed
qed

end
