(* ===== verification/Cached_Progress.thy ===== *)
theory Cached_Progress
  imports Cached_Concurrent
begin

text \<open>
  What those who build on concurrent lookups (\<^verbatim>\<open>src/store/cached.go\<close>) need to know of the
  deterministic step of one caller: what it does to the source and to the caller's own place,
  and that, whatever the interleaving so far, some caller that is not done can go on, so that
  lookups never block each other for good.
\<close>

section \<open>One caller's step\<close>

text \<open>What a caller's step does to the source and the log.\<close>

lemma advance_source:
  "src (cy_state (advance api n s)) = src (cy_state s) \<and> cy_log (advance api n s) = cy_log s \<or>
   (\<exists>ctx i x m. Store_Get (cs_source (cstore (cy_state s))) ctx i (src (cy_state s)) = (x, m) \<and>
      src (cy_state (advance api n s)) = m \<and> cy_log (advance api n s) = cy_log s @ [(i, x)])"
  by (auto simp: advance_def Let_def time_Now_def split: lookup.split option.split prod.split sum.split) 

lemma advance_params [simp]:
  "cs_source (cstore (cy_state (advance api n s))) = cs_source (cstore (cy_state s))"
  "length (cy_calls (advance api n s)) = length (cy_calls s)"
  by (auto simp: advance_def Let_def time_Now_def split: lookup.split option.split prod.split sum.split)

section \<open>Progress\<close>

fun lookup_id :: "lookup \<Rightarrow> TenantID" where
  "lookup_id (Began ctx i) = i"
| "lookup_id (Read ctx i e) = i"
| "lookup_id (Missed ctx i) = i"
| "lookup_id (Fetching ctx i) = i"
| "lookup_id (Fetched i t) = i"
| "lookup_id (Cached i t) = i"
| "lookup_id (InDo i) = i"
| "lookup_id (Answered i r) = i"

text \<open>How many steps of its own a caller has ahead of it at most.\<close>

fun remaining :: "lookup \<Rightarrow> nat" where
  "remaining (Began ctx i) = 7"
| "remaining (Read ctx i e) = 6"
| "remaining (Missed ctx i) = 5"
| "remaining (Fetching ctx i) = 4"
| "remaining (Fetched i t) = 3"
| "remaining (Cached i t) = 2"
| "remaining (InDo i) = 1"
| "remaining (Answered i r) = 0"

lemma remaining_0: "remaining c = 0 \<longleftrightarrow> (\<exists>i r. c = Answered i r)"
  by (cases c) auto

text \<open>A caller's step changes its own place only, towards the end, unless it is blocked.\<close>

lemma advance_calls:
  assumes "n < length (cy_calls s)"
  shows "\<exists>c. cy_calls (advance api n s) = (cy_calls s)[n := c] \<and> lookup_id c = lookup_id (cy_calls s ! n) \<and>
    (remaining c < remaining (cy_calls s ! n) \<or>
     c = cy_calls s ! n \<and> advance api n s = s \<and>
       (remaining c = 0 \<or> (\<exists>i. c = InDo i \<and> sf_result api n (cy_group s) = None)))"
proof (cases "cy_calls s ! n")
  case (Read ctx i x)
  let ?c = "case x of None \<Rightarrow> Missed ctx i
    | Some e \<Rightarrow> (if Time_Before (fst (time_Now (clock (cy_state s)))) (ce_expiresAt e) then Answered i (Inr (ce_tenant e)) else Missed ctx i)"
  have "cy_calls (advance api n s) = (cy_calls s)[n := ?c]"
    using Read assms by (auto simp: advance_def Let_def split: option.split prod.split)
  then show ?thesis using Read by (intro exI [of _ ?c]) (auto split: option.split)
next
  case (Answered i r)
  with assms have "(cy_calls s)[n := Answered i r] = cy_calls s" using list_update_id [of "cy_calls s" n] by simp
  with Answered assms show ?thesis by (auto simp: advance_def Let_def intro!: exI [of _ "Answered i r"])
next
  case (InDo i)
  with assms have "(cy_calls s)[n := InDo i] = cy_calls s" using list_update_id [of "cy_calls s" n] by simp
  with InDo assms show ?thesis
    by (cases "sf_result api n (cy_group s)") (auto simp: advance_def Let_def intro: exI [of _ "InDo i"])
qed (use assms in \<open>auto simp: advance_def Let_def time_Now_def split: prod.split sum.split\<close>)

lemma fetching_remaining: "fetching i c \<Longrightarrow> 1 < remaining c"
  by (cases c) auto

text \<open>Some caller that is not done can go on.\<close>

lemma lookups_progress:
  assumes inv: "lookup_inv api flight s" and n: "n < length (cy_calls s)" "remaining (cy_calls s ! n) > 0"
  shows "\<exists>k < length (cy_calls s). \<exists>c. cy_calls (advance api k s) = (cy_calls s)[k := c] \<and>
    lookup_id c = lookup_id (cy_calls s ! k) \<and> remaining c < remaining (cy_calls s ! k)"
proof (cases "\<exists>i. cy_calls s ! n = InDo i \<and> sf_result api n (cy_group s) = None")
  case False
  with advance_calls [OF n(1), of api] n(2) show ?thesis using n(1) by fastforce
next
  case True
  then obtain i where "at_call s n (InDo i)" and "sf_result api n (cy_group s) = None" using n(1) by auto
  with inv obtain ns where "flight (cy_group s) i = Some ns" unfolding lookup_inv_def result_inv_def by blast
  with inv obtain k where "k \<in> runners (cy_calls s) i"
    using flight_invD(2) [of api flight s i ns] by (auto simp: lookup_inv_def)
  then have k: "k < length (cy_calls s)" "fetching i (cy_calls s ! k)" by (auto simp: runners_def)
  with advance_calls [OF k(1), of api] fetching_remaining [OF k(2)] show ?thesis by fastforce
qed

end
