(* ===== verification/Cached_Tenants.thy ===== *)
theory Cached_Tenants
  imports Cached_Progress
begin

text \<open>
  Tenants with fixed identifiers and roles behind a cache that any number of goroutines use
  (\<^verbatim>\<open>src/store/memory.go\<close>, \<^verbatim>\<open>src/store/cached.go\<close>), as the servers create them: what
  lookups return, while only the states of the tenants change. \<open>roles\<close> are the tenants that were created, with their roles.
\<close>

section \<open>Seeded tenants\<close>

text \<open>A tenant as the seeds made it but for its state.\<close>

definition seeded :: "(TenantID \<rightharpoonup> Role list) \<Rightarrow> Heap \<Rightarrow> TenantID \<Rightarrow> addr \<Rightarrow> bool" where
  "seeded roles h i t \<longleftrightarrow> t < next_addr h \<and> tID (deref h t) = i \<and> roles i = Some (tRoles (deref h t))"

definition log_true :: "(TenantID \<rightharpoonup> Role list) \<Rightarrow> Heap \<Rightarrow> (TenantID \<times> addr result) list \<Rightarrow> bool" where
  "log_true roles h log \<longleftrightarrow>
     (\<forall>(i, x) \<in> set log. case x of Inl e \<Rightarrow> roles i = None | Inr t \<Rightarrow> seeded roles h i t)"

definition tenants_ok :: "(TenantID \<rightharpoonup> Role list) \<Rightarrow> (mem_state, 'g) cache_system \<Rightarrow> bool" where
  "tenants_ok roles c \<longleftrightarrow> cs_source (cstore (cy_state c)) = MemoryStore_Store \<and> ms_inv (src (cy_state c)) \<and>
     (\<forall>i. map_option tRoles (ms_view (src (cy_state c)) i) = roles i) \<and>
     log_true roles (heap (src (cy_state c))) (cy_log c)"

lemma log_trueD:
  assumes "log_true roles h log"
  shows "(i, Inr t) \<in> set log \<Longrightarrow> seeded roles h i t" and "(i, Inl e) \<in> set log \<Longrightarrow> roles i = None"
  using assms by (force simp: log_true_def)+

lemma log_true_snoc:
  "log_true roles h (log @ [(i, x)]) \<longleftrightarrow>
     log_true roles h log \<and> (case x of Inl e \<Rightarrow> roles i = None | Inr t \<Rightarrow> seeded roles h i t)"
  by (auto simp: log_true_def)

text \<open>Neither lookups nor changes of state touch what \<open>seeded\<close> says of a struct.\<close>

definition same_identities :: "Heap \<Rightarrow> Heap \<Rightarrow> bool" where
  "same_identities h h' \<longleftrightarrow> next_addr h \<le> next_addr h' \<and> arrays h' = arrays h \<and>
     (\<forall>q < next_addr h. sID (structs h' q) = sID (structs h q) \<and> sRoles (structs h' q) = sRoles (structs h q))"

lemma seeded_frame: "same_identities h h' \<Longrightarrow> seeded roles h i t \<Longrightarrow> seeded roles h' i t"
  by (auto simp: same_identities_def seeded_def deref_def struct_value_def slice_roles_def split: option.splits)

lemma log_true_frame: "same_identities h h' \<Longrightarrow> log_true roles h log \<Longrightarrow> log_true roles h' log"
  unfolding log_true_def using seeded_frame by (fastforce split: sum.splits)

lemma tenants_ok_log: "tenants_ok roles c \<Longrightarrow> log_true roles (heap (src (cy_state c))) (cy_log c)"
  by (simp add: tenants_ok_def)

lemma tenants_ok_cong:
  assumes "tenants_ok roles c" and "cs_source (cstore (cy_state c')) = cs_source (cstore (cy_state c))"
    and "src (cy_state c') = src (cy_state c)" and "cy_log c' = cy_log c"
  shows "tenants_ok roles c'"
  using assms by (simp add: tenants_ok_def)

lemma tenants_ok_set_state:
  assumes "tenants_ok roles c" and set: "MemoryStore_SetState ctx i st (src (cy_state c)) = (u, m)"
  shows "tenants_ok roles (c\<lparr>cy_state := (cy_state c)\<lparr>src := m\<rparr>\<rparr>)"
proof -
  let ?m = "src (cy_state c)"
  from assms(1) have ok: "ms_inv ?m" "cs_source (cstore (cy_state c)) = MemoryStore_Store"
    "\<And>j. map_option tRoles (ms_view ?m j) = roles j" by (simp_all add: tenants_ok_def)
  have "same_identities (heap ?m) (heap m)"
    using set by (auto simp: same_identities_def MemoryStore_SetState_def heap_simps split: option.splits)
  from log_true_frame [OF this tenants_ok_log [OF assms(1)]] have log: "log_true roles (heap m) (cy_log c)" .
  note now = ms_setState_correct [OF ok(1) set]
  have "map_option tRoles (ms_view m j) = map_option tRoles (ms_view ?m j)" for j
    using now(2) by (auto split: option.splits)
  with now(1) ok log show ?thesis by (simp add: tenants_ok_def)
qed

lemma tenants_ok_advance:
  assumes "tenants_ok roles c"
  shows "tenants_ok roles (advance api n c)"
  using advance_source [of api n c]
proof (elim disjE exE conjE)
  fix ctx i x m
  let ?m = "src (cy_state c)"
  assume "Store_Get (cs_source (cstore (cy_state c))) ctx i ?m = (x, m)"
    and new: "src (cy_state (advance api n c)) = m" "cy_log (advance api n c) = cy_log c @ [(i, x)]"
  moreover from assms have ok: "ms_inv ?m" "cs_source (cstore (cy_state c)) = MemoryStore_Store"
    "\<And>j. map_option tRoles (ms_view ?m j) = roles j" by (simp_all add: tenants_ok_def)
  ultimately have get: "MemoryStore_Get ctx i ?m = (x, m)" by (simp add: MemoryStore_Store_def)
  note now = ms_get_correct [OF ok(1) get]
  have "same_identities (heap ?m) (heap m)" using now(5,6,7) by (simp add: same_identities_def)
  from log_true_frame [OF this tenants_ok_log [OF assms]] have log: "log_true roles (heap m) (cy_log c)" .
  have "case x of Inl e \<Rightarrow> roles i = None | Inr t \<Rightarrow> seeded roles (heap m) i t"
  proof (cases x)
    case (Inl e)
    with get have "ms_view ?m i = None" by (auto simp: MemoryStore_Get_def ms_view_def split: option.splits prod.splits)
    with ok(3) [of i] Inl show ?thesis by simp
  next
    case (Inr t)
    with now(4) [of t] ok(3) [of i] show ?thesis by (auto simp: seeded_def deref_def struct_value_def)
  qed
  with log have "log_true roles (heap m) (cy_log c @ [(i, x)])" by (simp add: log_true_snoc)
  with now(1,2) ok new show ?thesis by (simp add: tenants_ok_def)
qed (rule tenants_ok_cong [OF assms], simp_all)

section \<open>Lookups go on\<close>

text \<open>The log grows, calls are added and keep their identifier.\<close>

definition later :: "(mem_state, 'g) cache_system \<Rightarrow> (mem_state, 'g) cache_system \<Rightarrow> bool" where
  "later c c' \<longleftrightarrow> set (cy_log c) \<subseteq> set (cy_log c') \<and> length (cy_calls c) \<le> length (cy_calls c') \<and>
     (\<forall>n < length (cy_calls c). lookup_id (cy_calls c' ! n) = lookup_id (cy_calls c ! n) \<and>
        remaining (cy_calls c' ! n) \<le> remaining (cy_calls c ! n))"

lemma later_advance: "later c (advance api n c)"
proof (cases "n < length (cy_calls c)")
  case True
  from advance_calls [OF this, of api] obtain d where
    "cy_calls (advance api n c) = (cy_calls c)[n := d]" "lookup_id d = lookup_id (cy_calls c ! n)"
    "remaining d \<le> remaining (cy_calls c ! n)" by (metis less_imp_le order_refl)
  moreover have "set (cy_log c) \<subseteq> set (cy_log (advance api n c))" using advance_source [of api n c] by auto
  ultimately show ?thesis using True by (auto simp: later_def nth_list_update)
next
  case False
  then show ?thesis by (simp add: later_def advance_def Let_def)
qed

end
