(* ===== verification/Middleware_Concurrent.thy ===== *)
theory Middleware_Concurrent
  imports Middleware Cached_Tenants
begin

text \<open>
  Requests in parallel through the middleware (\<^verbatim>\<open>src/middleware/nethttp/nethttp.go\<close>), for any application behind it:
  the resolver, a lookup through the cache step by step as in \<open>Cached_Concurrent\<close>, and the application's
  handler, interleaved with other requests and with changes of the tenants' states. The locale \<open>tenant_application\<close>
  is what an application promises of its answers to a request of a tenant, on its own; that all answers
  keep that promise in every interleaving is proved in it once.
\<close>

section \<open>Requests in parallel\<close>

text \<open>
  The place of one request: read from the connection, inside \<^verbatim>\<open>Store.Get\<close> (with the number
  of its lookup), past the middleware with its tenant, answered.
\<close>

datatype serving =
    Arrived Request
  | Resolving Request nat
  | Resolved Request addr
  | Responded Request "panic + Response"

fun serving_request :: "serving \<Rightarrow> Request" where
  "serving_request (Arrived r) = r"
| "serving_request (Resolving r n) = r"
| "serving_request (Resolved r t) = r"
| "serving_request (Responded r x) = r"

fun is_responded :: "serving \<Rightarrow> bool" where
  "is_responded (Responded r x) \<longleftrightarrow> True"
| "is_responded p \<longleftrightarrow> False"

abbreviation host_tenant :: "string \<Rightarrow> Request \<Rightarrow> TenantID result" where
  "host_tenant domain r \<equiv> SubdomainResolver_Resolve (NewSubdomainResolver domain) r"

abbreviation no_such_tenant :: Response where
  "no_such_tenant \<equiv> http_Error ''tenant not found'' StatusNotFound"

record 'g wrapped_state =
  wy_cache :: "(mem_state, 'g) cache_system"
  wy_requests :: "serving list"

abbreviation in_request :: "'g wrapped_state \<Rightarrow> nat \<Rightarrow> serving \<Rightarrow> bool" where
  "in_request s k p \<equiv> k < length (wy_requests s) \<and> wy_requests s ! k = p"

abbreviation move_request :: "nat \<Rightarrow> serving \<Rightarrow> 'g wrapped_state \<Rightarrow> 'g wrapped_state" where
  "move_request k p s \<equiv> s\<lparr>wy_requests := (wy_requests s)[k := p]\<rparr>"

inductive wrapped_step ::
  "string \<Rightarrow> 'g group_api \<Rightarrow> mem_state cached_state Handler \<Rightarrow> 'g wrapped_state \<Rightarrow> 'g wrapped_state \<Rightarrow> bool"
  for domain :: string and api :: "'g group_api" and app :: "mem_state cached_state Handler" where
  accept: "wrapped_step domain api app s (s\<lparr>wy_requests := wy_requests s @ [Arrived r]\<rparr>)"
| unresolved: "in_request s k (Arrived r) \<Longrightarrow> host_tenant domain r = Inl err \<Longrightarrow>
    wrapped_step domain api app s (move_request k (Responded r (Inr no_such_tenant)) s)"
| resolve: "in_request s k (Arrived r) \<Longrightarrow> host_tenant domain r = Inr i \<Longrightarrow>
    wrapped_step domain api app s (move_request k (Resolving r (length (cy_calls (wy_cache s))))
      (s\<lparr>wy_cache := (wy_cache s)\<lparr>cy_calls := cy_calls (wy_cache s) @ [Began (req_Context r) i]\<rparr>\<rparr>))"
| get: "in_request s k (Resolving r n) \<Longrightarrow> wrapped_step domain api app s (s\<lparr>wy_cache := advance api n (wy_cache s)\<rparr>)"
| missing: "in_request s k (Resolving r n) \<Longrightarrow> at_call (wy_cache s) n (Answered i (Inl err)) \<Longrightarrow>
    wrapped_step domain api app s (move_request k (Responded r (Inr no_such_tenant)) s)"
| found: "in_request s k (Resolving r n) \<Longrightarrow> at_call (wy_cache s) n (Answered i (Inr t)) \<Longrightarrow>
    wrapped_step domain api app s (move_request k (Resolved r t) s)"
| handle: "in_request s k (Resolved r t) \<Longrightarrow> app (tenant_request r t) (cy_state (wy_cache s)) = (x, st) \<Longrightarrow>
    wrapped_step domain api app s (move_request k (Responded r x) (s\<lparr>wy_cache := (wy_cache s)\<lparr>cy_state := st\<rparr>\<rparr>))"
| set_state: "MemoryStore_SetState ctx i st (src (cy_state (wy_cache s))) = (u, m) \<Longrightarrow>
    wrapped_step domain api app s (s\<lparr>wy_cache := (wy_cache s)\<lparr>cy_state := (cy_state (wy_cache s))\<lparr>src := m\<rparr>\<rparr>\<rparr>)"

definition wrapped_begin :: "mem_state \<Rightarrow> Duration \<Rightarrow> Clock \<Rightarrow> 'g \<Rightarrow> 'g wrapped_state" where
  "wrapped_begin m ttl c g = \<lparr>wy_cache = new_cache_system MemoryStore_Store ttl m c g, wy_requests = []\<rparr>"

section \<open>The application's promise\<close>

text \<open>What holds of a request at its place, given the lookups.\<close>

fun wrapped_ok :: "string \<Rightarrow> (Request \<Rightarrow> Response \<Rightarrow> bool) \<Rightarrow> (mem_state, 'g) cache_system \<Rightarrow> serving \<Rightarrow> bool" where
  "wrapped_ok domain due c (Arrived r) \<longleftrightarrow> True"
| "wrapped_ok domain due c (Resolving r n) \<longleftrightarrow> n < length (cy_calls c) \<and> host_tenant domain r = Inr (lookup_id (cy_calls c ! n))"
| "wrapped_ok domain due c (Resolved r t) \<longleftrightarrow> (\<exists>i. host_tenant domain r = Inr i \<and> (i, Inr t) \<in> set (cy_log c))"
| "wrapped_ok domain due c (Responded r x) \<longleftrightarrow> (\<exists>resp. x = Inr resp \<and> due r resp)"

lemma wrapped_ok_later: "later c c' \<Longrightarrow> wrapped_ok domain due c p \<Longrightarrow> wrapped_ok domain due c' p"
  by (cases p) (auto simp: later_def)

definition wrapped_inv ::
  "(TenantID \<rightharpoonup> Role list) \<Rightarrow> string \<Rightarrow> (Request \<Rightarrow> Response \<Rightarrow> bool) \<Rightarrow> 'g group_api \<Rightarrow>
     (mem_state, 'g) cache_system \<Rightarrow> 'g wrapped_state \<Rightarrow> bool" where
  "wrapped_inv roles domain due api c0 s \<longleftrightarrow> lookup_steps api c0 (wy_cache s) \<and> tenants_ok roles (wy_cache s) \<and>
     (\<forall>p \<in> set (wy_requests s). wrapped_ok domain due (wy_cache s) p)"

locale tenant_application =
  fixes roles :: "TenantID \<rightharpoonup> Role list" and domain :: string
    and app :: "mem_state cached_state Handler" and due :: "Request \<Rightarrow> Response \<Rightarrow> bool"
  assumes app_due: "seeded roles (heap (src st)) i t \<Longrightarrow> host_tenant domain r = Inr i \<Longrightarrow>
      \<exists>resp. app (tenant_request r t) st = (Inr resp, st) \<and> due r resp"
    and missing_due: "\<forall>i. host_tenant domain r = Inr i \<longrightarrow> roles i = None \<Longrightarrow> due r no_such_tenant"
begin

lemma wrapped_invD:
  assumes "wrapped_inv roles domain due api c0 s"
  shows "lookup_steps api c0 (wy_cache s)" and "tenants_ok roles (wy_cache s)"
    and "in_request s k p \<Longrightarrow> wrapped_ok domain due (wy_cache s) p"
  using assms by (auto simp: wrapped_inv_def)

lemma wrapped_inv_request:
  assumes "wrapped_inv roles domain due api c0 s" and "wrapped_ok domain due (wy_cache s) p"
  shows "wrapped_inv roles domain due api c0 (move_request k p s)"
  using assms set_update_subset_insert [of "wy_requests s" k p] by (auto simp: wrapped_inv_def)

lemma wrapped_inv_cache:
  assumes "wrapped_inv roles domain due api c0 s" and "lookup_steps api (wy_cache s) c'" and "later (wy_cache s) c'" and "tenants_ok roles c'"
  shows "wrapped_inv roles domain due api c0 (s\<lparr>wy_cache := c'\<rparr>)"
  using assms rtranclp_trans [OF wrapped_invD(1) [OF assms(1)] assms(2)] wrapped_ok_later [OF assms(3)]
  by (simp add: wrapped_inv_def)

lemma wrapped_answered:
  assumes inv: "wrapped_inv roles domain due api c0 s" and "lookup_inv api flight (wy_cache s)"
    and "in_request s k (Resolving r n)" and "at_call (wy_cache s) n (Answered i x)"
  shows "host_tenant domain r = Inr i" and "(i, x) \<in> set (cy_log (wy_cache s))"
  using assms wrapped_invD(3) [OF inv assms(3)] log_invD(1) [of "wy_cache s" "Answered i x"]
  by (auto simp: lookup_inv_def) (metis nth_mem justified.simps(1))

lemma wrapped_inv_step:
  assumes inv: "wrapped_inv roles domain due api c0 s" and lookups: "lookup_inv api flight (wy_cache s)"
    and step: "wrapped_step domain api app s s'"
  shows "wrapped_inv roles domain due api c0 s'"
  using step
proof (cases rule: wrapped_step.cases)
  case (accept r)
  then show ?thesis using inv by (simp add: wrapped_inv_def)
next
  case (unresolved k r err)
  then show ?thesis by (auto intro!: wrapped_inv_request [OF inv] missing_due)
next
  case (resolve k r i)
  let ?c = "(wy_cache s)\<lparr>cy_calls := cy_calls (wy_cache s) @ [Began (req_Context r) i]\<rparr>"
  have "lookup_steps api (wy_cache s) ?c" using lookup_step.call by blast
  moreover have "tenants_ok roles ?c" by (rule tenants_ok_cong [OF wrapped_invD(2) [OF inv]]) simp_all
  ultimately have "wrapped_inv roles domain due api c0 (s\<lparr>wy_cache := ?c\<rparr>)"
    by (intro wrapped_inv_cache [OF inv]) (simp_all add: later_def nth_append)
  from wrapped_inv_request [OF this, of "Resolving r (length (cy_calls (wy_cache s)))" k] resolve show ?thesis by simp
next
  case (get k r n)
  with wrapped_inv_cache [OF inv advance_step later_advance tenants_ok_advance [OF wrapped_invD(2) [OF inv]]] show ?thesis by simp
next
  case (missing k r n i err)
  with wrapped_answered [OF inv lookups missing(2,3)] log_trueD(2) [OF tenants_ok_log [OF wrapped_invD(2) [OF inv]]]
  show ?thesis by (auto intro!: wrapped_inv_request [OF inv] missing_due)
next
  case (found k r n i t)
  with wrapped_answered [OF inv lookups found(2,3)] show ?thesis by (auto intro!: wrapped_inv_request [OF inv])
next
  case (handle k r t x st)
  with wrapped_invD(3) [OF inv handle(2)] obtain i where i: "host_tenant domain r = Inr i" "(i, Inr t) \<in> set (cy_log (wy_cache s))"
    by auto
  from app_due [OF log_trueD(1) [OF tenants_ok_log [OF wrapped_invD(2) [OF inv]] i(2)] i(1)] handle(3)
  have "st = cy_state (wy_cache s)" and "wrapped_ok domain due (wy_cache s) (Responded r x)" by auto
  with handle(1) wrapped_inv_request [OF inv] show ?thesis by simp
next
  case (set_state ctx i st u m)
  let ?c = "(wy_cache s)\<lparr>cy_state := (cy_state (wy_cache s))\<lparr>src := m\<rparr>\<rparr>"
  have "lookup_steps api (wy_cache s) ?c" by (intro r_into_rtranclp lookup_step.source_changes)
  with wrapped_inv_cache [OF inv, of ?c] tenants_ok_set_state [OF wrapped_invD(2) [OF inv] set_state(2)] set_state(1)
  show ?thesis by (simp add: later_def)
qed

text \<open>Every answer is due to its request alone.\<close>

lemma wrapped_answers:
  assumes "singleflight_documented api flight" and "idle_group api flight g" and "ms_inv m"
    and "\<And>i. map_option tRoles (ms_view m i) = roles i"
    and "(wrapped_step domain api app)\<^sup>*\<^sup>* (wrapped_begin m ttl c g) s" and "Responded r x \<in> set (wy_requests s)"
  shows "\<exists>resp. x = Inr resp \<and> due r resp"
proof -
  let ?c0 = "new_cache_system MemoryStore_Store ttl m c g"
  have "wrapped_inv roles domain due api ?c0 s"
    using assms(5)
  proof (induction rule: rtranclp_induct)
    case base
    show ?case using assms(3,4)
      by (simp add: wrapped_inv_def wrapped_begin_def tenants_ok_def new_cache_system_def NewCachedStore_def log_true_def)
  next
    case (step s s')
    from wrapped_inv_step [OF step(3) lookup_inv_reachable [OF assms(1,2) wrapped_invD(1) [OF step(3)]] step(2)] show ?case .
  qed
  with assms(6) show ?thesis by (auto simp: wrapped_inv_def)
qed

end

section \<open>A request that nobody interrupts\<close>

abbreviation with_arrival :: "'g wrapped_state \<Rightarrow> serving list \<Rightarrow> serving \<Rightarrow> 'g wrapped_state" where
  "with_arrival s ps p \<equiv> s\<lparr>wy_requests := ps @ [p]\<rparr>"

lemma wrapped_gets:
  assumes "in_request s k (Resolving r n)"
  shows "(wrapped_step domain api app)\<^sup>*\<^sup>* s (s\<lparr>wy_cache := (advance api n ^^ j) (wy_cache s)\<rparr>)"
proof (induction j)
  case (Suc j)
  let ?s = "s\<lparr>wy_cache := (advance api n ^^ j) (wy_cache s)\<rparr>"
  have "wrapped_step domain api app ?s (?s\<lparr>wy_cache := advance api n (wy_cache ?s)\<rparr>)"
    using assms by (intro wrapped_step.get [of k _ r]) simp
  with Suc show ?case by (simp add: rtranclp.rtrancl_into_rtrancl)
qed simp

lemma wrapped_lookup_alone:
  assumes "singleflight_documented api flight" and "flight (cy_group (wy_cache s)) i = None" and "host_tenant domain r = Inr i"
    and "CachedStore_Get run_now (req_Context r) i (cy_state (wy_cache s)) = (y, st)"
  shows "\<exists>n c. (wrapped_step domain api app)\<^sup>*\<^sup>* (with_arrival s ps (Arrived r)) (with_arrival (s\<lparr>wy_cache := c\<rparr>) ps (Resolving r n)) \<and>
    at_call c n (Answered i y) \<and> cy_state c = st"
proof -
  let ?n = "length (cy_calls (wy_cache s))" and ?k = "length ps"
  let ?c = "with_last (wy_cache s) (cy_calls (wy_cache s)) (Began (req_Context r) i)"
  from lookup_uninterrupted [OF assms(1,2,4)] obtain j c where
    c: "(advance api ?n ^^ j) ?c = c" "at_call c ?n (Answered i y)" "cy_state c = st" by fastforce
  have "wrapped_step domain api app (with_arrival s ps (Arrived r)) (with_arrival (s\<lparr>wy_cache := ?c\<rparr>) ps (Resolving r ?n))"
    using wrapped_step.resolve [of ?k "with_arrival s ps (Arrived r)" r domain i api app] assms(3) by (cases s) simp
  moreover have "(wrapped_step domain api app)\<^sup>*\<^sup>* (with_arrival (s\<lparr>wy_cache := ?c\<rparr>) ps (Resolving r ?n))
      (with_arrival (s\<lparr>wy_cache := c\<rparr>) ps (Resolving r ?n))"
    using wrapped_gets [of ?k "with_arrival (s\<lparr>wy_cache := ?c\<rparr>) ps (Resolving r ?n)" r ?n domain api app j] c(1) by (cases s) simp
  ultimately have "(wrapped_step domain api app)\<^sup>*\<^sup>* (with_arrival s ps (Arrived r)) (with_arrival (s\<lparr>wy_cache := c\<rparr>) ps (Resolving r ?n))"
    by (rule converse_rtranclp_into_rtranclp)
  with c(2,3) show ?thesis by blast
qed

text \<open>It gets the answer of \<open>Wrap\<close>, whatever other requests wait, as long as no lookup is in flight.\<close>

lemma wrapped_alone:
  assumes "singleflight_documented api flight" and "\<And>i. flight (cy_group (wy_cache s)) i = None"
    and "singleflight_solo Do" and "server_manager Do domain = Inr m"
    and run: "Wrap m app r (cy_state (wy_cache s)) = (x, st)"
  shows "\<exists>c. (wrapped_step domain api app)\<^sup>*\<^sup>* (with_arrival s ps (Arrived r)) (with_arrival (s\<lparr>wy_cache := c\<rparr>) ps (Responded r x)) \<and>
    cy_state c = st"
proof (cases "host_tenant domain r")
  case (Inl err)
  note m = server_manager_fields [OF assms(4,3)]
  from run Inl have "x = Inr no_such_tenant" "st = cy_state (wy_cache s)" by (simp_all add: Wrap_def Manager_Resolve_def m)
  with wrapped_step.unresolved [of "length ps" "with_arrival s ps (Arrived r)" r domain err api app] Inl
  show ?thesis by (intro exI [of _ "wy_cache s"]) auto
next
  case (Inr i)
  note m = server_manager_fields [OF assms(4,3)]
  obtain y st1 where get: "CachedStore_Get run_now (req_Context r) i (cy_state (wy_cache s)) = (y, st1)" by fastforce
  from wrapped_lookup_alone [OF assms(1,2) Inr get, of app ps] obtain n c where
    steps: "(wrapped_step domain api app)\<^sup>*\<^sup>* (with_arrival s ps (Arrived r)) (with_arrival (s\<lparr>wy_cache := c\<rparr>) ps (Resolving r n))"
    and c: "at_call c n (Answered i y)" "cy_state c = st1" by blast
  let ?s1 = "with_arrival (s\<lparr>wy_cache := c\<rparr>) ps (Resolving r n)"
  show ?thesis
  proof (cases y)
    case (Inl err)
    with run Inr get have "x = Inr no_such_tenant" "st = st1"
      by (simp_all add: Wrap_def Manager_Resolve_def m CachedStore_Store_def)
    with wrapped_step.missing [of "length ps" ?s1 r n i err domain api app] c Inl
    show ?thesis using steps by (intro exI [of _ c]) (auto intro: rtranclp.rtrancl_into_rtrancl)
  next
    case y: (Inr t)
    let ?s2 = "with_arrival (s\<lparr>wy_cache := c\<rparr>) ps (Resolved r t)"
    from run Inr get y have handled: "app (tenant_request r t) (cy_state c) = (x, st)"
      by (simp add: Wrap_def Manager_Resolve_def m CachedStore_Store_def c)
    have "wrapped_step domain api app ?s1 ?s2"
      using wrapped_step.found [of "length ps" ?s1 r n i t domain api app] c y by simp
    moreover have "wrapped_step domain api app ?s2 (with_arrival (s\<lparr>wy_cache := c\<lparr>cy_state := st\<rparr>\<rparr>) ps (Responded r x))"
      using wrapped_step.handle [of "length ps" ?s2 r t app x st domain api] handled by (cases s) simp
    ultimately show ?thesis using steps
      by (intro exI [of _ "c\<lparr>cy_state := st\<rparr>"]) (auto intro: rtranclp.rtrancl_into_rtrancl)
  qed
qed

end
