(* ===== verification/Server_Concurrent.thy ===== *)
theory Server_Concurrent
  imports Server Middleware_Concurrent
begin

text \<open>
  The reference server with its requests in parallel (\<^verbatim>\<open>src/cmd/server/main.go\<close>,
  \<^verbatim>\<open>src/middleware/nethttp/nethttp.go\<close>). \<^verbatim>\<open>net/http\<close> serves every request in a goroutine of
  its own; the goroutines meet in the caching store, whose lookups are those of
  \<^verbatim>\<open>Cached_Concurrent\<close>, and in the readiness flag. A request goes through the outer router, the
  resolver, a lookup step by step, and the application's router; between any two of these
  others may run, the state of a tenant may be set in the store, and the process may start up,
  receive its signal, drain and exit.
\<close>

section \<open>Requests in parallel\<close>

record 'g serving_state =
  sy_cache :: "(mem_state, 'g) cache_system"
  sy_ready :: bool
  sy_phase :: phase
  sy_requests :: "serving list"

definition serving_start :: "serverConfig \<Rightarrow> Heap \<Rightarrow> Clock \<Rightarrow> 'g \<Rightarrow> 'g serving_state" where
  "serving_start cfg h c g =
     \<lparr>sy_cache = new_cache_system MemoryStore_Store (cfg_cacheTTL cfg) (server_store h) c g,
      sy_ready = False, sy_phase = Starting, sy_requests = []\<rparr>"

text \<open>A route for \<^verbatim>\<open>GET\<close> with a literal path.\<close>

lemma match_literals: "match_segments (map Lit p) False ps = (if ps = p then Some [] else None)"
  by (induction p arbitrary: ps) (auto split: list.split, (case_tac ps, auto)+)

lemma ServeMux_get_route:
  "ServeMux_routes (get_route p handler # rts) seen r s =
     (if Path r = p then
        (if Method r \<in> {''GET'', ''HEAD''} then handler (r\<lparr>pathValues := []\<rparr>) s else ServeMux_routes rts True r s)
      else ServeMux_routes rts seen r s)"
  by (auto simp: get_route_def match_literals method_matches_def)

lemma ServeMux_root_route:
  "ServeMux_routes (\<lparr>rt_method = None, rt_segments = [], rt_subtree = True, rt_handler = handler\<rparr> # rts) seen r s =
     handler (r\<lparr>pathValues := []\<rparr>) s"
  by (simp add: method_matches_def)

declare ServeMux_routes.simps(2) [simp del]
declare ServeMux_get_route [simp] ServeMux_root_route [simp]

text \<open>The requests that the outer router gives to the probes; every other one is for the middleware.\<close>

definition probe_routes :: "server_state route list" where
  "probe_routes = [get_route [''healthz''] healthzHandler, get_route [''readyz''] readyzHandler]"

definition is_probe :: "Request \<Rightarrow> bool" where
  "is_probe r \<longleftrightarrow> Path r \<in> {[''healthz''], [''readyz'']} \<and> Method r \<in> {''GET'', ''HEAD''}"

lemma server_handler_split:
  "server_handler m r s =
     (if is_probe r then ServeMux_ServeHTTP probe_routes r s
      else on_tenants (Wrap m (ServeMux_ServeHTTP app_mux)) (r\<lparr>pathValues := []\<rparr>) s)"
  by (auto simp: server_handler_def is_probe_def probe_routes_def ServeMux_ServeHTTP_def method_matches_def)

abbreviation alive :: "'g serving_state \<Rightarrow> bool" where
  "alive s \<equiv> sy_phase s \<in> {Starting, Running, Draining}"

abbreviation at_request :: "'g serving_state \<Rightarrow> nat \<Rightarrow> serving \<Rightarrow> bool" where
  "at_request s k p \<equiv> alive s \<and> k < length (sy_requests s) \<and> sy_requests s ! k = p"

abbreviation serve :: "nat \<Rightarrow> serving \<Rightarrow> 'g serving_state \<Rightarrow> 'g serving_state" where
  "serve k p s \<equiv> s\<lparr>sy_requests := (sy_requests s)[k := p]\<rparr>"

text \<open>
  \<^verbatim>\<open>Shutdown\<close> returns nil only when no request is in flight any more, as \<^verbatim>\<open>net/http\<close> documents;
  with an error it may leave requests behind.
\<close>

inductive serving_step :: "string \<Rightarrow> 'g group_api \<Rightarrow> 'g serving_state \<Rightarrow> 'g serving_state \<Rightarrow> bool"
  for domain :: string and api :: "'g group_api" where
  accept: "alive s \<Longrightarrow> serving_step domain api s (s\<lparr>sy_requests := sy_requests s @ [Arrived r]\<rparr>)"
| probe: "at_request s k (Arrived r) \<Longrightarrow> is_probe r \<Longrightarrow>
    ServeMux_ServeHTTP probe_routes r \<lparr>sv_tenants = cy_state (sy_cache s), sv_ready = sy_ready s\<rparr> = (x, sv) \<Longrightarrow>
    serving_step domain api s (serve k (Responded r x) s)"
| unresolved: "at_request s k (Arrived r) \<Longrightarrow> \<not> is_probe r \<Longrightarrow> host_tenant domain r = Inl err \<Longrightarrow>
    serving_step domain api s (serve k (Responded r (Inr (http_Error ''tenant not found'' StatusNotFound))) s)"
| resolve: "at_request s k (Arrived r) \<Longrightarrow> \<not> is_probe r \<Longrightarrow> host_tenant domain r = Inr i \<Longrightarrow>
    serving_step domain api s (serve k (Resolving r (length (cy_calls (sy_cache s))))
      (s\<lparr>sy_cache := (sy_cache s)\<lparr>cy_calls := cy_calls (sy_cache s) @ [Began (req_Context r) i]\<rparr>\<rparr>))"
| get: "at_request s k (Resolving r n) \<Longrightarrow> serving_step domain api s (s\<lparr>sy_cache := advance api n (sy_cache s)\<rparr>)"
| missing: "at_request s k (Resolving r n) \<Longrightarrow> at_call (sy_cache s) n (Answered i (Inl err)) \<Longrightarrow>
    serving_step domain api s (serve k (Responded r (Inr (http_Error ''tenant not found'' StatusNotFound))) s)"
| found: "at_request s k (Resolving r n) \<Longrightarrow> at_call (sy_cache s) n (Answered i (Inr t)) \<Longrightarrow>
    serving_step domain api s (serve k (Resolved r t) s)"
| handle: "at_request s k (Resolved r t) \<Longrightarrow>
    ServeMux_ServeHTTP app_mux (tenant_request (r\<lparr>pathValues := []\<rparr>) t) (cy_state (sy_cache s)) = (x, st) \<Longrightarrow>
    serving_step domain api s (serve k (Responded r x) (s\<lparr>sy_cache := (sy_cache s)\<lparr>cy_state := st\<rparr>\<rparr>))"
| set_state: "alive s \<Longrightarrow> MemoryStore_SetState ctx i st (src (cy_state (sy_cache s))) = (u, m) \<Longrightarrow>
    serving_step domain api s (s\<lparr>sy_cache := (sy_cache s)\<lparr>cy_state := (cy_state (sy_cache s))\<lparr>src := m\<rparr>\<rparr>\<rparr>)"
| mark_ready: "sy_phase s = Starting \<Longrightarrow> serving_step domain api s (s\<lparr>sy_phase := Running, sy_ready := True\<rparr>)"
| signal: "sy_phase s = Running \<Longrightarrow> serving_step domain api s (s\<lparr>sy_phase := Draining, sy_ready := False\<rparr>)"
| shutdown: "sy_phase s = Draining \<Longrightarrow> err = None \<longrightarrow> list_all is_responded (sy_requests s) \<Longrightarrow>
    serving_step domain api s (s\<lparr>sy_phase := Terminated (shutdown_exit err late)\<rparr>)"
| listen_error: "alive s \<Longrightarrow> serving_step domain api s (s\<lparr>sy_phase := Terminated 1\<rparr>)"

abbreviation serving_steps :: "string \<Rightarrow> 'g group_api \<Rightarrow> 'g serving_state \<Rightarrow> 'g serving_state \<Rightarrow> bool" where
  "serving_steps domain api \<equiv> (serving_step domain api)\<^sup>*\<^sup>*"

section \<open>What a request is due\<close>

text \<open>The tenants \<^verbatim>\<open>main\<close> creates, with their roles.\<close>

definition server_roles :: "TenantID \<rightharpoonup> Role list" where
  "server_roles = [''acme'' \<mapsto> [''admin''], ''globex'' \<mapsto> [''viewer'']]"

text \<open>
  The answer to a request on its own, with nothing of the server's state but the lifecycle
  state of the tenant.
\<close>

definition due_answer :: "string \<Rightarrow> Request \<Rightarrow> Response \<Rightarrow> bool" where
  "due_answer domain r resp \<longleftrightarrow>
     (if is_probe r then Status resp = 200 \<or> Path r = [''readyz''] \<and> Status resp = 503
      else case host_tenant domain r of
        Inl err \<Rightarrow> resp = http_Error ''tenant not found'' 404
      | Inr i \<Rightarrow>
          (case server_roles i of
             None \<Rightarrow> resp = http_Error ''tenant not found'' 404
           | Some rs \<Rightarrow>
               (if Path r \<notin> {[''api'', ''me''], [''api'', ''users'']} then resp = http_Error ''404 page not found'' 404
                else if Method r \<notin> {''GET'', ''HEAD''} then resp = http_Error ''Method Not Allowed'' 405
                else if Path r = [''api'', ''me''] then
                  (\<exists>st. resp = json_response 200
                     [(''roles'', JArray (map JString rs)), (''tenant_id'', JString i), (''tenant_state'', JString st)])
                else if i = ''acme'' then resp = json_response 200 [(''message'', JString ''user list would go here'')]
                else resp = http_Error ''forbidden: users:write required'' 403)))"

lemma probe_due:
  assumes "is_probe r"
  shows "\<exists>resp. ServeMux_ServeHTTP probe_routes r s = (Inr resp, s) \<and> due_answer domain r resp"
  using assms
  by (auto simp: is_probe_def probe_routes_def ServeMux_ServeHTTP_def healthzHandler_def readyzHandler_def due_answer_def
      json_response_def status_defs)

lemma seeded_fields:
  assumes "seeded server_roles h i t"
  shows "sID (structs h t) = i" and "server_roles i = Some (tRoles (deref h t))"
    and "json_roles h t = JArray (map JString (tRoles (deref h t)))"
    and "i \<in> {''acme'', ''globex''}"
    and "RBAC_Can server_authz (deref h t) ''users:write'' \<longleftrightarrow> i = ''acme''"
  using assms
  by (auto simp: seeded_def deref_def struct_value_def slice_roles_def json_roles_def server_roles_def server_authz_def
      Can_iff_grants grants_DefineRole split: option.splits if_splits) (metis list.set_intros(1))

lemma app_mux_due:
  assumes "seeded server_roles (heap (src st)) i t" and "host_tenant domain r = Inr i" and "\<not> is_probe r"
  shows "\<exists>resp. ServeMux_ServeHTTP app_mux (tenant_request (r\<lparr>pathValues := []\<rparr>) t) st = (Inr resp, st) \<and> due_answer domain r resp"
  using assms(2,3) seeded_fields [OF assms(1)]
  by (simp add: app_mux_def ServeMux_ServeHTTP_def handle_me_def handle_users_def due_answer_def status_defs Let_def) blast

lemma tenants_ok_start: "tenants_ok server_roles (sy_cache (serving_start cfg h c g))"
  by (auto simp: tenants_ok_def serving_start_def new_cache_system_def NewCachedStore_def server_store_ok server_roles_def log_true_def)

section \<open>The invariant\<close>

text \<open>What holds of a request at its place, given the lookups.\<close>

fun serving_ok :: "string \<Rightarrow> (mem_state, 'g) cache_system \<Rightarrow> serving \<Rightarrow> bool" where
  "serving_ok domain c (Arrived r) \<longleftrightarrow> True"
| "serving_ok domain c (Resolving r n) \<longleftrightarrow> \<not> is_probe r \<and> n < length (cy_calls c) \<and>
     host_tenant domain r = Inr (lookup_id (cy_calls c ! n))"
| "serving_ok domain c (Resolved r t) \<longleftrightarrow> \<not> is_probe r \<and>
     (\<exists>i. host_tenant domain r = Inr i \<and> (i, Inr t) \<in> set (cy_log c))"
| "serving_ok domain c (Responded r x) \<longleftrightarrow> (\<exists>resp. x = Inr resp \<and> due_answer domain r resp)"

lemma serving_ok_later: "later c c' \<Longrightarrow> serving_ok domain c p \<Longrightarrow> serving_ok domain c' p"
  by (cases p) (auto simp: later_def)

text \<open>Every lookup that goes on belongs to a request that waits for it.\<close>

definition waited_for :: "'g serving_state \<Rightarrow> nat \<Rightarrow> bool" where
  "waited_for s n \<longleftrightarrow> remaining (cy_calls (sy_cache s) ! n) = 0 \<or> (\<exists>r. Resolving r n \<in> set (sy_requests s))"

definition serving_inv :: "serverConfig \<Rightarrow> 'g group_api \<Rightarrow> (mem_state, 'g) cache_system \<Rightarrow> 'g serving_state \<Rightarrow> bool" where
  "serving_inv cfg api c0 s \<longleftrightarrow> lookup_steps api c0 (sy_cache s) \<and> tenants_ok server_roles (sy_cache s) \<and>
     (\<forall>p \<in> set (sy_requests s). serving_ok (cfg_tenantBaseDomain cfg) (sy_cache s) p) \<and>
     (\<forall>n < length (cy_calls (sy_cache s)). waited_for s n)"

lemma serving_invD:
  assumes "serving_inv cfg api c0 s"
  shows "lookup_steps api c0 (sy_cache s)" and "tenants_ok server_roles (sy_cache s)"
    and "p \<in> set (sy_requests s) \<Longrightarrow> serving_ok (cfg_tenantBaseDomain cfg) (sy_cache s) p"
    and "n < length (cy_calls (sy_cache s)) \<Longrightarrow> waited_for s n"
  using assms unfolding serving_inv_def by blast+

lemma in_set_update_other: "x \<in> set xs \<Longrightarrow> xs ! k \<noteq> x \<Longrightarrow> x \<in> set (xs[k := y])"
  by (metis in_set_conv_nth length_list_update nth_list_update_neq)

text \<open>A request moves on; one that was waiting has its result.\<close>

lemma serving_inv_request:
  assumes inv: "serving_inv cfg api c0 s" and "serving_ok (cfg_tenantBaseDomain cfg) (sy_cache s) p"
    and at: "\<And>r n. sy_requests s ! k = Resolving r n \<Longrightarrow> remaining (cy_calls (sy_cache s) ! n) = 0"
  shows "serving_inv cfg api c0 (serve k p s)"
proof -
  have "waited_for (serve k p s) n" if "n < length (cy_calls (sy_cache s))" for n
    using serving_invD(4) [OF inv that] at [of _ n] in_set_update_other unfolding waited_for_def by fastforce
  with serving_invD(1,2,3) [OF inv] assms(2) show ?thesis
    unfolding serving_inv_def using set_update_subset_insert [of "sy_requests s" k p] by auto
qed

text \<open>Lookups move on.\<close>

lemma serving_inv_cache:
  assumes inv: "serving_inv cfg api c0 s" and "lookup_steps api (sy_cache s) c'" and "later (sy_cache s) c'"
    and "tenants_ok server_roles c'" and "length (cy_calls c') = length (cy_calls (sy_cache s))"
  shows "serving_inv cfg api c0 (s\<lparr>sy_cache := c'\<rparr>)"
proof -
  have "waited_for (s\<lparr>sy_cache := c'\<rparr>) n" if "n < length (cy_calls (sy_cache s))" for n
    using serving_invD(4) [OF inv that] assms(3) that by (auto simp: waited_for_def later_def)
  moreover have "\<forall>p \<in> set (sy_requests s). serving_ok (cfg_tenantBaseDomain cfg) c' p"
    using serving_ok_later [OF assms(3)] serving_invD(3) [OF inv] by blast
  ultimately show ?thesis
    using rtranclp_trans [OF serving_invD(1) [OF inv] assms(2)] assms(4,5) by (simp add: serving_inv_def)
qed

lemma serving_inv_resolve:
  assumes inv: "serving_inv cfg api c0 s" and at: "at_request s k (Arrived r)"
    and "\<not> is_probe r" and "host_tenant (cfg_tenantBaseDomain cfg) r = Inr i"
  shows "serving_inv cfg api c0 (serve k (Resolving r (length (cy_calls (sy_cache s))))
      (s\<lparr>sy_cache := (sy_cache s)\<lparr>cy_calls := cy_calls (sy_cache s) @ [Began (req_Context r) i]\<rparr>\<rparr>))"
    (is "serving_inv cfg api c0 ?s'")
proof -
  let ?c = "sy_cache s"
  have "lookup_step api ?c (sy_cache ?s')" using lookup_step.call [of api ?c "req_Context r" i] by simp
  moreover have "tenants_ok server_roles (sy_cache ?s')" by (rule tenants_ok_cong [OF serving_invD(2) [OF inv]]) simp_all
  moreover have "later ?c (sy_cache ?s')" by (simp add: later_def nth_append)
  then have "serving_ok (cfg_tenantBaseDomain cfg) (sy_cache ?s') p" if "p \<in> set (sy_requests s)" for p
    using serving_ok_later serving_invD(3) [OF inv that] by blast
  then have "\<forall>p \<in> set (sy_requests ?s'). serving_ok (cfg_tenantBaseDomain cfg) (sy_cache ?s') p"
    using assms(3,4) set_update_subset_insert [of "sy_requests s" k "Resolving r (length (cy_calls ?c))"] by fastforce
  moreover have "waited_for ?s' n" if "n < Suc (length (cy_calls ?c))" for n
  proof (cases "n = length (cy_calls ?c)")
    case True
    then show ?thesis using at set_update_memI [of k "sy_requests s"] by (auto simp: waited_for_def)
  next
    case False
    with that serving_invD(4) [OF inv, of n] at show ?thesis
      using in_set_update_other [of "Resolving _ n" "sy_requests s" k] by (fastforce simp: waited_for_def nth_append)
  qed
  ultimately show ?thesis using serving_invD(1) [OF inv] by (auto simp: serving_inv_def)
qed

text \<open>What a request has when its lookup has returned.\<close>

lemma serving_answered:
  assumes inv: "serving_inv cfg api c0 s" and "lookup_inv api flight (sy_cache s)"
    and "at_request s k (Resolving r n)" and "at_call (sy_cache s) n (Answered i x)"
  shows "\<not> is_probe r" and "host_tenant (cfg_tenantBaseDomain cfg) r = Inr i"
    and "case x of Inl e \<Rightarrow> server_roles i = None | Inr t \<Rightarrow> serving_ok (cfg_tenantBaseDomain cfg) (sy_cache s) (Resolved r t)"
proof -
  from assms(2,4) have log: "(i, x) \<in> set (cy_log (sy_cache s))"
    using log_invD(1) [of "sy_cache s" "Answered i x"] by (metis justified.simps(1) lookup_inv_def nth_mem)
  have "Resolving r n \<in> set (sy_requests s)" using assms(3) by (metis nth_mem)
  from serving_invD(3) [OF inv this] assms(4)
  show req: "\<not> is_probe r" "host_tenant (cfg_tenantBaseDomain cfg) r = Inr i" by simp_all
  show "case x of Inl e \<Rightarrow> server_roles i = None | Inr t \<Rightarrow> serving_ok (cfg_tenantBaseDomain cfg) (sy_cache s) (Resolved r t)"
    using req log log_trueD(2) [OF tenants_ok_log [OF serving_invD(2) [OF inv]]] by (auto split: sum.split)
qed

lemma serving_handled:
  assumes inv: "serving_inv cfg api c0 s" and "at_request s k (Resolved r t)"
    and run: "ServeMux_ServeHTTP app_mux (tenant_request (r\<lparr>pathValues := []\<rparr>) t) (cy_state (sy_cache s)) = (x, st)"
  shows "st = cy_state (sy_cache s)" and "serving_ok (cfg_tenantBaseDomain cfg) (sy_cache s) (Responded r x)"
proof -
  have "Resolved r t \<in> set (sy_requests s)" using assms(2) by (metis nth_mem)
  from serving_invD(3) [OF inv this] obtain i where i: "\<not> is_probe r"
    "host_tenant (cfg_tenantBaseDomain cfg) r = Inr i" "(i, Inr t) \<in> set (cy_log (sy_cache s))" by auto
  from app_mux_due [OF log_trueD(1) [OF tenants_ok_log [OF serving_invD(2) [OF inv]] i(3)] i(2,1)] run
  show "st = cy_state (sy_cache s)" "serving_ok (cfg_tenantBaseDomain cfg) (sy_cache s) (Responded r x)" by auto
qed

lemma serving_inv_step:
  assumes inv: "serving_inv cfg api c0 s" and lookups: "lookup_inv api flight (sy_cache s)"
    and step: "serving_step (cfg_tenantBaseDomain cfg) api s s'"
  shows "serving_inv cfg api c0 s'"
  using step
proof (cases rule: serving_step.cases)
  case (accept r)
  then show ?thesis using inv by (auto simp: serving_inv_def waited_for_def)
next
  case (probe k r x sv)
  with probe_due [OF probe(3), where domain = "cfg_tenantBaseDomain cfg"
      and s = "\<lparr>sv_tenants = cy_state (sy_cache s), sv_ready = sy_ready s\<rparr>"]
  show ?thesis by (auto intro!: serving_inv_request [OF inv])
next
  case (unresolved k r err)
  then show ?thesis by (auto intro!: serving_inv_request [OF inv] simp: due_answer_def status_defs)
next
  case (resolve k r i)
  with serving_inv_resolve [OF inv] show ?thesis by blast
next
  case (get k r n)
  with serving_inv_cache [OF inv advance_step later_advance tenants_ok_advance [OF serving_invD(2) [OF inv]]] show ?thesis
    by simp
next
  case (missing k r n i err)
  with serving_answered [OF inv lookups missing(2,3)] show ?thesis
    by (auto intro!: serving_inv_request [OF inv] simp: due_answer_def status_defs)
next
  case (found k r n i t)
  with serving_answered [OF inv lookups found(2,3)] show ?thesis by (auto intro!: serving_inv_request [OF inv])
next
  case (handle k r t x st)
  with serving_handled [OF inv handle(2,3)] serving_inv_request [OF inv, of "Responded r x" k] show ?thesis by simp
next
  case (set_state ctx i st u m)
  let ?c = "(sy_cache s)\<lparr>cy_state := (cy_state (sy_cache s))\<lparr>src := m\<rparr>\<rparr>"
  have "lookup_steps api (sy_cache s) ?c" by (intro r_into_rtranclp lookup_step.source_changes)
  with serving_inv_cache [OF inv, of ?c] tenants_ok_set_state [OF serving_invD(2) [OF inv] set_state(3)] set_state(1)
  show ?thesis by (simp add: later_def)
qed (use inv in \<open>simp_all add: serving_inv_def waited_for_def\<close>)

lemma serving_reachable:
  assumes "singleflight_documented api flight" and "idle_group api flight g"
    and "serving_steps (cfg_tenantBaseDomain cfg) api (serving_start cfg h c g) s"
  shows "serving_inv cfg api (sy_cache (serving_start cfg h c g)) s" and "lookup_inv api flight (sy_cache s)"
proof -
  have lookups: "lookup_inv api flight (sy_cache s)" if "serving_inv cfg api (sy_cache (serving_start cfg h c g)) s" for s
    using lookup_inv_reachable [OF assms(1,2)] serving_invD(1) [OF that] by (simp add: serving_start_def)
  show "serving_inv cfg api (sy_cache (serving_start cfg h c g)) s"
    using assms(3)
  proof (induction rule: rtranclp_induct)
    case base
    show ?case using tenants_ok_start by (simp add: serving_inv_def) (simp add: serving_start_def new_cache_system_def)
  next
    case (step s s')
    show ?case by (rule serving_inv_step [OF step(3) lookups [OF step(3)] step(2)])
  qed
  with lookups show "lookup_inv api flight (sy_cache s)" by blast
qed

section \<open>Every answer under every interleaving\<close>

text \<open>
  C5. The server under concurrent requests. Take the started server, any number of requests of any
  method, path and host in flight at the same time, any interleaving of their steps with each
  other, with changes of the tenants' states in the store and with start-up, drain and exit of
  the process, and a \<^verbatim>\<open>singleflight.Group\<close> that behaves as documented. Every answer given is the
  one that is due to that request alone: no handler panics; \<^verbatim>\<open>GET /api/me\<close> tells the identity
  and the roles of the very tenant that the request's host names; \<^verbatim>\<open>GET /api/users\<close> is answered
  with 200 exactly for \<^verbatim>\<open>acme\<close> and with 403 for \<^verbatim>\<open>globex\<close>; a host that names neither gets 404 for
  every path but the probes'; and the requests to other paths or with other methods get 404
  and 405. Nothing of one tenant's request ever shows in another's answer.
\<close>

theorem server_concurrent_answers:
  assumes "singleflight_documented api flight" and "idle_group api flight g"
    and "serving_steps (cfg_tenantBaseDomain cfg) api (serving_start cfg h c g) s"
    and "Responded r x \<in> set (sy_requests s)"
  shows "\<exists>resp. x = Inr resp \<and> due_answer (cfg_tenantBaseDomain cfg) r resp"
  using serving_invD(3) [OF serving_reachable(1) [OF assms(1-3)] assms(4)] by simp

section \<open>Draining\<close>

fun weight :: "serving \<Rightarrow> nat" where
  "weight (Arrived r) = 10"
| "weight (Resolving r n) = 2"
| "weight (Resolved r t) = 1"
| "weight (Responded r x) = 0"

definition ahead :: "'g serving_state \<Rightarrow> nat" where
  "ahead s = sum_list (map weight (sy_requests s)) + sum_list (map remaining (cy_calls (sy_cache s)))"

lemma sum_list_update_less:
  fixes f :: "'a \<Rightarrow> nat"
  assumes "k < length xs" and "f y < f (xs ! k)"
  shows "sum_list (map f (xs[k := y])) < sum_list (map f xs)"
proof -
  have "f (xs ! k) \<le> sum_list (map f xs)" using assms(1) by (simp add: member_le_sum_list)
  with assms show ?thesis by (simp add: map_update sum_list_update)
qed

text \<open>One step ahead: for the same requests, in the same phase, with less to do.\<close>

definition goes_on :: "string \<Rightarrow> 'g group_api \<Rightarrow> 'g serving_state \<Rightarrow> 'g serving_state \<Rightarrow> bool" where
  "goes_on domain api s s' \<longleftrightarrow> serving_step domain api s s' \<and> sy_phase s' = sy_phase s \<and>
     map serving_request (sy_requests s') = map serving_request (sy_requests s) \<and> ahead s' < ahead s"

lemma goes_on_request:
  assumes "at_request s k q" and "weight p < weight q" and "serving_request p = serving_request q"
    and "serving_step domain api s (serve k p s)"
  shows "goes_on domain api s (serve k p s)"
  using assms sum_list_update_less [of k "sy_requests s" weight p]
  by (simp add: goes_on_def ahead_def map_update list_update_same_conv)

lemma goes_on_lookup:
  assumes "at_request s k (Resolving r n)" and "n < length (cy_calls (sy_cache s))"
    and "cy_calls (advance api n (sy_cache s)) = (cy_calls (sy_cache s))[n := d]"
    and "remaining d < remaining (cy_calls (sy_cache s) ! n)"
  shows "goes_on domain api s (s\<lparr>sy_cache := advance api n (sy_cache s)\<rparr>)"
  using serving_step.get [OF assms(1)] assms(2-4) sum_list_update_less [of n "cy_calls (sy_cache s)" remaining d]
  by (simp add: goes_on_def ahead_def)

lemma goes_on_arrived:
  assumes at: "at_request s k (Arrived r)"
  shows "\<exists>s'. goes_on domain api s s'"
proof (cases "is_probe r")
  case True
  obtain x sv where "ServeMux_ServeHTTP probe_routes r \<lparr>sv_tenants = cy_state (sy_cache s), sv_ready = sy_ready s\<rparr> = (x, sv)"
    by fastforce
  from goes_on_request [OF at _ _ serving_step.probe [OF at True this]] show ?thesis by auto
next
  case False
  show ?thesis
  proof (cases "host_tenant domain r")
    case (Inl err)
    from goes_on_request [OF at _ _ serving_step.unresolved [OF at False this]] show ?thesis by auto
  next
    case (Inr i)
    let ?p = "Resolving r (length (cy_calls (sy_cache s)))"
    let ?s' = "serve k ?p (s\<lparr>sy_cache := (sy_cache s)\<lparr>cy_calls := cy_calls (sy_cache s) @ [Began (req_Context r) i]\<rparr>\<rparr>)"
    have "10 \<le> sum_list (map weight (sy_requests s))"
      using at member_le_sum_list [of "weight (Arrived r)" "map weight (sy_requests s)"] nth_mem by force
    then have "ahead ?s' < ahead s" using at by (simp add: ahead_def map_update sum_list_update)
    then have "goes_on domain api s ?s'" using serving_step.resolve [OF at False Inr] at
      by (simp add: goes_on_def map_update list_update_same_conv)
    then show ?thesis by blast
  qed
qed

lemma goes_on_resolving:
  assumes inv: "serving_inv cfg api c0 s" and lookups: "lookup_inv api flight (sy_cache s)"
    and at: "at_request s k (Resolving r n)"
  shows "\<exists>s'. goes_on (cfg_tenantBaseDomain cfg) api s s'"
proof (cases "remaining (cy_calls (sy_cache s) ! n) = 0")
  case True
  have n: "n < length (cy_calls (sy_cache s))" using serving_invD(3) [OF inv nth_mem [of k]] at by simp
  with True obtain i x where ended: "at_call (sy_cache s) n (Answered i x)" using remaining_0 by blast
  show ?thesis
  proof (cases x)
    case (Inl err)
    from goes_on_request [OF at _ _ serving_step.missing [OF at ended [unfolded Inl]]] show ?thesis by auto
  next
    case (Inr t)
    from goes_on_request [OF at _ _ serving_step.found [OF at ended [unfolded Inr]]] show ?thesis by auto
  qed
next
  case False
  have n: "n < length (cy_calls (sy_cache s))" using serving_invD(3) [OF inv nth_mem [of k]] at by simp
  from False lookups_progress [OF lookups n] obtain j d where j: "j < length (cy_calls (sy_cache s))"
    "cy_calls (advance api j (sy_cache s)) = (cy_calls (sy_cache s))[j := d]"
    "remaining d < remaining (cy_calls (sy_cache s) ! j)" by blast
  with serving_invD(4) [OF inv j(1)] obtain r' where "Resolving r' j \<in> set (sy_requests s)"
    by (auto simp: waited_for_def)
  then obtain k' where "at_request s k' (Resolving r' j)" using at by (metis in_set_conv_nth)
  from goes_on_lookup [OF this j] show ?thesis by blast
qed

lemma serving_progress:
  assumes inv: "serving_inv cfg api c0 s" and lookups: "lookup_inv api flight (sy_cache s)"
    and "alive s" and "\<not> list_all is_responded (sy_requests s)"
  shows "\<exists>s'. goes_on (cfg_tenantBaseDomain cfg) api s s'"
proof -
  from assms(4) obtain k where k: "k < length (sy_requests s)" "\<not> is_responded (sy_requests s ! k)"
    by (auto simp: list_all_length)
  show ?thesis
  proof (cases "sy_requests s ! k")
    case (Arrived r)
    with goes_on_arrived k(1) assms(3) show ?thesis by blast
  next
    case (Resolving r n)
    with goes_on_resolving [OF inv lookups] k(1) assms(3) show ?thesis by blast
  next
    case (Resolved r t)
    with k(1) assms(3) have at: "at_request s k (Resolved r t)" by simp
    obtain x st where run: "ServeMux_ServeHTTP app_mux (tenant_request (r\<lparr>pathValues := []\<rparr>) t) (cy_state (sy_cache s)) = (x, st)"
      by fastforce
    with serving_handled(1) [OF inv at run] goes_on_request [OF at, of "Responded r x"] serving_step.handle [OF at run]
    show ?thesis by auto
  qed (use k(2) in simp)
qed

text \<open>Every request in flight can be brought to its answer.\<close>

lemma serving_drains:
  assumes "singleflight_documented api flight" and "idle_group api flight g"
    and "serving_steps (cfg_tenantBaseDomain cfg) api (serving_start cfg h c g) s" and "alive s"
  shows "\<exists>s'. serving_steps (cfg_tenantBaseDomain cfg) api s s' \<and> list_all is_responded (sy_requests s') \<and>
    sy_phase s' = sy_phase s \<and> map serving_request (sy_requests s') = map serving_request (sy_requests s)"
  using assms(3,4)
proof (induction "ahead s" arbitrary: s rule: less_induct)
  case less
  show ?case
  proof (cases "list_all is_responded (sy_requests s)")
    case False
    from serving_progress [OF serving_reachable [OF assms(1,2) less.prems(1)] less.prems(2) False]
    obtain s1 where s1: "goes_on (cfg_tenantBaseDomain cfg) api s s1" by blast
    then have step: "serving_step (cfg_tenantBaseDomain cfg) api s s1" and "ahead s1 < ahead s" and same: "sy_phase s1 = sy_phase s"
      "map serving_request (sy_requests s1) = map serving_request (sy_requests s)" by (simp_all add: goes_on_def)
    from less.hyps [OF this(2) rtranclp.rtrancl_into_rtrancl [OF less.prems(1) step]] less.prems(2) same step
    show ?thesis by (metis converse_rtranclp_into_rtranclp)
  qed blast
qed

lemma drained_exit:
  assumes "alive s" and ended: "list_all is_responded (sy_requests s)"
  shows "\<exists>s'. serving_steps domain api s s' \<and> sy_phase s' = Terminated 0 \<and> sy_requests s' = sy_requests s"
proof -
  have draining: ?thesis if "serving_steps domain api s s1" "sy_phase s1 = Draining" "sy_requests s1 = sy_requests s" for s1
  proof -
    have "serving_step domain api s1 (s1\<lparr>sy_phase := Terminated 0\<rparr>)"
      using serving_step.shutdown [of s1 None domain api False] that ended by (simp add: shutdown_exit_def)
    with that show ?thesis by (intro exI [of _ "s1\<lparr>sy_phase := Terminated 0\<rparr>"]) auto
  qed
  have running: ?thesis if "serving_steps domain api s s1" "sy_phase s1 = Running" "sy_requests s1 = sy_requests s" for s1
    using that rtranclp.rtrancl_into_rtrancl [OF that(1) serving_step.signal [OF that(2)]]
    by (intro draining [of "s1\<lparr>sy_phase := Draining, sy_ready := False\<rparr>"]) simp_all
  consider "sy_phase s = Starting" | "sy_phase s = Running" | "sy_phase s = Draining" using assms(1) by blast
  then show ?thesis
  proof cases
    case 1
    from serving_step.mark_ready [OF this]
    show ?thesis by (intro running [of "s\<lparr>sy_phase := Running, sy_ready := True\<rparr>"]) auto
  qed (use running [of s] draining [of s] in simp_all)
qed

text \<open>
  C23. The server can always be stopped in an orderly way. In whatever state the running server
  is, with whatever requests in flight at whatever step, including any number waiting in one
  \<^verbatim>\<open>singleflight\<close> call, the goroutines can go on so that every accepted request is answered,
  in its place and none lost, after which \<^verbatim>\<open>Shutdown\<close> returns nil and the process exits with
  status 0: no interleaving of lookups leads into a deadlock.
\<close>

theorem server_drains:
  assumes "singleflight_documented api flight" and "idle_group api flight g"
    and "serving_steps (cfg_tenantBaseDomain cfg) api (serving_start cfg h c g) s"
    and "sy_phase s \<in> {Starting, Running, Draining}"
  shows "\<exists>s'. serving_steps (cfg_tenantBaseDomain cfg) api s s' \<and> sy_phase s' = Terminated 0 \<and>
    list_all is_responded (sy_requests s') \<and>
    map serving_request (sy_requests s') = map serving_request (sy_requests s)"
proof -
  from serving_drains [OF assms] obtain s1 where s1: "serving_steps (cfg_tenantBaseDomain cfg) api s s1"
    "list_all is_responded (sy_requests s1)" "sy_phase s1 = sy_phase s"
    "map serving_request (sy_requests s1) = map serving_request (sy_requests s)" by blast
  with assms(4) have "alive s1" by simp
  from drained_exit [OF this s1(2), of "cfg_tenantBaseDomain cfg" api] s1 show ?thesis
    by (metis rtranclp_trans)
qed

section \<open>A request that nobody interrupts\<close>

lemma serving_gets:
  assumes "at_request s k (Resolving r n)"
  shows "serving_steps domain api s (s\<lparr>sy_cache := (advance api n ^^ j) (sy_cache s)\<rparr>)"
proof (induction j)
  case (Suc j)
  let ?s = "s\<lparr>sy_cache := (advance api n ^^ j) (sy_cache s)\<rparr>"
  have "serving_step domain api ?s (?s\<lparr>sy_cache := advance api n (sy_cache ?s)\<rparr>)"
    using assms by (intro serving_step.get [of _ k r]) simp
  with Suc show ?case by (simp add: rtranclp.rtrancl_into_rtrancl)
qed simp

abbreviation with_request :: "'g serving_state \<Rightarrow> serving list \<Rightarrow> serving \<Rightarrow> 'g serving_state" where
  "with_request s ps p \<equiv> s\<lparr>sy_requests := ps @ [p]\<rparr>"

text \<open>The middleware's lookup, from the request's arrival to the return of \<^verbatim>\<open>Get\<close>.\<close>

lemma lookup_alone:
  assumes "singleflight_documented api flight" and "flight (cy_group (sy_cache s)) i = None" and "alive s"
    and "\<not> is_probe r" and "host_tenant domain r = Inr i"
    and "CachedStore_Get run_now (req_Context r) i (cy_state (sy_cache s)) = (y, st)"
  shows "\<exists>n c. serving_steps domain api (with_request s ps (Arrived r)) (with_request (s\<lparr>sy_cache := c\<rparr>) ps (Resolving r n)) \<and>
    at_call c n (Answered i y) \<and> cy_state c = st"
proof -
  let ?n = "length (cy_calls (sy_cache s))" and ?k = "length ps"
  let ?c = "with_last (sy_cache s) (cy_calls (sy_cache s)) (Began (req_Context r) i)"
  from lookup_uninterrupted [OF assms(1,2,6)] obtain j c where
    c: "(advance api ?n ^^ j) ?c = c" "at_call c ?n (Answered i y)" "cy_state c = st" by fastforce
  have "serving_step domain api (with_request s ps (Arrived r)) (with_request (s\<lparr>sy_cache := ?c\<rparr>) ps (Resolving r ?n))"
    using serving_step.resolve [of "with_request s ps (Arrived r)" ?k r domain i api] assms(3-5) by (cases s) simp
  moreover have "serving_steps domain api (with_request (s\<lparr>sy_cache := ?c\<rparr>) ps (Resolving r ?n))
      (with_request (s\<lparr>sy_cache := c\<rparr>) ps (Resolving r ?n))"
    using serving_gets [of "with_request (s\<lparr>sy_cache := ?c\<rparr>) ps (Resolving r ?n)" ?k r ?n domain api j] c(1) assms(3)
    by (cases s) simp
  ultimately have "serving_steps domain api (with_request s ps (Arrived r)) (with_request (s\<lparr>sy_cache := c\<rparr>) ps (Resolving r ?n))"
    by (rule converse_rtranclp_into_rtranclp)
  with c(2,3) show ?thesis by blast
qed

lemma tenant_request_alone:
  assumes "singleflight_documented api flight" and "\<And>i. flight (cy_group (sy_cache s)) i = None" and "alive s"
    and "singleflight_solo Do" and "server_manager Do domain = Inr m" and "\<not> is_probe r"
    and run: "Wrap m (ServeMux_ServeHTTP app_mux) (r\<lparr>pathValues := []\<rparr>) (cy_state (sy_cache s)) = (x, st)"
  shows "\<exists>c. serving_steps domain api (with_request s ps (Arrived r)) (with_request (s\<lparr>sy_cache := c\<rparr>) ps (Responded r x)) \<and>
    cy_state c = st"
proof (cases "host_tenant domain r")
  case (Inl err)
  note m = server_manager_fields [OF assms(5,4)]
  from run Inl have "x = Inr (http_Error ''tenant not found'' StatusNotFound)" "st = cy_state (sy_cache s)"
    by (simp_all add: Wrap_def Manager_Resolve_def m)
  with serving_step.unresolved [of "with_request s ps (Arrived r)" "length ps" r domain err api] assms(3,6) Inl
  show ?thesis by (intro exI [of _ "sy_cache s"]) auto
next
  case (Inr i)
  note m = server_manager_fields [OF assms(5,4)]
  obtain y st1 where get: "CachedStore_Get run_now (req_Context r) i (cy_state (sy_cache s)) = (y, st1)" by fastforce
  from lookup_alone [OF assms(1-3,6) Inr get] obtain n c where
    steps: "serving_steps domain api (with_request s ps (Arrived r)) (with_request (s\<lparr>sy_cache := c\<rparr>) ps (Resolving r n))"
    and c: "at_call c n (Answered i y)" "cy_state c = st1" by blast
  let ?s1 = "with_request (s\<lparr>sy_cache := c\<rparr>) ps (Resolving r n)"
  show ?thesis
  proof (cases y)
    case (Inl err)
    with run Inr get have "x = Inr (http_Error ''tenant not found'' StatusNotFound)" "st = st1"
      by (simp_all add: Wrap_def Manager_Resolve_def m CachedStore_Store_def)
    with serving_step.missing [of ?s1 "length ps" r n i err domain api] assms(3) c Inl
    show ?thesis using steps by (intro exI [of _ c]) (auto intro: rtranclp.rtrancl_into_rtrancl)
  next
    case y: (Inr t)
    let ?s2 = "with_request (s\<lparr>sy_cache := c\<rparr>) ps (Resolved r t)"
    from run Inr get y have mux: "ServeMux_ServeHTTP app_mux (tenant_request (r\<lparr>pathValues := []\<rparr>) t) (cy_state c) = (x, st)"
      by (simp add: Wrap_def Manager_Resolve_def m CachedStore_Store_def c)
    have "serving_step domain api ?s1 ?s2"
      using serving_step.found [of ?s1 "length ps" r n i t domain api] assms(3) c y by simp
    moreover have "serving_step domain api ?s2 (with_request (s\<lparr>sy_cache := c\<lparr>cy_state := st\<rparr>\<rparr>) ps (Responded r x))"
      using serving_step.handle [of ?s2 "length ps" r t x st domain api] assms(3) mux by (cases s) simp
    ultimately show ?thesis using steps
      by (intro exI [of _ "c\<lparr>cy_state := st\<rparr>"]) (auto intro: rtranclp.rtrancl_into_rtrancl)
  qed
qed

text \<open>
  A server that serves its requests one after the other is one of the interleavings: with no
  lookup in flight, a request that nobody interrupts gets the answer of \<open>server_handler\<close> and
  leaves the cache and the store behind as that does.
\<close>

lemma serving_uninterrupted:
  assumes "singleflight_documented api flight" and "\<And>i. flight (cy_group (sy_cache s)) i = None" and "alive s"
    and "singleflight_solo Do" and "server_manager Do domain = Inr m"
    and run: "server_handler m r \<lparr>sv_tenants = cy_state (sy_cache s), sv_ready = sy_ready s\<rparr> = (x, sv)"
  shows "\<exists>c. serving_steps domain api s (with_request (s\<lparr>sy_cache := c\<rparr>) (sy_requests s) (Responded r x)) \<and>
    cy_state c = sv_tenants sv \<and> sv_ready sv = sy_ready s"
proof -
  let ?s1 = "with_request s (sy_requests s) (Arrived r)" and ?sv = "\<lparr>sv_tenants = cy_state (sy_cache s), sv_ready = sy_ready s\<rparr>"
  have accept: "serving_step domain api s ?s1" using assms(3) by (rule serving_step.accept)
  show ?thesis
  proof (cases "is_probe r")
    case True
    with run have probe: "ServeMux_ServeHTTP probe_routes r ?sv = (x, sv)" by (simp add: server_handler_split)
    with probe_due [OF True, of ?sv] have "sv = ?sv" by auto
    moreover have "serving_step domain api ?s1 (with_request s (sy_requests s) (Responded r x))"
      using serving_step.probe [of ?s1 "length (sy_requests s)" r x sv domain api] assms(3) True probe by simp
    ultimately show ?thesis using accept by (intro exI [of _ "sy_cache s"]) auto
  next
    case False
    with run obtain st where st: "Wrap m (ServeMux_ServeHTTP app_mux) (r\<lparr>pathValues := []\<rparr>) (cy_state (sy_cache s)) = (x, st)"
      and sv: "sv = ?sv\<lparr>sv_tenants := st\<rparr>" by (auto simp: server_handler_split on_tenants_def split: prod.splits)
    from tenant_request_alone [OF assms(1-5) False st, of "sy_requests s"] accept sv show ?thesis
      by (auto intro: converse_rtranclp_into_rtranclp)
  qed
qed

section \<open>Two requests at once\<close>

text \<open>The two requests that the server suggests in its log, accepted one right after the other.\<close>

abbreviation demo_clock :: Clock where
  "demo_clock \<equiv> \<lambda>n. Time (int n)"

abbreviation demo_serving :: "demo_group serving_state" where
  "demo_serving \<equiv> serving_start demo_cfg demo_heap demo_clock (Map.empty, \<lambda>_. None)"

definition two_requests :: "demo_group serving_state" where
  "two_requests = demo_serving\<lparr>sy_requests :=
     [Arrived (server_request ''acme.localhost'' ''users''), Arrived (server_request ''globex.localhost'' ''users'')]\<rparr>"

lemma demo_domain: "cfg_tenantBaseDomain demo_cfg = ''localhost''"
  by (simp add: demo_cfg_def)

lemma two_requests_due:
  "due_answer ''localhost'' (server_request ''acme.localhost'' ''users'') resp \<longleftrightarrow>
     resp = json_response 200 [(''message'', JString ''user list would go here'')]"
  "due_answer ''localhost'' (server_request ''globex.localhost'' ''users'') resp \<longleftrightarrow>
     resp = http_Error ''forbidden: users:write required'' 403"
proof -
  have "Path (server_request host v) = [''api'', v]" and "Method (server_request host v) = ''GET''" for host v
    by (simp_all add: server_request_def)
  then show "due_answer ''localhost'' (server_request ''acme.localhost'' ''users'') resp \<longleftrightarrow>
      resp = json_response 200 [(''message'', JString ''user list would go here'')]"
    and "due_answer ''localhost'' (server_request ''globex.localhost'' ''users'') resp \<longleftrightarrow>
      resp = http_Error ''forbidden: users:write required'' 403"
    by (simp_all add: due_answer_def is_probe_def server_request_resolves server_roles_def)
qed

lemma two_requests_reachable: "serving_steps (cfg_tenantBaseDomain demo_cfg) demo_group_api demo_serving two_requests"
proof -
  let ?s1 = "demo_serving\<lparr>sy_requests := [Arrived (server_request ''acme.localhost'' ''users'')]\<rparr>"
  have "serving_step (cfg_tenantBaseDomain demo_cfg) demo_group_api demo_serving ?s1"
    and "serving_step (cfg_tenantBaseDomain demo_cfg) demo_group_api ?s1 two_requests"
    using serving_step.accept [of demo_serving _ demo_group_api "server_request ''acme.localhost'' ''users''"]
      serving_step.accept [of ?s1 _ demo_group_api "server_request ''globex.localhost'' ''users''"]
    by (simp_all add: serving_start_def two_requests_def)
  then show ?thesis by simp
qed

theorem server_drains_witness:
  "\<exists>s. serving_steps ''localhost'' demo_group_api two_requests s \<and> sy_phase s = Terminated 0 \<and>
     list_all is_responded (sy_requests s) \<and>
     map serving_request (sy_requests s) =
       [server_request ''acme.localhost'' ''users'', server_request ''globex.localhost'' ''users'']"
proof -
  have "sy_phase two_requests \<in> {Starting, Running, Draining}" by (simp add: two_requests_def serving_start_def)
  from server_drains [OF demo_group_documented two_requests_reachable this] show ?thesis
    by (simp add: demo_domain) (simp add: two_requests_def)
qed

theorem server_concurrent_answers_witness:
  "\<exists>s x y. serving_steps ''localhost'' demo_group_api demo_serving s \<and>
     sy_requests s = [Responded (server_request ''acme.localhost'' ''users'') x,
       Responded (server_request ''globex.localhost'' ''users'') y] \<and>
     x = Inr (json_response 200 [(''message'', JString ''user list would go here'')]) \<and>
     y = Inr (http_Error ''forbidden: users:write required'' 403)"
proof -
  let ?acme = "server_request ''acme.localhost'' ''users''" and ?globex = "server_request ''globex.localhost'' ''users''"
  have "alive two_requests" by (simp add: two_requests_def serving_start_def)
  from serving_drains [OF demo_group_documented two_requests_reachable this] obtain s where
    run: "serving_steps (cfg_tenantBaseDomain demo_cfg) demo_group_api two_requests s"
    and all: "list_all is_responded (sy_requests s)" "map serving_request (sy_requests s) = [?acme, ?globex]"
    by (auto simp: two_requests_def)
  from all obtain x y where req: "sy_requests s = [Responded ?acme x, Responded ?globex y]"
    by (auto simp: map_eq_Cons_conv elim!: is_responded.elims)
  note reach = rtranclp_trans [OF two_requests_reachable run]
  from server_concurrent_answers [OF demo_group_documented reach, of ?acme x]
    server_concurrent_answers [OF demo_group_documented reach, of ?globex y] req
  have "x = Inr (json_response 200 [(''message'', JString ''user list would go here'')])"
    "y = Inr (http_Error ''forbidden: users:write required'' 403)"
    by (auto simp: demo_domain two_requests_due)
  with reach req show ?thesis by (auto simp: demo_domain)
qed

end
