(* ===== verification/Loadtest_Concurrent.thy ===== *)
theory Loadtest_Concurrent
  imports Loadtest_Servers Server_Concurrent
begin

text \<open>
  The load test servers under load (\<^verbatim>\<open>src/loadtest/servers/tenantcore/main.go\<close>, \<^verbatim>\<open>src/loadtest/servers/rbac/main.go\<close>):
  any number of requests at the same time, through the middleware, the cache and the
  application of each server. Both applications interpret \<open>tenant_application\<close>.
\<close>

section \<open>The answers due\<close>

text \<open>The tenants that the two programs create, with their roles.\<close>

definition tenantcore_roles :: "TenantID \<rightharpoonup> Role list" where
  "tenantcore_roles = [''acme'' \<mapsto> [], ''globex'' \<mapsto> [], ''initech'' \<mapsto> []]"

definition rbac_roles :: "TenantID \<rightharpoonup> Role list" where
  "rbac_roles = [''acme'' \<mapsto> [''admin''], ''globex'' \<mapsto> [''viewer''], ''initech'' \<mapsto> [''viewer'']]"

text \<open>The handlers behind the middleware.\<close>

definition tenantcore_app :: "mem_state cached_state Handler" where
  "tenantcore_app = ServeMux_ServeHTTP [get_route [''api'', ''me''] tenantcore_me]"

definition rbac_app :: "mem_state cached_state Handler" where
  "rbac_app = ServeMux_ServeHTTP [get_route [''api'', ''users''] rbac_users]"

lemma loadtest_handlers_wrap: "tenantcore_handler m = Wrap m tenantcore_app" "rbac_handler m = Wrap m rbac_app"
  by (simp_all add: tenantcore_handler_def rbac_handler_def tenantcore_app_def rbac_app_def)

text \<open>
  The answer to a request on its own: \<open>path\<close> is the server's one route and \<open>answer_for\<close> the
  answer of its handler to each tenant.
\<close>

definition loadtest_due :: "string list \<Rightarrow> (TenantID \<Rightarrow> Response) \<Rightarrow> Request \<Rightarrow> Response \<Rightarrow> bool" where
  "loadtest_due path answer_for r resp \<longleftrightarrow>
     (case host_tenant ''localhost'' r of
        Inl err \<Rightarrow> resp = http_Error ''tenant not found'' 404
      | Inr i \<Rightarrow>
          (if i \<notin> {''acme'', ''globex'', ''initech''} then resp = http_Error ''tenant not found'' 404
           else if Path r \<noteq> path then resp = http_Error ''404 page not found'' 404
           else if Method r \<notin> {''GET'', ''HEAD''} then resp = http_Error ''Method Not Allowed'' 405
           else resp = answer_for i))"

definition tenantcore_answer :: "TenantID \<Rightarrow> Response" where
  "tenantcore_answer i = json_response 200 [(''tenant_id'', JString i)]"

definition rbac_answer :: "TenantID \<Rightarrow> Response" where
  "rbac_answer i = (if i = ''acme'' then json_response 200 [(''tenant_id'', JString i)]
     else http_Error ''forbidden: users:write required'' 403)"

lemma one_route_mux:
  "ServeMux_ServeHTTP [get_route p handler] r s =
     (if Path r \<noteq> p then (Inr (http_Error ''404 page not found'' StatusNotFound), s)
      else if Method r \<notin> {''GET'', ''HEAD''} then (Inr (http_Error ''Method Not Allowed'' StatusMethodNotAllowed), s)
      else handler (r\<lparr>pathValues := []\<rparr>) s)"
  by (simp add: ServeMux_ServeHTTP_def del: ServeMux_routes.simps(2))

lemma loadtest_missing:
  assumes "dom roles = {''acme'', ''globex'', ''initech''}" and "\<forall>i. host_tenant ''localhost'' r = Inr i \<longrightarrow> roles i = None"
  shows "loadtest_due path answer_for r no_such_tenant"
  using assms by (auto simp: loadtest_due_def status_defs split: sum.split)

lemma seeded_known:
  assumes "seeded roles h i t"
  shows "sID (structs h t) = i" and "i \<in> dom roles" and "roles i = Some (tRoles (deref h t))" and "tID (deref h t) = i"
  using assms by (auto simp: seeded_def deref_def struct_value_def)

interpretation tenantcore: tenant_application tenantcore_roles "''localhost''" tenantcore_app
    "loadtest_due [''api'', ''me''] tenantcore_answer"
proof unfold_locales
  fix st :: "mem_state cached_state" and i t r
  assume "seeded tenantcore_roles (heap (src st)) i t" and "host_tenant ''localhost'' r = Inr i"
  with seeded_known [OF this(1)] show "\<exists>resp. tenantcore_app (tenant_request r t) st = (Inr resp, st) \<and>
      loadtest_due [''api'', ''me''] tenantcore_answer r resp"
    by (auto simp: tenantcore_app_def one_route_mux tenantcore_me_def tenant_id_response_def loadtest_due_def
        tenantcore_answer_def tenantcore_roles_def status_defs split: if_splits)
qed (rule loadtest_missing [of tenantcore_roles]; auto simp: tenantcore_roles_def)

lemma rbac_can_write:
  assumes "seeded rbac_roles h i t"
  shows "RBAC_Can rbac_authz (deref h t) ''users:write'' \<longleftrightarrow> i = ''acme''"
  using seeded_known(2-4) [OF assms]
  by (auto simp: rbac_roles_def rbac_authz_def server_authz_def Can_iff_grants grants_DefineRole split: if_splits)
    (metis list.set_intros(1))+

interpretation rbac: tenant_application rbac_roles "''localhost''" rbac_app "loadtest_due [''api'', ''users''] rbac_answer"
proof unfold_locales
  fix st :: "mem_state cached_state" and i t r
  assume "seeded rbac_roles (heap (src st)) i t" and "host_tenant ''localhost'' r = Inr i"
  with seeded_known [OF this(1)] rbac_can_write [OF this(1)] show "\<exists>resp. rbac_app (tenant_request r t) st = (Inr resp, st) \<and>
      loadtest_due [''api'', ''users''] rbac_answer r resp"
    by (auto simp: rbac_app_def one_route_mux rbac_users_def tenant_id_response_def loadtest_due_def
        rbac_answer_def rbac_roles_def status_defs split: if_splits)
qed (rule loadtest_missing [of rbac_roles]; auto simp: rbac_roles_def)

section \<open>The servers under load\<close>

lemma seed_plain_ok:
  assumes "ms_inv s" and "i \<notin> dom (ms_view s)"
  shows "ms_inv (seed_plain i s)" and "ms_view (seed_plain i s) = (ms_view s)(i \<mapsto> \<lparr>tID = i, tState = Active, tRoles = []\<rparr>)"
proof -
  let ?t = "\<lparr>sID = i, sState = Active, sRoles = None\<rparr>"
  obtain u s' where run: "AdminStore_Create MemoryStore_AdminStore Background ?t s = (u, s')" by fastforce
  then have new: "seed_plain i s = s'" by (simp add: seed_plain_def MemoryStore_AdminStore_def)
  have val: "struct_value (heap s) ?t = \<lparr>tID = i, tState = Active, tRoles = []\<rparr>" and "valid_slice (heap s) (sRoles ?t)"
    by (simp_all add: struct_value_def slice_roles_def valid_slice_def)
  from mem.create_view [OF assms(1) this(2) run] assms(2) val
  show "ms_inv (seed_plain i s)" and "ms_view (seed_plain i s) = (ms_view s)(i \<mapsto> \<lparr>tID = i, tState = Active, tRoles = []\<rparr>)"
    unfolding new by (simp_all del: dom_ms_view)
qed

lemma tenantcore_store_ok:
  "ms_inv (tenantcore_store h)" "map_option tRoles (ms_view (tenantcore_store h) i) = tenantcore_roles i"
proof -
  let ?s0 = "\<lparr>heap = h, mstore = NewMemoryStore\<rparr>"
  note one = seed_plain_ok [OF ms_inv_empty, of "''acme''" h, unfolded ms_view_empty, simplified]
  have "''globex'' \<notin> dom (ms_view (seed_plain ''acme'' ?s0))" unfolding one(2) by simp
  note two = seed_plain_ok [OF one(1) this]
  have "''initech'' \<notin> dom (ms_view (seed_plain ''globex'' (seed_plain ''acme'' ?s0)))" unfolding two(2) one(2) by simp
  note three = seed_plain_ok [OF two(1) this]
  show "ms_inv (tenantcore_store h)" using three(1) by (simp add: tenantcore_store_def)
  show "map_option tRoles (ms_view (tenantcore_store h) i) = tenantcore_roles i"
    using three(2) one(2) two(2) by (auto simp: tenantcore_store_def tenantcore_roles_def)
qed

lemma rbac_store_ok:
  "ms_inv (rbac_store h)" "map_option tRoles (ms_view (rbac_store h) i) = rbac_roles i"
proof -
  let ?s0 = "\<lparr>heap = h, mstore = NewMemoryStore\<rparr>"
  let ?acme = "\<lparr>tID = ''acme'', tState = Active, tRoles = [''admin'']\<rparr>"
  let ?globex = "\<lparr>tID = ''globex'', tState = Active, tRoles = [''viewer'']\<rparr>"
  let ?initech = "\<lparr>tID = ''initech'', tState = Active, tRoles = [''viewer'']\<rparr>"
  note one = seed_ok [OF ms_inv_empty, of ?acme h, unfolded ms_view_empty, simplified]
  have "tID ?globex \<notin> dom (ms_view (seed ?acme ?s0))" unfolding one(2) by simp
  note two = seed_ok [OF one(1) this]
  have "tID ?initech \<notin> dom (ms_view (seed ?globex (seed ?acme ?s0)))" unfolding two(2) one(2) by simp
  note three = seed_ok [OF two(1) this]
  show "ms_inv (rbac_store h)" using three(1) by (simp add: rbac_store_def)
  show "map_option tRoles (ms_view (rbac_store h) i) = rbac_roles i"
    using three(2) one(2) two(2) by (auto simp: rbac_store_def rbac_roles_def)
qed

text \<open>
  C24. The load test servers keep tenants apart under load. For any number of requests in flight at the
  same time, in any interleaving of their steps with each other and with changes of the tenants' states, and
  a \<^verbatim>\<open>singleflight.Group\<close> that behaves as documented, every answer given is the one due to its request alone, and
  no handler panics: the tenant path answers \<^verbatim>\<open>GET /api/me\<close> with the identifier that the request's
  own host names; the path with access control answers \<^verbatim>\<open>GET /api/users\<close> with 200 for \<^verbatim>\<open>acme\<close> and with 403 for the
  other two; a host that names none of the three gets 404, as do other paths, and other methods get 405.
\<close>

theorem loadtest_servers_in_parallel:
  assumes "singleflight_documented api flight" and "idle_group api flight g"
  shows "((wrapped_step ''localhost'' api tenantcore_app)\<^sup>*\<^sup>* (wrapped_begin (tenantcore_store h) (10 * Second) c g) s \<and>
      Responded r x \<in> set (wy_requests s) \<longrightarrow>
      (\<exists>resp. x = Inr resp \<and> loadtest_due [''api'', ''me''] tenantcore_answer r resp)) \<and>
    ((wrapped_step ''localhost'' api rbac_app)\<^sup>*\<^sup>* (wrapped_begin (rbac_store h) (10 * Second) c g) s \<and>
      Responded r x \<in> set (wy_requests s) \<longrightarrow>
      (\<exists>resp. x = Inr resp \<and> loadtest_due [''api'', ''users''] rbac_answer r resp))"
  using tenantcore.wrapped_answers [OF assms tenantcore_store_ok] rbac.wrapped_answers [OF assms rbac_store_ok] by blast

text \<open>A request of \<^verbatim>\<open>globex\<close> is served while one of \<^verbatim>\<open>acme\<close> waits.\<close>

theorem loadtest_servers_in_parallel_witness:
  "\<exists>s x. (wrapped_step ''localhost'' demo_group_api rbac_app)\<^sup>*\<^sup>*
       (wrapped_begin (rbac_store demo_heap) (10 * Second) demo_clock ((Map.empty, \<lambda>_. None) :: demo_group)) s \<and>
     wy_requests s = [Arrived (server_request ''acme.localhost'' ''users''), Responded (server_request ''globex.localhost'' ''users'') x] \<and>
     x = Inr (http_Error ''forbidden: users:write required'' 403)"
proof -
  let ?step = "wrapped_step ''localhost'' demo_group_api rbac_app"
  let ?b = "wrapped_begin (rbac_store demo_heap) (10 * Second) demo_clock ((Map.empty, \<lambda>_. None) :: demo_group)"
  let ?acme = "server_request ''acme.localhost'' ''users''" and ?globex = "server_request ''globex.localhost'' ''users''"
  let ?s1 = "with_arrival ?b [] (Arrived ?acme)" and ?s2 = "with_arrival ?b [Arrived ?acme] (Arrived ?globex)"
  obtain m where m: "server_manager run_now ''localhost'' = Inr m" using server_manager_total by blast
  have solo: "singleflight_solo (run_now :: mem_state Do)" by (simp add: singleflight_solo_def)
  obtain x st where run: "Wrap m rbac_app ?globex (cy_state (wy_cache ?b)) = (x, st)" by fastforce
  have "?step ?b ?s1" using wrapped_step.accept [of _ _ _ ?b ?acme] by (simp add: wrapped_begin_def)
  moreover have "?step ?s1 ?s2" using wrapped_step.accept [of _ _ _ ?s1 ?globex] by simp
  ultimately have begun: "?step\<^sup>*\<^sup>* ?b ?s2" by (simp add: converse_rtranclp_into_rtranclp)
  have "fst (cy_group (wy_cache ?b)) i = None" for i by (simp add: wrapped_begin_def new_cache_system_def)
  from wrapped_alone [OF demo_group_documented(1) this solo m run, of "[Arrived ?acme]"] obtain c where
    "?step\<^sup>*\<^sup>* ?s2 (with_arrival (?b\<lparr>wy_cache := c\<rparr>) [Arrived ?acme] (Responded ?globex x))" by blast
  with begun have reach: "?step\<^sup>*\<^sup>* ?b (with_arrival (?b\<lparr>wy_cache := c\<rparr>) [Arrived ?acme] (Responded ?globex x))" by (rule rtranclp_trans)
  from loadtest_servers_in_parallel [OF demo_group_documented, THEN conjunct2] reach
  obtain resp where "x = Inr resp" and due: "loadtest_due [''api'', ''users''] rbac_answer ?globex resp" by fastforce
  moreover have "resp = http_Error ''forbidden: users:write required'' 403"
    using due by (simp add: loadtest_due_def server_request_resolves) (simp add: server_request_def rbac_answer_def)
  ultimately show ?thesis using reach
    by (intro exI [of _ "with_arrival (?b\<lparr>wy_cache := c\<rparr>) [Arrived ?acme] (Responded ?globex x)"] exI [of _ x]) simp
qed

end
