(* ===== verification/Event_Bus.thy ===== *)
theory Event_Bus
  imports Tenant "HOL-Library.Multiset"
begin

text \<open>
  Tenant events and the in-process event bus (\<^verbatim>\<open>src/eventbus/eventbus.go\<close>,
  \<^verbatim>\<open>src/eventbus/memory.go\<close>). A handler changes the program's state and may panic.
  \<^verbatim>\<open>Publish\<close> starts one goroutine per subscriber and returns; the goroutines run
  later, in any order, so the bus's state carries the calls that have been started and
  not yet run, and \<open>deliver\<close> runs one of them.
\<close>

record TenantEvent =
  ev_TenantID :: TenantID
  ev_State :: State
  ev_Timestamp :: Time

text \<open>What a handler does to the state, and the panic that ended it, if one did.\<close>

type_synonym 'w EventHandler = "TenantEvent \<Rightarrow> 'w \<Rightarrow> 'w \<times> panic option"

record ('w, 'b) EventBus =
  EventBus_Publish :: "Context \<Rightarrow> TenantEvent \<Rightarrow> ('b, unit) call"
  EventBus_Subscribe :: "'w EventHandler \<Rightarrow> ('b, unit) call"

record 'w MemoryEventBus =
  handlers :: "'w EventHandler list"
  started :: "('w EventHandler \<times> TenantEvent) list"

definition NewMemoryEventBus :: "'w MemoryEventBus" where
  "NewMemoryEventBus = \<lparr>handlers = [], started = []\<rparr>"

definition MemoryEventBus_Subscribe :: "'w EventHandler \<Rightarrow> ('w MemoryEventBus, unit) call" where
  "MemoryEventBus_Subscribe h b = (Inr (), b\<lparr>handlers := handlers b @ [h]\<rparr>)"

definition MemoryEventBus_Publish ::
  "Context \<Rightarrow> TenantEvent \<Rightarrow> ('w MemoryEventBus, unit) call" where
  "MemoryEventBus_Publish ctx event b =
     (Inr (), b\<lparr>started := started b @ map (\<lambda>h. (h, event)) (handlers b)\<rparr>)"

definition MemoryEventBus_EventBus :: "('w, 'w MemoryEventBus) EventBus" where
  "MemoryEventBus_EventBus = \<lparr>EventBus_Publish = MemoryEventBus_Publish,
     EventBus_Subscribe = MemoryEventBus_Subscribe\<rparr>"

text \<open>\<open>safeCall\<close> runs a handler and turns a panic into a line of the log.\<close>

definition safeCall :: "'w EventHandler \<Rightarrow> TenantEvent \<Rightarrow> 'w \<Rightarrow> 'w \<times> string list" where
  "safeCall h event w =
     (case h event w of
        (w', None) \<Rightarrow> (w', [])
      | (w', Some (Panic r)) \<Rightarrow> (w', [''eventbus: handler panicked: '' @ r]))"

text \<open>The scheduler runs the \<open>k\<close>-th started goroutine to its end.\<close>

definition deliver :: "nat \<Rightarrow> 'w MemoryEventBus \<times> 'w \<Rightarrow> 'w MemoryEventBus \<times> 'w" where
  "deliver k = (\<lambda>(b, w).
     if k < length (started b)
     then (b\<lparr>started := delete_at k (started b)\<rparr>,
           fst (safeCall (fst (started b ! k)) (snd (started b ! k)) w))
     else (b, w))"

text \<open>Publications and goroutine runs, interleaved in any way.\<close>

datatype bus_action = Publish TenantEvent | Run nat

fun bus_step :: "bus_action \<Rightarrow> 'w MemoryEventBus \<times> 'w \<Rightarrow> 'w MemoryEventBus \<times> 'w" where
  "bus_step (Publish e) (b, w) = (snd (MemoryEventBus_Publish Background e b), w)"
| "bus_step (Run k) bw = deliver k bw"

definition bus_run :: "bus_action list \<Rightarrow> 'w MemoryEventBus \<times> 'w \<Rightarrow> 'w MemoryEventBus \<times> 'w" where
  "bus_run as bw = fold bus_step as bw"

fun published :: "bus_action list \<Rightarrow> TenantEvent list" where
  "published [] = []"
| "published (Publish e # as) = e # published as"
| "published (Run k # as) = published as"

section \<open>Every started call is run once, in some order\<close>

lemma mset_delete_at:
  "k < length xs \<Longrightarrow> mset xs = add_mset (xs ! k) (mset (delete_at k xs))"
proof -
  assume "k < length xs"
  then have "xs = take k xs @ xs ! k # drop (Suc k) xs" by (simp add: id_take_nth_drop)
  then have "mset xs = mset (take k xs @ xs ! k # drop (Suc k) xs)" by simp
  then show ?thesis by (simp add: delete_at_def)
qed

abbreviation calls_of :: "'w MemoryEventBus \<Rightarrow> TenantEvent \<Rightarrow> ('w EventHandler \<times> TenantEvent) list" where
  "calls_of b e \<equiv> map (\<lambda>h. (h, e)) (handlers b)"

text \<open>
  Whatever the interleaving, the calls that were run are, together with those still
  started, exactly the calls started before and one call per subscriber and published
  event; the state is the result of running them one after the other under
  \<^const>\<open>safeCall\<close>.
\<close>

lemma bus_run_calls:
  "bus_run as (b, w) = (b', w') \<Longrightarrow> handlers b' = handlers b \<and>
     (\<exists>cs. mset cs + mset (started b') =
             mset (started b) + mset (concat (map (calls_of b) (published as))) \<and>
           w' = fold (\<lambda>(h, e) w. fst (safeCall h e w)) cs w)"
proof (induction as arbitrary: b w)
  case Nil
  then show ?case by (auto simp: bus_run_def)
next
  case (Cons a as)
  obtain b1 w1 where one: "bus_step a (b, w) = (b1, w1)" by fastforce
  with Cons.prems have "bus_run as (b1, w1) = (b', w')" by (simp add: bus_run_def)
  from Cons.IH [OF this] obtain cs where h: "handlers b' = handlers b1"
    and cs: "mset cs + mset (started b') =
      mset (started b1) + mset (concat (map (calls_of b1) (published as)))"
    and w': "w' = fold (\<lambda>(h, e) w. fst (safeCall h e w)) cs w1" by auto
  show ?case
  proof (cases a)
    case (Publish e)
    with one h cs w' show ?thesis
      by (auto simp: MemoryEventBus_Publish_def add.assoc intro!: exI [of _ cs])
  next
    case (Run k)
    show ?thesis
    proof (cases "k < length (started b)")
      case True
      let ?c = "started b ! k"
      from one Run True have b1: "b1 = b\<lparr>started := delete_at k (started b)\<rparr>"
        and w1: "w1 = fst (safeCall (fst ?c) (snd ?c) w)" by (auto simp: deliver_def)
      have "mset (?c # cs) + mset (started b') =
          mset (started b) + mset (concat (map (calls_of b) (published (a # as))))"
        using cs mset_delete_at [OF True] b1 Run by simp
      moreover have "w' = fold (\<lambda>(h, e) w. fst (safeCall h e w)) (?c # cs) w"
        using w' w1 by (simp add: split_def)
      moreover have "handlers b' = handlers b" using h b1 by simp
      ultimately show ?thesis by blast
    next
      case False
      with one Run have "b1 = b" "w1 = w" by (auto simp: deliver_def)
      with h cs w' Run show ?thesis by auto
    qed
  qed
qed

text \<open>Every bus can be drained: running the oldest call, again and again, leaves none.\<close>

lemma bus_run_drains:
  "\<exists>w'. bus_run (replicate (length (started b)) (Run 0)) (b, w) = (b\<lparr>started := []\<rparr>, w')"
proof (induction "started b" arbitrary: b w)
  case Nil
  then show ?case by (simp add: bus_run_def)
next
  case (Cons c cs)
  let ?b = "b\<lparr>started := cs\<rparr>"
  have "deliver 0 (b, w) = (?b, fst (safeCall (fst c) (snd c) w))"
    using Cons.hyps(2) [symmetric] by (simp add: deliver_def delete_at_def)
  moreover have "\<exists>w'. bus_run (replicate (length cs) (Run 0)) (?b, w0) = (?b\<lparr>started := []\<rparr>, w')" for w0
    using Cons.hyps(1) [of ?b w0] by simp
  ultimately show ?case
    using Cons.hyps(2) [symmetric] by (simp add: bus_run_def)
qed

end
