(* ===== verification/Ban_Checker.thy ===== *)
theory Ban_Checker
  imports Event_Bus
begin

text \<open>
  The ban checker (\<^verbatim>\<open>src/banchecker/banchecker.go\<close>): the last known ban state of each
  tenant with the time of that knowledge. Shown for calls of \<^verbatim>\<open>apply\<close> that do not overlap: two
  updates commute unless they contradict each other at one instant, and a snapshot never
  overwrites newer events. \<^verbatim>\<open>apply\<close> itself loads and stores in two separate operations on a
  \<^verbatim>\<open>sync.Map\<close>; the interleavings of concurrent calls are a step relation, in which the
  newest information can lose. \<open>Ban_Threads\<close> has what holds of overlapping calls.
\<close>

section \<open>State and operations\<close>

record banEntry =
  be_banned :: bool
  be_updatedAt :: Time

record BanChecker =
  bc_banned :: "TenantID \<rightharpoonup> banEntry"

definition BanChecker_apply :: "BanChecker \<Rightarrow> TenantID \<Rightarrow> bool \<Rightarrow> Time \<Rightarrow> BanChecker" where
  "BanChecker_apply bc i banned at =
     (case bc_banned bc i of
        Some e \<Rightarrow>
          (if Time_After (be_updatedAt e) at then bc
           else bc\<lparr>bc_banned := (bc_banned bc)(i \<mapsto> \<lparr>be_banned = banned, be_updatedAt = at\<rparr>)\<rparr>)
      | None \<Rightarrow> bc\<lparr>bc_banned := (bc_banned bc)(i \<mapsto> \<lparr>be_banned = banned, be_updatedAt = at\<rparr>)\<rparr>)"

definition BanChecker_handleEvent :: "BanChecker \<Rightarrow> TenantEvent \<Rightarrow> BanChecker" where
  "BanChecker_handleEvent bc event =
     BanChecker_apply bc (ev_TenantID event) (ev_State event = Banned) (ev_Timestamp event)"

text \<open>
  \<^verbatim>\<open>New\<close> subscribes the checker's handler and ignores an error of \<^verbatim>\<open>Subscribe\<close>. The
  state that handlers change is the checker itself.
\<close>

definition BanChecker_New ::
  "(BanChecker, 'b) EventBus \<Rightarrow> 'b \<Rightarrow> BanChecker \<times> 'b" where
  "BanChecker_New bus b =
     (let bc = \<lparr>bc_banned = Map.empty\<rparr>;
          (err, b') = EventBus_Subscribe bus (\<lambda>event bc. (BanChecker_handleEvent bc event, None)) b
      in (bc, b'))"

definition BanChecker_IsBanned :: "BanChecker \<Rightarrow> TenantID \<Rightarrow> bool" where
  "BanChecker_IsBanned bc i =
     (case bc_banned bc i of None \<Rightarrow> False | Some v \<Rightarrow> be_banned v)"

text \<open>The loop of \<^verbatim>\<open>LoadInitialBannedList\<close>, and the function.\<close>

fun load_loop ::
  "'s Store \<Rightarrow> Context \<Rightarrow> Time \<Rightarrow> TenantID list \<Rightarrow> BanChecker \<times> 's \<Rightarrow> unit result \<times> BanChecker \<times> 's" where
  "load_loop source ctx snapshotTime [] (bc, s) = (Inr (), bc, s)"
| "load_loop source ctx snapshotTime (i # ids) (bc, s) =
     (case Store_IsBanned source ctx i s of
        (Inl err, s') \<Rightarrow> (Inl err, bc, s')
      | (Inr banned, s') \<Rightarrow>
          load_loop source ctx snapshotTime ids (BanChecker_apply bc i banned snapshotTime, s'))"

definition BanChecker_LoadInitialBannedList ::
  "BanChecker \<Rightarrow> Context \<Rightarrow> 's Store \<Rightarrow> TenantID list \<Rightarrow> 's \<times> Clock \<Rightarrow>
     unit result \<times> BanChecker \<times> 's \<times> Clock" where
  "BanChecker_LoadInitialBannedList bc ctx source ids sc =
     (let (snapshotTime, c) = time_Now (snd sc);
          (r, bc', s') = load_loop source ctx snapshotTime ids (bc, fst sc)
      in (r, bc', s', c))"

section \<open>The newest information wins\<close>

lemma apply_lookup:
  "bc_banned (BanChecker_apply bc i b t) j =
     (if j = i \<and> (\<forall>e. bc_banned bc i = Some e \<longrightarrow> be_updatedAt e \<le> t)
      then Some \<lparr>be_banned = b, be_updatedAt = t\<rparr> else bc_banned bc j)"
  by (auto simp: BanChecker_apply_def not_less split: option.splits)

text \<open>An update replaces the entry by the newer of the two, the new one when they tie.\<close>

definition newer :: "banEntry option \<Rightarrow> banEntry \<Rightarrow> banEntry" where
  "newer x e = (case x of None \<Rightarrow> e
     | Some e' \<Rightarrow> (if be_updatedAt e < be_updatedAt e' then e' else e))"

lemma apply_newer:
  "BanChecker_apply bc i b t = bc\<lparr>bc_banned := (bc_banned bc)
     (i \<mapsto> newer (bc_banned bc i) \<lparr>be_banned = b, be_updatedAt = t\<rparr>)\<rparr>"
  by (auto simp: BanChecker_apply_def newer_def map_upd_triv split: option.splits)

lemma apply_newer_lookup:
  "bc_banned (BanChecker_apply bc i b t) j =
     (if j = i then Some (newer (bc_banned bc i) \<lparr>be_banned = b, be_updatedAt = t\<rparr>)
      else bc_banned bc j)"
  by (simp add: apply_newer)

text \<open>Two updates commute unless they are simultaneous and contradict each other.\<close>

lemma apply_commute:
  assumes "i = j \<Longrightarrow> t = u \<Longrightarrow> a = b"
  shows "BanChecker_apply (BanChecker_apply bc i a t) j b u =
    BanChecker_apply (BanChecker_apply bc j b u) i a t"
proof (cases "i = j")
  case True
  let ?e = "\<lparr>be_banned = a, be_updatedAt = t\<rparr>" and ?f = "\<lparr>be_banned = b, be_updatedAt = u\<rparr>"
  have "newer (Some (newer x ?e)) ?f = newer (Some (newer x ?f)) ?e" for x
    using assms True by (cases x) (auto simp: newer_def)
  with True show ?thesis by (simp add: apply_newer)
next
  case False
  then show ?thesis by (simp add: apply_newer fun_upd_twist)
qed

text \<open>Nothing is forgotten: the time of what is known about a tenant never decreases.\<close>

lemma apply_monotone:
  assumes "bc_banned bc j = Some e"
  shows "\<exists>e'. bc_banned (BanChecker_apply bc i b t) j = Some e' \<and> be_updatedAt e \<le> be_updatedAt e'"
  using assms by (auto simp: apply_lookup)

definition no_conflict :: "TenantEvent list \<Rightarrow> bool" where
  "no_conflict es \<longleftrightarrow> (\<forall>e \<in> set es. \<forall>e' \<in> set es.
     ev_TenantID e = ev_TenantID e' \<and> ev_Timestamp e = ev_Timestamp e' \<longrightarrow>
     (ev_State e = Banned \<longleftrightarrow> ev_State e' = Banned))"

abbreviation handle_all :: "TenantEvent list \<Rightarrow> BanChecker \<Rightarrow> BanChecker" where
  "handle_all es bc \<equiv> fold (\<lambda>e bc. BanChecker_handleEvent bc e) es bc"

lemma handle_all_permute:
  assumes "no_conflict es" and "mset es = mset es'"
  shows "handle_all es bc = handle_all es' bc"
proof -
  have "(\<lambda>bc. BanChecker_handleEvent bc e) \<circ> (\<lambda>bc. BanChecker_handleEvent bc e') =
      (\<lambda>bc. BanChecker_handleEvent bc e') \<circ> (\<lambda>bc. BanChecker_handleEvent bc e)"
    if "e \<in> set es" "e' \<in> set es" for e e'
  proof (rule ext)
    fix bc
    have "ev_TenantID e' = ev_TenantID e \<Longrightarrow> ev_Timestamp e' = ev_Timestamp e \<Longrightarrow>
        (ev_State e' = Banned) = (ev_State e = Banned)"
      using assms(1) that unfolding no_conflict_def by blast
    from apply_commute [OF this] show "((\<lambda>bc. BanChecker_handleEvent bc e) \<circ>
        (\<lambda>bc. BanChecker_handleEvent bc e')) bc =
        ((\<lambda>bc. BanChecker_handleEvent bc e') \<circ> (\<lambda>bc. BanChecker_handleEvent bc e)) bc"
      by (simp add: BanChecker_handleEvent_def)
  qed
  then have "fold (\<lambda>e bc. BanChecker_handleEvent bc e) es = fold (\<lambda>e bc. BanChecker_handleEvent bc e) es'"
    using assms(2) by (intro fold_multiset_equiv) auto
  then show ?thesis by simp
qed

text \<open>
  What a checker knows after a sequence of events: the newest of them for each tenant, the
  later of two simultaneous ones, unless it already knew something newer.
\<close>

definition informed :: "TenantEvent list \<Rightarrow> BanChecker \<Rightarrow> BanChecker \<Rightarrow> TenantID \<Rightarrow> bool" where
  "informed es bc bc' i \<longleftrightarrow>
     (\<forall>e \<in> set es. ev_TenantID e = i \<longrightarrow> (\<exists>v. bc_banned bc' i = Some v \<and> ev_Timestamp e \<le> be_updatedAt v)) \<and>
     (bc_banned bc' i = bc_banned bc i \<or>
      (\<exists>e \<in> set es. ev_TenantID e = i \<and>
         bc_banned bc' i = Some \<lparr>be_banned = (ev_State e = Banned), be_updatedAt = ev_Timestamp e\<rparr>))"

lemma handle_all_informed: "informed es bc (handle_all es bc) i"
proof (induction es arbitrary: bc)
  case (Cons e es)
  let ?bc = "BanChecker_handleEvent bc e" and ?fin = "handle_all es (BanChecker_handleEvent bc e)"
  have keep: "\<exists>v'. bc_banned (handle_all es b) i = Some v' \<and> be_updatedAt v \<le> be_updatedAt v'"
    if "bc_banned b i = Some v" for b v
    using that
  proof (induction es arbitrary: b v)
    case (Cons f fs)
    obtain w where
      "bc_banned (BanChecker_handleEvent b f) i = Some w" "be_updatedAt v \<le> be_updatedAt w"
      using apply_monotone [OF Cons.prems] unfolding BanChecker_handleEvent_def by blast
    with Cons.IH [of "BanChecker_handleEvent b f" w] show ?case by force
  qed auto
  have new: "\<exists>v. bc_banned ?bc i = Some v \<and> ev_Timestamp e \<le> be_updatedAt v" if "ev_TenantID e = i"
    using that by (auto simp: BanChecker_handleEvent_def apply_lookup not_le)
  then have "\<exists>v. bc_banned ?fin i = Some v \<and> ev_Timestamp e \<le> be_updatedAt v" if "ev_TenantID e = i"
    using that keep by (meson order_trans)
  moreover have "bc_banned ?bc i = bc_banned bc i \<or> (ev_TenantID e = i \<and>
      bc_banned ?bc i = Some \<lparr>be_banned = (ev_State e = Banned), be_updatedAt = ev_Timestamp e\<rparr>)"
    by (auto simp: BanChecker_handleEvent_def apply_lookup)
  ultimately show ?case using Cons.IH [of ?bc] by (auto simp: informed_def)
qed (simp add: informed_def)

lemma handle_all_newest:
  defines "bc' \<equiv> \<lambda>es. handle_all es \<lparr>bc_banned = Map.empty\<rparr>"
  shows "if \<exists>e \<in> set es. ev_TenantID e = i
    then \<exists>e \<in> set es. ev_TenantID e = i \<and>
      (\<forall>e' \<in> set es. ev_TenantID e' = i \<longrightarrow> ev_Timestamp e' \<le> ev_Timestamp e) \<and>
      bc_banned (bc' es) i = Some \<lparr>be_banned = (ev_State e = Banned), be_updatedAt = ev_Timestamp e\<rparr>
    else \<not> BanChecker_IsBanned (bc' es) i"
proof -
  have "\<forall>e \<in> set es. ev_TenantID e = i \<longrightarrow>
      (\<exists>v. bc_banned (bc' es) i = Some v \<and> ev_Timestamp e \<le> be_updatedAt v)"
    and "bc_banned (bc' es) i = None \<or> (\<exists>e \<in> set es. ev_TenantID e = i \<and>
      bc_banned (bc' es) i = Some \<lparr>be_banned = (ev_State e = Banned), be_updatedAt = ev_Timestamp e\<rparr>)"
    using handle_all_informed [of es "\<lparr>bc_banned = Map.empty\<rparr>" i] by (auto simp: informed_def bc'_def)
  then show ?thesis
    by (cases "bc_banned (bc' es) i") (auto simp: BanChecker_IsBanned_def)
qed

section \<open>Behind the in-process bus\<close>

text \<open>A new checker on a new bus.\<close>

definition ban_handler :: "BanChecker EventHandler" where
  "ban_handler event bc = (BanChecker_handleEvent bc event, None)"

definition ban_bus :: "BanChecker MemoryEventBus" where
  "ban_bus = \<lparr>handlers = [ban_handler], started = []\<rparr>"

lemma started_ban_bus [simp]: "started ban_bus = []"
  by (simp add: ban_bus_def)

lemma New_on_memory_bus:
  "BanChecker_New MemoryEventBus_EventBus NewMemoryEventBus = (\<lparr>bc_banned = Map.empty\<rparr>, ban_bus)"
  by (simp add: BanChecker_New_def ban_bus_def MemoryEventBus_EventBus_def MemoryEventBus_Subscribe_def
      NewMemoryEventBus_def ban_handler_def fun_eq_iff)

section \<open>Loading the initial snapshot\<close>

text \<open>
  What the loop does to the checker when the source answers from a fixed state: it applies
  the answers, in the order of the list, up to the first error.
\<close>

lemma load_loop_answers:
  assumes "\<And>i. Store_IsBanned source ctx i s = (answer i, s)"
  shows "load_loop source ctx t ids (bc, s) =
    (case dropWhile (\<lambda>i. \<not> isl (answer i)) ids of [] \<Rightarrow> Inr () | i # _ \<Rightarrow> Inl (projl (answer i)),
     fold (\<lambda>i bc. BanChecker_apply bc i (projr (answer i)) t)
       (takeWhile (\<lambda>i. \<not> isl (answer i)) ids) bc, s)"
  by (induction ids arbitrary: bc) (auto simp: assms split: sum.splits)

lemma newer_idem: "newer (Some (newer x e)) e = newer x e"
  by (simp add: newer_def split: option.splits)

lemma fold_apply_snapshot:
  "bc_banned (fold (\<lambda>i bc. BanChecker_apply bc i (f i) t) ids bc) j =
     (if j \<in> set ids then Some (newer (bc_banned bc j) \<lparr>be_banned = f j, be_updatedAt = t\<rparr>)
      else bc_banned bc j)"
proof (induction ids arbitrary: bc)
  case (Cons i ids)
  show ?case
    using Cons.IH [of "BanChecker_apply bc i (f i) t"]
    by (auto simp: apply_newer_lookup newer_idem)
qed simp

text \<open>
  The initial snapshot. Against any source that answers \<^verbatim>\<open>IsBanned\<close> without
  changing, loading succeeds exactly if the source knows every listed tenant, and then
  the checker has, for each listed tenant, the source's answer dated with the reading of
  the clock taken before the first question, unless it already had newer information,
  which stays untouched, as do the tenants that are not listed.
\<close>

lemma load_initial_never_overwrites_newer:
  assumes "\<And>i. Store_IsBanned source ctx i s = (answer i, s)"
    and "BanChecker_LoadInitialBannedList bc ctx source ids (s, c) = (r, bc', s', c')"
  shows "(r = Inr () \<longleftrightarrow> (\<forall>i \<in> set ids. \<exists>b. answer i = Inr b)) \<and>
    (r = Inr () \<longrightarrow> bc_banned bc' j =
      (if j \<notin> set ids then bc_banned bc j
       else case bc_banned bc j of
         Some e \<Rightarrow> Some (if c 0 < be_updatedAt e then e
           else \<lparr>be_banned = projr (answer j), be_updatedAt = c 0\<rparr>)
       | None \<Rightarrow> Some \<lparr>be_banned = projr (answer j), be_updatedAt = c 0\<rparr>))"
proof -
  from assms(2) have loop: "load_loop source ctx (c 0) ids (bc, s) = (r, bc', s')"
    by (auto simp: BanChecker_LoadInitialBannedList_def time_Now_def split: prod.splits)
  note eq = loop [unfolded load_loop_answers [OF assms(1)]]
  show ?thesis
  proof (cases "\<forall>i \<in> set ids. \<exists>b. answer i = Inr b")
    case True
    then have all: "\<forall>i \<in> set ids. \<not> isl (answer i)" by fastforce
    then have "takeWhile (\<lambda>i. \<not> isl (answer i)) ids = ids" "dropWhile (\<lambda>i. \<not> isl (answer i)) ids = []"
      by (simp_all add: takeWhile_eq_all_conv)
    with eq have "r = Inr ()" and "bc' = fold (\<lambda>i bc. BanChecker_apply bc i (projr (answer i)) (c 0)) ids bc"
      by auto
    with True show ?thesis by (simp add: fold_apply_snapshot newer_def split: option.splits)
  next
    case False
    then obtain i where "i \<in> set ids" "isl (answer i)" by (auto simp: isl_def) (metis sum.exhaust)
    then obtain k ks where "dropWhile (\<lambda>i. \<not> isl (answer i)) ids = k # ks"
      by (cases "dropWhile (\<lambda>i. \<not> isl (answer i)) ids") (auto simp: dropWhile_eq_Nil_conv)
    with eq have "r \<noteq> Inr ()" by auto
    with False show ?thesis by simp
  qed
qed

section \<open>Concurrent updates\<close>

text \<open>
  \<^verbatim>\<open>apply\<close> takes no lock: \<^verbatim>\<open>sync.Map\<close>'s \<^verbatim>\<open>Load\<close> and \<^verbatim>\<open>Store\<close> are each atomic,
  and other goroutines run between them. A goroutine inside \<^verbatim>\<open>apply\<close> has not loaded
  yet, has loaded an entry (or none), or has returned.
\<close>

datatype apply_thread =
    Starting TenantID bool Time
  | Loaded TenantID bool Time "banEntry option"
  | Returned

inductive apply_step ::
  "BanChecker \<times> apply_thread list \<Rightarrow> BanChecker \<times> apply_thread list \<Rightarrow> bool" where
  apply_load: "k < length ts \<Longrightarrow> ts ! k = Starting i b t \<Longrightarrow>
    apply_step (bc, ts) (bc, ts[k := Loaded i b t (bc_banned bc i)])"
| apply_ignore: "k < length ts \<Longrightarrow> ts ! k = Loaded i b t (Some e) \<Longrightarrow> Time_After (be_updatedAt e) t \<Longrightarrow>
    apply_step (bc, ts) (bc, ts[k := Returned])"
| apply_store: "k < length ts \<Longrightarrow> ts ! k = Loaded i b t x \<Longrightarrow>
    (\<forall>e. x = Some e \<longrightarrow> \<not> Time_After (be_updatedAt e) t) \<Longrightarrow>
    apply_step (bc, ts)
      (bc\<lparr>bc_banned := (bc_banned bc)(i \<mapsto> \<lparr>be_banned = b, be_updatedAt = t\<rparr>)\<rparr>, ts[k := Returned])"

declare apply_step.intros [step_intros]

inductive_cases apply_stepE: "apply_step (bc, ts) st"

abbreviation apply_steps where "apply_steps \<equiv> apply_step\<^sup>*\<^sup>*"

text \<open>A goroutine that runs alone does what the function \<^const>\<open>BanChecker_apply\<close> says.\<close>

lemma apply_alone:
  "apply_steps (bc, [Starting i b t]) (BanChecker_apply bc i b t, [Returned])"
proof -
  have load: "apply_step (bc, [Starting i b t]) (bc, [Loaded i b t (bc_banned bc i)])"
    using apply_load [of 0 "[Starting i b t]"] by simp
  have "apply_step (bc, [Loaded i b t (bc_banned bc i)]) (BanChecker_apply bc i b t, [Returned])"
  proof (cases "\<exists>e. bc_banned bc i = Some e \<and> t < be_updatedAt e")
    case True
    then show ?thesis
      using apply_ignore [of 0 "[Loaded i b t (bc_banned bc i)]" i b t]
      by (auto simp: BanChecker_apply_def)
  next
    case False
    then show ?thesis
      using apply_store [of 0 "[Loaded i b t (bc_banned bc i)]" i b t "bc_banned bc i" bc]
      by (auto simp: BanChecker_apply_def split: option.splits)
  qed
  with load show ?thesis by (meson converse_rtranclp_into_rtranclp rtranclp.rtrancl_refl)
qed

text \<open>
  C32. The guarantee of \<^verbatim>\<open>apply\<close>'s comment does not survive concurrency. Whatever the
  checker knew before (nothing newer than the older of the two reports), two goroutines
  that report on the same tenant at different times can interleave so that both have
  returned and the older report is what the checker keeps: the newer one, a ban for
  instance, is lost.
\<close>

theorem ban_checker_lost_update:
  assumes "t1 < t2" and "\<forall>e. bc_banned bc i = Some e \<longrightarrow> be_updatedAt e \<le> t1"
  shows "\<exists>bc'. apply_steps (bc, [Starting i b1 t1, Starting i b2 t2]) (bc', [Returned, Returned]) \<and>
    bc_banned bc' i = Some \<lparr>be_banned = b1, be_updatedAt = t1\<rparr>"
proof -
  let ?x = "bc_banned bc i"
  let ?bc2 = "bc\<lparr>bc_banned := (bc_banned bc)(i \<mapsto> \<lparr>be_banned = b2, be_updatedAt = t2\<rparr>)\<rparr>"
  let ?bc1 = "?bc2\<lparr>bc_banned := (bc_banned ?bc2)(i \<mapsto> \<lparr>be_banned = b1, be_updatedAt = t1\<rparr>)\<rparr>"
  have old: "\<forall>e. ?x = Some e \<longrightarrow> \<not> Time_After (be_updatedAt e) t1"
    "\<forall>e. ?x = Some e \<longrightarrow> \<not> Time_After (be_updatedAt e) t2"
    using assms by fastforce+
  have "apply_step (bc, [Starting i b1 t1, Starting i b2 t2]) (bc, [Loaded i b1 t1 ?x, Starting i b2 t2])"
    using apply_load [of 0 "[Starting i b1 t1, Starting i b2 t2]"] by simp
  moreover have "apply_step (bc, [Loaded i b1 t1 ?x, Starting i b2 t2]) (bc, [Loaded i b1 t1 ?x, Loaded i b2 t2 ?x])"
    using apply_load [of 1 "[Loaded i b1 t1 ?x, Starting i b2 t2]"] by simp
  moreover have "apply_step (bc, [Loaded i b1 t1 ?x, Loaded i b2 t2 ?x]) (?bc2, [Loaded i b1 t1 ?x, Returned])"
    using apply_store [of 1 "[Loaded i b1 t1 ?x, Loaded i b2 t2 ?x]" i b2 t2 ?x bc] old(2) by simp
  moreover have "apply_step (?bc2, [Loaded i b1 t1 ?x, Returned]) (?bc1, [Returned, Returned])"
    using apply_store [of 0 "[Loaded i b1 t1 ?x, Returned]" i b1 t1 ?x ?bc2] old(1) by simp
  ultimately have "apply_steps (bc, [Starting i b1 t1, Starting i b2 t2]) (?bc1, [Returned, Returned])"
    by (meson converse_rtranclp_into_rtranclp rtranclp.rtrancl_refl)
  then show ?thesis by (intro exI [of _ ?bc1]) simp
qed

theorem ban_checker_lost_update_witness:
  "\<exists>bc'. apply_steps (\<lparr>bc_banned = Map.empty\<rparr>,
       [Starting ''acme'' False (Time 1), Starting ''acme'' True (Time 2)]) (bc', [Returned, Returned]) \<and>
     \<not> BanChecker_IsBanned bc' ''acme''"
  using ban_checker_lost_update [of "Time 1" "Time 2" "\<lparr>bc_banned = Map.empty\<rparr>" "''acme''" False True]
  by (auto simp: BanChecker_IsBanned_def)

end
