(* ===== verification/Retry_Queue.thy ===== *)
theory Retry_Queue
  imports Event_Bus
begin

text \<open>
  The publish retry queue (\<^verbatim>\<open>src/admin/retry_queue.go\<close>). Pending events are objects
  with an identity (\<^verbatim>\<open>indexOf\<close> compares pointers and attempts are counted in place),
  so the queue is a list of addresses with a heap of \<^verbatim>\<open>pendingEvent\<close>s. A round of the
  worker is \<open>collect\<close> (under the mutex), \<open>publish\<close> (without it) and \<open>apply\<close> (under it
  again); here a round is one function, and \<open>Retry_Worker\<close> has the interleavings with
  \<^verbatim>\<open>Enqueue\<close> between the three. The lines that \<^verbatim>\<open>log.Printf\<close> writes about lost events are kept.
\<close>

section \<open>State and operations\<close>

record pendingEvent =
  pe_event :: TenantEvent
  pe_attempts :: int
  pe_nextAttemptAt :: Time

datatype queue_log =
    LogFull int TenantEvent int
  | LogExhausted TenantEvent int go_error

record PublishRetryQueue =
  q_objects :: "addr \<Rightarrow> pendingEvent"
  q_next_addr :: addr
  q_pending :: "addr list"
  q_maxRetries :: int
  q_maxSize :: int
  q_baseBackoff :: Duration
  q_log :: "queue_log list"

definition defaultMaxRetries :: int where "defaultMaxRetries = 5"
definition defaultMaxSize :: int where "defaultMaxSize = 1000"
definition defaultBaseBackoff :: Duration where "defaultBaseBackoff = Second"

definition NewPublishRetryQueue :: PublishRetryQueue where
  "NewPublishRetryQueue = \<lparr>q_objects = (\<lambda>_. \<lparr>pe_event = \<lparr>ev_TenantID = [], ev_State = [],
       ev_Timestamp = Time 0\<rparr>, pe_attempts = 0, pe_nextAttemptAt = Time 0\<rparr>),
     q_next_addr = 0, q_pending = [], q_maxRetries = defaultMaxRetries,
     q_maxSize = defaultMaxSize, q_baseBackoff = defaultBaseBackoff, q_log = []\<rparr>"

text \<open>Dropping the oldest event of a full queue: \<^verbatim>\<open>q.pending[0]\<close> panics on an empty one.\<close>

definition drop_oldest :: "PublishRetryQueue \<Rightarrow> panic + PublishRetryQueue" where
  "drop_oldest q =
     (if int (length (q_pending q)) \<ge> q_maxSize q
      then (case q_pending q of
              [] \<Rightarrow> Inl (Panic ''index out of range [0] with length 0'')
            | dropped # rest \<Rightarrow>
                Inr (q\<lparr>q_pending := rest,
                  q_log := q_log q @ [LogFull (q_maxSize q) (pe_event (q_objects q dropped))
                    (pe_attempts (q_objects q dropped))]\<rparr>))
      else Inr q)"

definition PublishRetryQueue_Enqueue ::
  "TenantEvent \<Rightarrow> PublishRetryQueue \<times> Clock \<Rightarrow> panic + (PublishRetryQueue \<times> Clock)" where
  "PublishRetryQueue_Enqueue event qc =
     (case drop_oldest (fst qc) of
        Inl p \<Rightarrow> Inl p
      | Inr q \<Rightarrow>
          (let (now, c) = time_Now (snd qc);
               pe = \<lparr>pe_event = event, pe_attempts = 0, pe_nextAttemptAt = now\<rparr>
           in Inr (q\<lparr>q_objects := (q_objects q)(q_next_addr q := pe),
                     q_next_addr := Suc (q_next_addr q),
                     q_pending := q_pending q @ [q_next_addr q]\<rparr>, c)))"

definition PublishRetryQueue_PendingCount :: "PublishRetryQueue \<Rightarrow> int" where
  "PublishRetryQueue_PendingCount q = int (length (q_pending q))"

text \<open>\<^verbatim>\<open>-1\<close> for a pointer that is not in the queue is \<^term>\<open>None\<close>.\<close>

definition PublishRetryQueue_indexOf :: "PublishRetryQueue \<Rightarrow> addr \<Rightarrow> nat option" where
  "PublishRetryQueue_indexOf q pe = find_index (\<lambda>p. p = pe) (q_pending q)"

definition PublishRetryQueue_removeAt :: "nat \<Rightarrow> PublishRetryQueue \<Rightarrow> PublishRetryQueue" where
  "PublishRetryQueue_removeAt i q = q\<lparr>q_pending := delete_at i (q_pending q)\<rparr>"

text \<open>\<^verbatim>\<open>baseBackoff * Duration(1<<uint(attempts-1))\<close>, in 64-bit arithmetic.\<close>

definition PublishRetryQueue_backoff :: "PublishRetryQueue \<Rightarrow> int \<Rightarrow> Duration" where
  "PublishRetryQueue_backoff q attempts =
     q_baseBackoff q * push_bit (unat (word_of_int (attempts - 1) :: 64 word)) 1"

text \<open>The three phases of \<^verbatim>\<open>retryDue\<close>: its loops in the order of the code.\<close>

definition collect_due :: "Time \<Rightarrow> PublishRetryQueue \<Rightarrow> addr list" where
  "collect_due now q =
     filter (\<lambda>pe. \<not> Time_After (pe_nextAttemptAt (q_objects q pe)) now) (q_pending q)"

fun publish_due ::
  "(TenantEvent \<Rightarrow> ('b, unit) call) \<Rightarrow> PublishRetryQueue \<Rightarrow> addr list \<Rightarrow> 'b \<Rightarrow> unit result list \<times> 'b" where
  "publish_due publish q [] b = ([], b)"
| "publish_due publish q (pe # due) b =
     (let (err, b') = publish (pe_event (q_objects q pe)) b;
          (errs, b'') = publish_due publish q due b'
      in (err # errs, b''))"

text \<open>What the last loop does with one event and its outcome.\<close>

definition apply_result ::
  "addr \<Rightarrow> unit result \<Rightarrow> PublishRetryQueue \<times> Clock \<Rightarrow> PublishRetryQueue \<times> Clock" where
  "apply_result pe err qc =
     (let q = fst qc; obj = q_objects q pe in
      case PublishRetryQueue_indexOf q pe of
        None \<Rightarrow> qc
      | Some idx \<Rightarrow>
          (case err of
             Inr _ \<Rightarrow> (PublishRetryQueue_removeAt idx q, snd qc)
           | Inl e \<Rightarrow>
               (if pe_attempts obj < q_maxRetries q
                then
                  (let attempts = pe_attempts obj + 1; (now, c) = time_Now (snd qc);
                       obj' = obj\<lparr>pe_attempts := attempts,
                              pe_nextAttemptAt := Time_Add now (PublishRetryQueue_backoff q attempts)\<rparr>
                   in (q\<lparr>q_objects := (q_objects q)(pe := obj')\<rparr>, c))
                else
                  (PublishRetryQueue_removeAt idx
                     (q\<lparr>q_log := q_log q @ [LogExhausted (pe_event obj) (pe_attempts obj) e]\<rparr>), snd qc))))"

fun apply_results ::
  "(addr \<times> unit result) list \<Rightarrow> PublishRetryQueue \<times> Clock \<Rightarrow> PublishRetryQueue \<times> Clock" where
  "apply_results [] qc = qc"
| "apply_results ((pe, err) # rs) qc = apply_results rs (apply_result pe err qc)"

text \<open>\<^verbatim>\<open>retryDue\<close> when nothing runs between its phases.\<close>

definition PublishRetryQueue_retryDue ::
  "(TenantEvent \<Rightarrow> ('b, unit) call) \<Rightarrow> PublishRetryQueue \<times> Clock \<times> 'b \<Rightarrow> PublishRetryQueue \<times> Clock \<times> 'b" where
  "PublishRetryQueue_retryDue publish qcb =
     (let (q, c, b) = qcb; (now, c) = time_Now c; due = collect_due now q in
      if due = [] then (q, c, b)
      else
        (let (errs, b) = publish_due publish q due b;
             (q, c) = apply_results (zip due errs) (q, c)
         in (q, c, b)))"

section \<open>Invariant\<close>

text \<open>
  The addresses in the queue are allocated and pairwise different, the queue is within its
  bound, and no pending event has used up more than its retries.
\<close>

definition queue_inv :: "PublishRetryQueue \<Rightarrow> bool" where
  "queue_inv q \<longleftrightarrow> distinct (q_pending q) \<and> (\<forall>p \<in> set (q_pending q). p < q_next_addr q) \<and>
     1 \<le> q_maxSize q \<and> int (length (q_pending q)) \<le> q_maxSize q \<and> 0 \<le> q_maxRetries q \<and>
     (\<forall>p \<in> set (q_pending q).
        0 \<le> pe_attempts (q_objects q p) \<and> pe_attempts (q_objects q p) \<le> q_maxRetries q)"

lemma queue_inv_new: "queue_inv NewPublishRetryQueue"
  by (simp add: queue_inv_def NewPublishRetryQueue_def defaultMaxRetries_def defaultMaxSize_def)

definition events_of :: "PublishRetryQueue \<Rightarrow> TenantEvent list" where
  "events_of q = map (\<lambda>p. pe_event (q_objects q p)) (q_pending q)"

text \<open>\<^verbatim>\<open>Enqueue\<close> on a queue within its bound: never a panic, the oldest out when full.\<close>

lemma Enqueue_cases:
  assumes inv: "queue_inv q"
  obtains q' where "PublishRetryQueue_Enqueue event (q, c) = Inr (q', \<lambda>n. c (Suc n))"
    and "queue_inv q'" and "q_maxSize q' = q_maxSize q" and "q_maxRetries q' = q_maxRetries q"
    and "q_baseBackoff q' = q_baseBackoff q"
    and "q_pending q' = (if int (length (q_pending q)) = q_maxSize q then tl (q_pending q)
      else q_pending q) @ [q_next_addr q]"
    and "q_objects q' = (q_objects q)(q_next_addr q :=
      \<lparr>pe_event = event, pe_attempts = 0, pe_nextAttemptAt = c 0\<rparr>)"
    and "q_next_addr q' = Suc (q_next_addr q)"
    and "q_log q' = q_log q @ (if int (length (q_pending q)) = q_maxSize q
      then [LogFull (q_maxSize q) (pe_event (q_objects q (hd (q_pending q))))
        (pe_attempts (q_objects q (hd (q_pending q))))] else [])"
proof -
  let ?pe = "\<lparr>pe_event = event, pe_attempts = 0, pe_nextAttemptAt = c 0\<rparr>"
  show thesis
  proof (cases "int (length (q_pending q)) = q_maxSize q")
    case True
    with inv obtain d rest where p: "q_pending q = d # rest"
      by (cases "q_pending q") (auto simp: queue_inv_def)
    show thesis
      by (rule that [of "q\<lparr>q_objects := (q_objects q)(q_next_addr q := ?pe),
            q_next_addr := Suc (q_next_addr q), q_pending := rest @ [q_next_addr q],
            q_log := q_log q @ [LogFull (q_maxSize q) (pe_event (q_objects q d)) (pe_attempts (q_objects q d))]\<rparr>"])
        (use inv True p in \<open>auto simp: PublishRetryQueue_Enqueue_def drop_oldest_def time_Now_def
          queue_inv_def less_Suc_eq\<close>)
  next
    case False
    then show thesis
      by (intro that [of "q\<lparr>q_objects := (q_objects q)(q_next_addr q := ?pe),
            q_next_addr := Suc (q_next_addr q), q_pending := q_pending q @ [q_next_addr q]\<rparr>"])
        (use inv in \<open>auto simp: PublishRetryQueue_Enqueue_def drop_oldest_def time_Now_def
          queue_inv_def less_Suc_eq\<close>)
  qed
qed

section \<open>What a round does\<close>

text \<open>Whether the last loop of \<^verbatim>\<open>retryDue\<close> leaves an event in the queue.\<close>

definition keeps :: "PublishRetryQueue \<Rightarrow> addr \<Rightarrow> unit result \<Rightarrow> bool" where
  "keeps q pe err \<longleftrightarrow> (case err of Inr _ \<Rightarrow> False | Inl _ \<Rightarrow> pe_attempts (q_objects q pe) < q_maxRetries q)"

definition lost_by :: "PublishRetryQueue \<Rightarrow> addr \<times> unit result \<Rightarrow> queue_log list" where
  "lost_by q = (\<lambda>(pe, err). case err of Inr _ \<Rightarrow> []
     | Inl e \<Rightarrow> if pe \<in> set (q_pending q) \<and> \<not> keeps q pe err
         then [LogExhausted (pe_event (q_objects q pe)) (pe_attempts (q_objects q pe)) e] else [])"

lemma apply_result_pending:
  assumes "distinct (q_pending q)"
  shows "q_pending (fst (apply_result pe err (q, c))) =
    filter (\<lambda>p. p = pe \<longrightarrow> keeps q pe err) (q_pending q)"
proof (cases "PublishRetryQueue_indexOf q pe")
  case None
  then have "pe \<notin> set (q_pending q)" by (auto simp: PublishRetryQueue_indexOf_def)
  then have "filter (\<lambda>p. p = pe \<longrightarrow> keeps q pe err) (q_pending q) = q_pending q"
    by (intro filter_True) auto
  with None show ?thesis by (simp add: apply_result_def)
next
  case (Some i)
  with assms have "delete_at i (q_pending q) = filter (\<lambda>p. p \<noteq> pe) (q_pending q)"
    by (simp add: PublishRetryQueue_indexOf_def delete_at_find_index)
  with Some show ?thesis
    by (cases err) (auto simp: apply_result_def keeps_def PublishRetryQueue_removeAt_def Let_def
      time_Now_def)
qed

lemma apply_result_frame:
  "p \<noteq> pe \<Longrightarrow> q_objects (fst (apply_result pe err (q, c))) p = q_objects q p"
  "q_maxRetries (fst (apply_result pe err (q, c))) = q_maxRetries q"
  "q_maxSize (fst (apply_result pe err (q, c))) = q_maxSize q"
  "q_baseBackoff (fst (apply_result pe err (q, c))) = q_baseBackoff q"
  "q_next_addr (fst (apply_result pe err (q, c))) = q_next_addr q"
  by (simp_all add: apply_result_def PublishRetryQueue_removeAt_def Let_def time_Now_def
    split: option.split sum.split)

lemma apply_result_object:
  "pe_event (q_objects (fst (apply_result pe err (q, c))) p) = pe_event (q_objects q p)"
  "pe_attempts (q_objects (fst (apply_result pe err (q, c))) p) =
     (if p = pe \<and> pe \<in> set (q_pending q) \<and> keeps q pe err then pe_attempts (q_objects q p) + 1
      else pe_attempts (q_objects q p))"
  by (auto simp: apply_result_def PublishRetryQueue_removeAt_def Let_def time_Now_def keeps_def
    PublishRetryQueue_indexOf_def dest: find_index_eq_memD split: option.split sum.split)

lemma apply_result_log:
  "q_log (fst (apply_result pe err (q, c))) = q_log q @ lost_by q (pe, err)"
  by (auto simp: apply_result_def PublishRetryQueue_removeAt_def Let_def time_Now_def keeps_def
    PublishRetryQueue_indexOf_def lost_by_def dest: find_index_eq_memD split: option.split sum.split)

lemmas apply_result_simps = apply_result_pending apply_result_frame apply_result_object apply_result_log

text \<open>
  The whole loop, for a batch without duplicates: the survivors in their old order, one
  more attempt for each event that failed and may be retried, one line of the log for
  each that failed for the last time.
\<close>

definition survives :: "PublishRetryQueue \<Rightarrow> (addr \<times> unit result) list \<Rightarrow> addr \<Rightarrow> bool" where
  "survives q rs p \<longleftrightarrow> (case map_of rs p of None \<Rightarrow> True | Some err \<Rightarrow> keeps q p err)"

definition retried :: "PublishRetryQueue \<Rightarrow> (addr \<times> unit result) list \<Rightarrow> addr \<Rightarrow> bool" where
  "retried q rs p \<longleftrightarrow> p \<in> set (q_pending q) \<and> (\<exists>err. map_of rs p = Some err \<and> keeps q p err)"

lemma keepsD: "keeps q pe err \<Longrightarrow> pe_attempts (q_objects q pe) < q_maxRetries q"
  by (cases err) (simp_all add: keeps_def)

lemma keeps_apply_result:
  "p \<noteq> pe \<Longrightarrow> keeps (fst (apply_result pe err (q, c))) p = keeps q p"
  by (rule ext) (simp add: keeps_def apply_result_frame split: sum.split)

lemma lost_by_apply_result:
  "distinct (q_pending q) \<Longrightarrow> fst r \<noteq> pe \<Longrightarrow> lost_by (fst (apply_result pe err (q, c))) r = lost_by q r"
  by (cases r) (auto simp: lost_by_def keeps_apply_result apply_result_simps split: sum.split)

lemma apply_results_frame:
  "q_maxRetries (fst (apply_results rs qc)) = q_maxRetries (fst qc)"
  "q_maxSize (fst (apply_results rs qc)) = q_maxSize (fst qc)"
  "q_baseBackoff (fst (apply_results rs qc)) = q_baseBackoff (fst qc)"
  "q_next_addr (fst (apply_results rs qc)) = q_next_addr (fst qc)"
proof -
  note frame = apply_result_frame(2-5) [where q = "fst x" and c = "snd x" for x, simplified]
  show "q_maxRetries (fst (apply_results rs qc)) = q_maxRetries (fst qc)"
    and "q_maxSize (fst (apply_results rs qc)) = q_maxSize (fst qc)"
    and "q_baseBackoff (fst (apply_results rs qc)) = q_baseBackoff (fst qc)"
    and "q_next_addr (fst (apply_results rs qc)) = q_next_addr (fst qc)"
    by (induction rs qc rule: apply_results.induct) (simp_all add: frame)
qed

lemma apply_results_event:
  "pe_event (q_objects (fst (apply_results rs qc)) p) = pe_event (q_objects (fst qc) p)"
proof (induction rs qc rule: apply_results.induct)
  case (2 pe err rs qc)
  then show ?case by (cases qc) (simp add: apply_result_object)
qed simp

lemma apply_results_effect:
  assumes "distinct (map fst rs)" and "distinct (q_pending q)"
  shows "q_pending (fst (apply_results rs (q, c))) = filter (survives q rs) (q_pending q)" (is ?P)
    and "pe_attempts (q_objects (fst (apply_results rs (q, c))) p) =
      pe_attempts (q_objects q p) + (if retried q rs p then 1 else 0)" (is ?A)
    and "q_log (fst (apply_results rs (q, c))) = q_log q @ concat (map (lost_by q) rs)" (is ?L)
proof -
  have "?P \<and> (\<forall>p. ?A) \<and> ?L" using assms
  proof (induction rs arbitrary: q c)
    case Nil
    then show ?case by (simp add: survives_def retried_def)
  next
    case (Cons r rs)
    obtain pe err where r: "r = (pe, err)" by fastforce
    obtain q1 c1 where one: "apply_result pe err (q, c) = (q1, c1)" by fastforce
    then have q1: "fst (apply_result pe err (q, c)) = q1" by simp
    note step = apply_result_simps [where pe = pe and err = err and q = q and c = c, unfolded q1]
    have fresh: "pe \<notin> fst ` set rs" and new: "map_of rs pe = None"
      using Cons.prems(1) r by (auto simp: map_of_eq_None_iff)
    have dist: "distinct (q_pending q1)" using Cons.prems(2) by (simp add: step)
    note IH = Cons.IH [OF _ dist, of c1]
    have keeps1: "p \<noteq> pe \<Longrightarrow> keeps q1 p = keeps q p" for p
      using keeps_apply_result [of p pe err q c] one by simp
    have "(p = pe \<longrightarrow> keeps q pe err) \<and> survives q1 rs p \<longleftrightarrow> survives q (r # rs) p" for p
      by (cases "p = pe") (auto simp: survives_def r new keeps1 split: option.split)
    then have pend: "filter (survives q1 rs) (q_pending q1) = filter (survives q (r # rs)) (q_pending q)"
      by (simp add: step Cons.prems(2))
    have att: "pe_attempts (q_objects q1 p) + (if retried q1 rs p then 1 else 0) =
        pe_attempts (q_objects q p) + (if retried q (r # rs) p then 1 else 0)" for p
      by (auto simp: step Cons.prems(2) retried_def r new keeps1)
    have "map (lost_by q1) rs = map (lost_by q) rs"
      using fresh lost_by_apply_result [OF Cons.prems(2), of _ pe err c] one by force
    then have log: "q_log q1 @ concat (map (lost_by q1) rs) = q_log q @ concat (map (lost_by q) (r # rs))"
      by (simp add: step r del: map_eq_conv)
    show ?case
      using IH Cons.prems(1) pend att log by (simp add: r one)
  qed
  then show ?P and ?A and ?L by auto
qed

lemma apply_results_inv:
  assumes "queue_inv q" and "distinct (map fst rs)"
  shows "queue_inv (fst (apply_results rs (q, c)))"
proof -
  from assms(1) have dist: "distinct (q_pending q)" by (simp add: queue_inv_def)
  note eff = apply_results_effect [OF assms(2) dist]
  have more: "retried q rs p \<Longrightarrow> pe_attempts (q_objects q p) < q_maxRetries q" for p
    by (auto simp: retried_def dest: keepsD)
  have "int (length (filter (survives q rs) (q_pending q))) \<le> q_maxSize q"
    using assms(1) length_filter_le [of "survives q rs" "q_pending q"]
    unfolding queue_inv_def by linarith
  with assms(1) show ?thesis
    by (auto simp: queue_inv_def eff apply_results_frame dest: more)
qed

text \<open>The publications of one round: one call per due event, in the order of the queue.\<close>

lemma publish_due_length [simp]: "length (fst (publish_due publish q due b)) = length due"
  by (induction due arbitrary: b) (simp_all add: split_def Let_def)

lemma publish_due_trace:
  "publish_due publish q due b =
    (let es = map (\<lambda>pe. pe_event (q_objects q pe)) due in
     (map (\<lambda>k. fst (publish (es ! k) (fold (\<lambda>e b. snd (publish e b)) (take k es) b))) [0..<length es],
      fold (\<lambda>e b. snd (publish e b)) es b))"
proof (induction due arbitrary: b)
  case (Cons pe due)
  show ?case
    by (simp add: Cons.IH split_def Let_def upt_conv_Cons map_Suc_upt [symmetric] comp_def del: upt_Suc)
qed simp

lemma collect_due_subset: "set (collect_due now q) \<subseteq> set (q_pending q)"
  by (auto simp: collect_due_def)

lemma collect_due_distinct: "distinct (q_pending q) \<Longrightarrow> distinct (collect_due now q)"
  by (simp add: collect_due_def)

lemma retryDue_def':
  "PublishRetryQueue_retryDue publish (q, c, b) =
     (let due = collect_due (c 0) q; (errs, b') = publish_due publish q due b;
          (q', c') = apply_results (zip due errs) (q, \<lambda>n. c (Suc n))
      in (q', c', b'))"
  by (simp add: PublishRetryQueue_retryDue_def time_Now_def split_def Let_def)

text \<open>
  C25. A round of the retry worker with nothing interleaved, on a queue that satisfies its
  invariant. The bus ends in the state that publishing each due event once, in queue order,
  leads to, and the outcome of an event is what the bus answered to its own publication.
  What remains is the old queue, in its old order, without the events that were published
  and without those that failed with no retry left; each of the latter gives one line of the
  log; an event that failed and is kept has one attempt more, and no other attempt counter
  changes.
\<close>

theorem retry_round_effect:
  assumes "queue_inv q"
    and "PublishRetryQueue_retryDue publish (q, c, b) = (q', c', b')"
  defines "due \<equiv> filter (\<lambda>p. pe_nextAttemptAt (q_objects q p) \<le> c 0) (q_pending q)"
  defines "events \<equiv> map (\<lambda>p. pe_event (q_objects q p)) due"
  defines "bus_after \<equiv> \<lambda>k. fold (\<lambda>e b. snd (publish e b)) (take k events) b"
  defines "errs \<equiv> map (\<lambda>k. fst (publish (events ! k) (bus_after k))) [0..<length events]"
  shows "b' = bus_after (length events) \<and> queue_inv q' \<and>
    q_pending q' = filter (survives q (zip due errs)) (q_pending q) \<and>
    q_log q' = q_log q @ concat (map (lost_by q) (zip due errs)) \<and>
    (\<forall>p. pe_event (q_objects q' p) = pe_event (q_objects q p)) \<and>
    (\<forall>p. pe_attempts (q_objects q' p) =
       pe_attempts (q_objects q p) + (if retried q (zip due errs) p then 1 else 0))"
proof -
  have due: "collect_due (c 0) q = due"
    by (simp add: collect_due_def due_def not_less)
  have pub: "publish_due publish q due b = (errs, bus_after (length events))"
    by (simp add: publish_due_trace errs_def bus_after_def events_def Let_def)
  have dist: "distinct (q_pending q)" using assms(1) by (simp add: queue_inv_def)
  then have "distinct due" by (simp add: due_def)
  then have batch: "distinct (map fst (zip due errs))"
    by (simp add: errs_def events_def)
  have q': "q' = fst (apply_results (zip due errs) (q, \<lambda>n. c (Suc n)))"
    and b': "b' = bus_after (length events)"
    using assms(2) by (auto simp: retryDue_def' due pub split_def Let_def)
  show ?thesis
    unfolding q' b'
    using apply_results_inv [OF assms(1) batch] apply_results_effect [OF batch dist]
      apply_results_event [of "zip due errs" "(q, \<lambda>n. c (Suc n))"] by simp
qed

text \<open>A queue with two events for the concrete instances below.\<close>

definition demo_event :: "TenantID \<Rightarrow> State \<Rightarrow> TenantEvent" where
  "demo_event i s = \<lparr>ev_TenantID = i, ev_State = s, ev_Timestamp = Time 7\<rparr>"

definition demo_queue :: PublishRetryQueue where
  "demo_queue = \<lparr>q_objects = (\<lambda>p. \<lparr>pe_event = demo_event (if p = 0 then ''acme'' else ''globex'') Banned,
       pe_attempts = (if p = 0 then 0 else 5), pe_nextAttemptAt = Time 10\<rparr>),
     q_next_addr = 2, q_pending = [0, 1], q_maxRetries = 5, q_maxSize = 2,
     q_baseBackoff = Second, q_log = []\<rparr>"

definition failing_bus :: "TenantEvent \<Rightarrow> (TenantEvent list, unit) call" where
  "failing_bus e b = (Inl (ForeignErr ''unreachable''), b @ [e])"

lemma demo_queue_inv: "queue_inv demo_queue"
  by (simp add: queue_inv_def demo_queue_def)

theorem retry_round_effect_witness:
  "queue_inv demo_queue \<and>
   (\<exists>q' c'. PublishRetryQueue_retryDue failing_bus (demo_queue, \<lambda>n. Time (10 + int n), []) =
       (q', c', [demo_event ''acme'' Banned, demo_event ''globex'' Banned]) \<and>
     q_pending q' = [0] \<and>
     q_log q' = [LogExhausted (demo_event ''globex'' Banned) 5 (ForeignErr ''unreachable'')])"
proof -
  obtain q' c' b' where run: "PublishRetryQueue_retryDue failing_bus
      (demo_queue, \<lambda>n. Time (10 + int n), []) = (q', c', b')"
    by (cases "PublishRetryQueue_retryDue failing_bus (demo_queue, \<lambda>n. Time (10 + int n), [])")
  from retry_round_effect [OF demo_queue_inv run]
  have "q_pending q' = [0] \<and> b' = [demo_event ''acme'' Banned, demo_event ''globex'' Banned] \<and>
      q_log q' = [LogExhausted (demo_event ''globex'' Banned) 5 (ForeignErr ''unreachable'')]"
    by (simp add: demo_queue_def failing_bus_def survives_def keeps_def lost_by_def Let_def)
  with run demo_queue_inv show ?thesis by blast
qed

section \<open>Backoff and exhaustion\<close>

text \<open>The shift and the product stay inside 64 bits up to the 34th attempt.\<close>

lemma unat_word_of_int_small:
  assumes "0 \<le> x" and "x < 2 ^ 63"
  shows "unat (word_of_int x :: 64 word) = nat x"
proof -
  from assms have "x mod 2 ^ 64 = x" by (intro mod_pos_pos_trivial) auto
  then show ?thesis by (simp add: unat_eq_nat_uint uint_word_of_int)
qed

lemma backoff_exact:
  assumes "1 \<le> a" and "a \<le> 34" and "q_baseBackoff q = Second"
  shows "sint (PublishRetryQueue_backoff q a) = 10 ^ 9 * 2 ^ nat (a - 1)"
proof -
  from assms have n: "unat (word_of_int (a - 1) :: 64 word) = nat (a - 1)"
    by (intro unat_word_of_int_small) auto
  have pow: "push_bit k (1 :: 64 word) = word_of_int (2 ^ k)" for k
    by (simp add: push_bit_eq_mult)
  have product: "PublishRetryQueue_backoff q a = word_of_int (10 ^ 9 * 2 ^ nat (a - 1))"
    unfolding PublishRetryQueue_backoff_def n pow assms(3) Second_def by simp
  have "(2::int) ^ nat (a - 1) \<le> 2 ^ 33"
    using assms by (intro power_increasing) auto
  then have hi: "10 ^ 9 * (2::int) ^ nat (a - 1) < 2 ^ 63"
    by simp
  have lo: "- (2 ^ 63) \<le> 10 ^ 9 * (2::int) ^ nat (a - 1)"
    by (rule order_trans [of _ 0]) simp_all
  show ?thesis
    unfolding product by (rule sint_word_of_int_64 [OF lo hi])
qed

text \<open>When a kept event is tried again: a clock reading of the round plus the backoff.\<close>

lemma apply_result_clock: "\<exists>k. snd (apply_result pe err (q, c)) = (\<lambda>n. c (n + k))"
proof -
  have "\<exists>k. c = (\<lambda>n. c (n + k))" and "\<exists>k. (\<lambda>n. c (Suc n)) = (\<lambda>n. c (n + k))"
    by (rule exI [of _ 0], simp) (rule exI [of _ 1], simp)
  then show ?thesis
    by (simp add: apply_result_def Let_def time_Now_def split: option.split sum.split)
qed

lemma apply_results_other:
  "p \<notin> fst ` set rs \<Longrightarrow> q_objects (fst (apply_results rs (q, c))) p = q_objects q p"
proof (induction rs arbitrary: q c)
  case (Cons r rs)
  obtain q1 c1 where one: "apply_result (fst r) (snd r) (q, c) = (q1, c1)" by fastforce
  with Cons.prems apply_result_frame(1) [of p "fst r" "snd r" q c]
  have "q_objects q1 p = q_objects q p" by auto
  with Cons one show ?case by (cases r) simp
qed simp

lemma apply_result_nextAttemptAt:
  assumes "pe \<in> set (q_pending q)" and "keeps q pe err"
  shows "pe_nextAttemptAt (q_objects (fst (apply_result pe err (q, c))) pe) =
    Time_Add (c 0) (PublishRetryQueue_backoff q (pe_attempts (q_objects q pe) + 1))"
proof -
  from assms(1) obtain i where "PublishRetryQueue_indexOf q pe = Some i"
    by (cases "PublishRetryQueue_indexOf q pe") (auto simp: PublishRetryQueue_indexOf_def)
  with assms(2) show ?thesis
    by (cases err) (simp_all add: apply_result_def keeps_def Let_def time_Now_def)
qed

lemma apply_results_nextAttemptAt:
  assumes "distinct (map fst rs)" and "distinct (q_pending q)" and "retried q rs p"
  shows "\<exists>n. pe_nextAttemptAt (q_objects (fst (apply_results rs (q, c))) p) =
    Time_Add (c n) (PublishRetryQueue_backoff q (pe_attempts (q_objects q p) + 1))"
  using assms
proof (induction rs arbitrary: q c)
  case Nil
  then show ?case by (simp add: retried_def)
next
  case (Cons r rs)
  obtain pe err where r: "r = (pe, err)" by fastforce
  obtain q1 c1 where one: "apply_result pe err (q, c) = (q1, c1)" by fastforce
  note step = apply_result_simps [where pe = pe and err = err and q = q and c = c, unfolded one fst_conv]
  from Cons.prems(1) have new: "pe \<notin> fst ` set rs" by (simp add: r)
  show ?case
  proof (cases "p = pe")
    case True
    with Cons.prems(3) have "pe \<in> set (q_pending q)" and "keeps q pe err"
      by (auto simp: retried_def r)
    from apply_result_nextAttemptAt [OF this, of c] one True show ?thesis
      by (auto simp: r apply_results_other [OF new])
  next
    case False
    with keeps_apply_result [OF False, of err q c] Cons.prems(3) one have "retried q1 rs p"
      by (auto simp: retried_def r step Cons.prems(2))
    moreover have "distinct (q_pending q1)" using Cons.prems(2) by (simp add: step)
    ultimately obtain n where "pe_nextAttemptAt (q_objects (fst (apply_results rs (q1, c1))) p) =
        Time_Add (c1 n) (PublishRetryQueue_backoff q1 (pe_attempts (q_objects q1 p) + 1))"
      using Cons.IH [of q1 c1] Cons.prems(1) r by auto
    moreover obtain k where "c1 = (\<lambda>n. c (n + k))"
      using apply_result_clock [of pe err q c] one by auto
    ultimately show ?thesis
      using False by (auto simp: r one step PublishRetryQueue_backoff_def)
  qed
qed

text \<open>
  C30. Exponential backoff of the default policy. When a round of the worker fails to publish
  an event that has failed \<open>k\<close> times before and keeps it, the event's next attempt is set to
  a clock reading of that round plus exactly \<open>2^k\<close> seconds (the 64-bit shift and product do
  not wrap); with a clock that never goes back, no round whose clock reads less than \<open>2^k\<close>
  seconds after the start of this one publishes it again.
\<close>

theorem retry_backoff_respected:
  assumes "queue_inv q" and "q_maxRetries q = defaultMaxRetries" and "q_baseBackoff q = defaultBaseBackoff"
    and "mono c" and "PublishRetryQueue_retryDue publish (q, c, b) = (q', c', b')"
    and "retried q (zip (collect_due (c 0) q) (fst (publish_due publish q (collect_due (c 0) q) b))) p"
    and "pe_attempts (q_objects q p) = int k"
  shows "(\<exists>n. pe_nextAttemptAt (q_objects q' p) = Time (nanos (c n) + 10 ^ 9 * 2 ^ k)) \<and>
    (nanos now < nanos (c 0) + 10 ^ 9 * 2 ^ k \<longrightarrow> p \<notin> set (collect_due now q'))"
proof -
  let ?due = "collect_due (c 0) q"
  let ?rs = "zip ?due (fst (publish_due publish q ?due b))"
  have dist: "distinct (q_pending q)" using assms(1) by (simp add: queue_inv_def)
  then have batch: "distinct (map fst ?rs)" by (simp add: collect_due_distinct)
  have q': "q' = fst (apply_results ?rs (q, \<lambda>n. c (Suc n)))"
    using assms(5) by (auto simp: retryDue_def' split_def Let_def)
  from assms(6) have "pe_attempts (q_objects q p) < q_maxRetries q"
    by (auto simp: retried_def dest: keepsD)
  with assms(2,7) have k: "int k < 5" by (simp add: defaultMaxRetries_def)
  have "sint (PublishRetryQueue_backoff q (int k + 1)) = 10 ^ 9 * 2 ^ k"
    using backoff_exact [of "int k + 1" q] k assms(3) by (simp add: defaultBaseBackoff_def)
  with apply_results_nextAttemptAt [OF batch dist assms(6), of "\<lambda>n. c (Suc n)"] assms(7)
  obtain n where "pe_nextAttemptAt (q_objects q' p) = Time (nanos (c (Suc n)) + 10 ^ 9 * 2 ^ k)"
    by (auto simp: q' Time_Add_def)
  moreover have "nanos (c 0) \<le> nanos (c (Suc n))"
    using monoD [OF assms(4), of 0 "Suc n"] by (simp add: less_eq_Time_def)
  ultimately show ?thesis
    by (auto simp: collect_due_def less_Time_def)
qed

text \<open>Rounds one after the other, nothing enqueued in between.\<close>

primrec retry_rounds ::
  "nat \<Rightarrow> (TenantEvent \<Rightarrow> ('b, unit) call) \<Rightarrow> PublishRetryQueue \<times> Clock \<times> 'b \<Rightarrow> PublishRetryQueue \<times> Clock \<times> 'b" where
  "retry_rounds 0 publish qcb = qcb"
| "retry_rounds (Suc n) publish qcb = PublishRetryQueue_retryDue publish (retry_rounds n publish qcb)"

definition all_due :: "PublishRetryQueue \<times> Clock \<times> 'b \<Rightarrow> bool" where
  "all_due = (\<lambda>(q, c, b). \<forall>p \<in> set (q_pending q). pe_nextAttemptAt (q_objects q p) \<le> c 0)"

lemma retryDue_all_due:
  assumes "queue_inv q" and "all_due (q, c, b)"
    and "PublishRetryQueue_retryDue publish (q, c, b) = (q', c', b')"
  shows "queue_inv q' \<and> q_maxRetries q' = q_maxRetries q \<and> set (q_pending q') \<subseteq> set (q_pending q) \<and>
    (\<forall>p \<in> set (q_pending q'). pe_attempts (q_objects q' p) = pe_attempts (q_objects q p) + 1)"
proof -
  have dist: "distinct (q_pending q)" using assms(1) by (simp add: queue_inv_def)
  have due: "collect_due (c 0) q = q_pending q"
    using assms(2) by (auto simp: collect_due_def all_due_def not_less intro!: filter_True)
  define rs where "rs = zip (q_pending q) (fst (publish_due publish q (q_pending q) b))"
  have keys: "map fst rs = q_pending q" by (simp add: rs_def)
  with dist have batch: "distinct (map fst rs)" by simp
  have q': "q' = fst (apply_results rs (q, \<lambda>n. c (Suc n)))"
    using assms(3) by (auto simp: retryDue_def' due rs_def split_def Let_def)
  have "\<exists>err. map_of rs p = Some err" if "p \<in> set (q_pending q)" for p
    using that keys by (metis list.set_map map_of_eq_None_iff not_None_eq)
  then have "retried q rs p" if "p \<in> set (q_pending q)" and "survives q rs p" for p
    using that by (fastforce simp: retried_def survives_def)
  then show ?thesis
    using apply_results_inv [OF assms(1) batch, of "\<lambda>n. c (Suc n)"]
    by (auto simp: q' apply_results_effect [OF batch dist] apply_results_frame)
qed

theorem retry_backoff_respected_witness:
  "\<exists>q' c' b'. PublishRetryQueue_retryDue failing_bus (demo_queue, \<lambda>n. Time (10 + int n), []) = (q', c', b') \<and>
     0 \<notin> set (collect_due (Time 1000000009) q')"
proof -
  let ?c = "\<lambda>n. Time (10 + int n)"
  obtain q' c' b' where run: "PublishRetryQueue_retryDue failing_bus (demo_queue, ?c, []) = (q', c', b')"
    by (cases "PublishRetryQueue_retryDue failing_bus (demo_queue, ?c, [])")
  have "mono ?c" by (simp add: mono_def less_eq_Time_def)
  then have "0 \<notin> set (collect_due (Time 1000000009) q')"
    using retry_backoff_respected [OF demo_queue_inv _ _ _ run, of 0 0 "Time 1000000009"]
    by (simp add: demo_queue_def defaultMaxRetries_def defaultBaseBackoff_def retried_def
      collect_due_def failing_bus_def keeps_def Let_def)
  with run show ?thesis by blast
qed

text \<open>
  C28. The queue drains. Whatever the bus answers, after \<open>maxRetries + 1\<close> rounds that each find
  every pending event due, no event is left: each was published or was dropped with a
  critical line in the log, and nothing stays in the queue for ever.
\<close>

theorem retry_queue_drains:
  assumes "queue_inv q" and "q_maxRetries q = int n"
    and "\<forall>k \<le> n. all_due (retry_rounds k publish (q, c, b))"
  shows "q_pending (fst (retry_rounds (Suc n) publish (q, c, b))) = []"
proof -
  let ?q = "\<lambda>k. fst (retry_rounds k publish (q, c, b))"
  have "k \<le> Suc n \<Longrightarrow> queue_inv (?q k) \<and> q_maxRetries (?q k) = int n \<and>
      (\<forall>p \<in> set (q_pending (?q k)). int k \<le> pe_attempts (q_objects (?q k) p))" for k
  proof (induction k)
    case 0
    with assms(1,2) show ?case by (auto simp: queue_inv_def)
  next
    case (Suc k)
    obtain q1 c1 b1 where at: "retry_rounds k publish (q, c, b) = (q1, c1, b1)" by (cases "retry_rounds k publish (q, c, b)")
    obtain q2 c2 b2 where run: "PublishRetryQueue_retryDue publish (q1, c1, b1) = (q2, c2, b2)"
      by (cases "PublishRetryQueue_retryDue publish (q1, c1, b1)")
    from Suc assms(3) at have "queue_inv q1" and "all_due (q1, c1, b1)" by auto
    from retryDue_all_due [OF this run] Suc at run show ?case by fastforce
  qed
  from this [of "Suc n"] have "\<forall>p \<in> set (q_pending (?q (Suc n))). False"
    by (fastforce simp: queue_inv_def)
  then show ?thesis by (simp del: retry_rounds.simps)
qed

definition retry_clock :: Clock where
  "retry_clock n = Time (int (Suc n) * 10 ^ 12)"

definition one_event_queue :: PublishRetryQueue where
  "one_event_queue = demo_queue\<lparr>q_pending := [0], q_maxRetries := 1\<rparr>"

theorem retry_queue_drains_witness:
  "queue_inv one_event_queue \<and> q_pending one_event_queue = [0] \<and>
   q_pending (fst (retry_rounds (Suc 1) failing_bus (one_event_queue, retry_clock, []))) = []"
proof -
  have inv: "queue_inv one_event_queue"
    by (simp add: queue_inv_def one_event_queue_def demo_queue_def)
  have "all_due (retry_rounds 0 failing_bus (one_event_queue, retry_clock, []))"
    by (simp add: all_due_def one_event_queue_def demo_queue_def retry_clock_def less_eq_Time_def)
  moreover have "all_due (retry_rounds 1 failing_bus (one_event_queue, retry_clock, []))"
    by (simp add: all_due_def one_event_queue_def demo_queue_def retry_clock_def less_eq_Time_def
      retryDue_def' collect_due_def failing_bus_def apply_result_def PublishRetryQueue_indexOf_def time_Now_def
      PublishRetryQueue_backoff_def Second_def Let_def less_Time_def)
  ultimately have "\<forall>k \<le> 1. all_due (retry_rounds k failing_bus (one_event_queue, retry_clock, []))"
    by (auto simp: le_Suc_eq)
  with retry_queue_drains [OF inv, of 1 failing_bus retry_clock "[]"]
  show ?thesis using inv by (simp add: one_event_queue_def demo_queue_def)
qed

text \<open>
  C29. \<^verbatim>\<open>Enqueue\<close> on a queue within its bound never panics and keeps the bound: the new event
  is last with no attempts, due immediately; if the queue was full, exactly the oldest
  event leaves it, with a critical line in the log, and otherwise none does.
\<close>

theorem enqueue_bounded_drop_oldest:
  assumes "queue_inv q"
  shows "\<exists>q' c'. PublishRetryQueue_Enqueue event (q, c) = Inr (q', c') \<and> queue_inv q' \<and>
    PublishRetryQueue_PendingCount q' \<le> q_maxSize q \<and>
    events_of q' = (if PublishRetryQueue_PendingCount q = q_maxSize q then tl (events_of q)
      else events_of q) @ [event] \<and>
    q_log q' = q_log q @ (if PublishRetryQueue_PendingCount q = q_maxSize q
      then [LogFull (q_maxSize q) (hd (events_of q)) (pe_attempts (q_objects q (hd (q_pending q))))]
      else []) \<and>
    last (q_pending q') \<in> set (collect_due (c 0) q')"
proof (rule Enqueue_cases [OF assms, of event c])
  fix q'
  assume run: "PublishRetryQueue_Enqueue event (q, c) = Inr (q', \<lambda>n. c (Suc n))" and "queue_inv q'"
    and size: "q_maxSize q' = q_maxSize q"
    and pend: "q_pending q' = (if int (length (q_pending q)) = q_maxSize q then tl (q_pending q)
      else q_pending q) @ [q_next_addr q]"
    and objs: "q_objects q' = (q_objects q)(q_next_addr q :=
      \<lparr>pe_event = event, pe_attempts = 0, pe_nextAttemptAt = c 0\<rparr>)"
    and log: "q_log q' = q_log q @ (if int (length (q_pending q)) = q_maxSize q
      then [LogFull (q_maxSize q) (pe_event (q_objects q (hd (q_pending q))))
        (pe_attempts (q_objects q (hd (q_pending q))))] else [])"
  have old: "p \<noteq> q_next_addr q" if "p \<in> set (q_pending q)" for p
    using assms that by (auto simp: queue_inv_def)
  have ne: "q_pending q \<noteq> []" if "int (length (q_pending q)) = q_maxSize q"
    using assms that by (auto simp: queue_inv_def)
  have "map (\<lambda>p. pe_event (q_objects q' p)) (q_pending q) = events_of q"
    using old by (auto simp: events_of_def objs)
  then have "events_of q' = (if PublishRetryQueue_PendingCount q = q_maxSize q then tl (events_of q)
      else events_of q) @ [event]"
    by (simp add: events_of_def [of q'] pend PublishRetryQueue_PendingCount_def map_tl) (simp add: objs)
  moreover have "PublishRetryQueue_PendingCount q' \<le> q_maxSize q"
    using \<open>queue_inv q'\<close> by (simp add: queue_inv_def PublishRetryQueue_PendingCount_def size)
  moreover have "last (q_pending q') \<in> set (collect_due (c 0) q')"
    by (simp add: collect_due_def pend objs)
  ultimately show ?thesis
    using run \<open>queue_inv q'\<close> log ne
    by (auto simp: events_of_def PublishRetryQueue_PendingCount_def hd_map)
qed

theorem enqueue_bounded_drop_oldest_witness:
  "queue_inv demo_queue \<and> (\<exists>q' c'. PublishRetryQueue_Enqueue (demo_event ''initech'' Disabled)
       (demo_queue, \<lambda>n. Time (int n)) = Inr (q', c') \<and>
     events_of q' = [demo_event ''globex'' Banned, demo_event ''initech'' Disabled])"
  using enqueue_bounded_drop_oldest [OF demo_queue_inv, of "demo_event ''initech'' Disabled" "\<lambda>n. Time (int n)"]
    demo_queue_inv
  by (auto simp: demo_queue_def events_of_def PublishRetryQueue_PendingCount_def)

end
