(* ===== verification/Admin.thy ===== *)
theory Admin
  imports Memory_Store Ban_Checker Retry_Queue
begin

text \<open>
  The administration service (\<^verbatim>\<open>src/admin/admin.go\<close>): a change of state is written to the
  store and then published; a publication that fails is logged, handed to the retry queue
  when there is one, and its error returned. The store, the bus and the queues are the
  program's state; the service holds the interfaces to the first two and a pointer to a
  queue, which may be nil. What the service guarantees is proved once from the contract of
  the admin store, and then stated for the in-memory store.
\<close>

section \<open>State and operations\<close>

datatype admin_log = PublishFailed TenantID State go_error

record ('s, 'b) admin_state =
  as_store :: 's
  as_bus :: 'b
  as_queues :: "addr \<Rightarrow> PublishRetryQueue"
  as_clock :: Clock
  as_log :: "admin_log list"

record ('s, 'w, 'b) Service =
  svc_store :: "'s AdminStore"
  svc_bus :: "('w, 'b) EventBus"
  svc_retryQueue :: "addr option"

type_synonym ('s, 'w, 'b) ServiceOption = "('s, 'w, 'b) Service \<Rightarrow> ('s, 'w, 'b) Service"

definition WithPublishRetryQueue :: "addr option \<Rightarrow> ('s, 'w, 'b) ServiceOption" where
  "WithPublishRetryQueue q s = s\<lparr>svc_retryQueue := q\<rparr>"

definition NewAdminService ::
  "'s AdminStore \<Rightarrow> ('w, 'b) EventBus \<Rightarrow> ('s, 'w, 'b) ServiceOption list \<Rightarrow> ('s, 'w, 'b) Service" where
  "NewAdminService store bus opts =
     foldl (\<lambda>s opt. opt s) \<lparr>svc_store = store, svc_bus = bus, svc_retryQueue = None\<rparr> opts"

text \<open>
  The branch after a failed publication: the log line, the queue when there is one, the
  error. Its panic is the one of \<^verbatim>\<open>Enqueue\<close> on a queue of size zero.
\<close>

definition publish_failed ::
  "('s, 'w, 'b) Service \<Rightarrow> TenantEvent \<Rightarrow> go_error \<Rightarrow> ('s, 'b) admin_state \<Rightarrow>
     (panic + unit result) \<times> ('s, 'b) admin_state" where
  "publish_failed svc event err a =
     (let a = a\<lparr>as_log := as_log a @ [PublishFailed (ev_TenantID event) (ev_State event) err]\<rparr> in
      case svc_retryQueue svc of
        None \<Rightarrow> (Inr (Inl err), a)
      | Some p \<Rightarrow>
          (case PublishRetryQueue_Enqueue event (as_queues a p, as_clock a) of
             Inl pan \<Rightarrow> (Inl pan, a)
           | Inr (q, c) \<Rightarrow> (Inr (Inl err), a\<lparr>as_queues := (as_queues a)(p := q), as_clock := c\<rparr>)))"

text \<open>What follows a successful \<^verbatim>\<open>SetState\<close>: the event is stamped, published, and a failure handled.\<close>

definition transition_publish ::
  "('s, 'w, 'b) Service \<Rightarrow> Context \<Rightarrow> TenantID \<Rightarrow> State \<Rightarrow> ('s, 'b) admin_state \<Rightarrow>
     (panic + unit result) \<times> ('s, 'b) admin_state" where
  "transition_publish svc ctx i st a =
     (let (now, c) = time_Now (as_clock a);
          event = \<lparr>ev_TenantID = i, ev_State = st, ev_Timestamp = now\<rparr>;
          (r, b) = EventBus_Publish (svc_bus svc) ctx event (as_bus a);
          a = a\<lparr>as_clock := c, as_bus := b\<rparr>
      in case r of Inl err \<Rightarrow> publish_failed svc event err a | Inr _ \<Rightarrow> (Inr (Inr ()), a))"

definition Service_transition ::
  "('s, 'w, 'b) Service \<Rightarrow> Context \<Rightarrow> TenantID \<Rightarrow> State \<Rightarrow> ('s, 'b) admin_state \<Rightarrow>
     (panic + unit result) \<times> ('s, 'b) admin_state" where
  "Service_transition svc ctx i st a =
     (case AdminStore_SetState (svc_store svc) ctx i st (as_store a) of
        (Inl err, s) \<Rightarrow> (Inr (Inl err), a\<lparr>as_store := s\<rparr>)
      | (Inr _, s) \<Rightarrow> transition_publish svc ctx i st (a\<lparr>as_store := s\<rparr>))"

definition Service_Ban where "Service_Ban svc ctx i = Service_transition svc ctx i Banned"
definition Service_Disable where "Service_Disable svc ctx i = Service_transition svc ctx i Disabled"
definition Service_Activate where "Service_Activate svc ctx i = Service_transition svc ctx i Active"

lemmas Service_defs = Service_transition_def Service_Ban_def Service_Disable_def Service_Activate_def

section \<open>What a transition does, from the contract of the store\<close>

text \<open>
  The effect of the publication step on bus, clock, log and queue; \<open>outcome\<close> is what the
  bus answered.
\<close>

definition transition_event :: "TenantID \<Rightarrow> State \<Rightarrow> ('s, 'b) admin_state \<Rightarrow> TenantEvent" where
  "transition_event i st a = \<lparr>ev_TenantID = i, ev_State = st, ev_Timestamp = as_clock a 0\<rparr>"

definition published_effect ::
  "('s, 'w, 'b) Service \<Rightarrow> TenantEvent \<Rightarrow> unit result \<Rightarrow> ('s, 'b) admin_state \<Rightarrow>
     panic + unit result \<Rightarrow> ('s, 'b) admin_state \<Rightarrow> bool" where
  "published_effect svc event outcome a r a' \<longleftrightarrow>
     (case outcome of
        Inr _ \<Rightarrow> r = Inr (Inr ()) \<and> as_queues a' = as_queues a \<and> as_log a' = as_log a
      | Inl err \<Rightarrow>
          as_log a' = as_log a @ [PublishFailed (ev_TenantID event) (ev_State event) err] \<and>
          (case svc_retryQueue svc of
             None \<Rightarrow> r = Inr (Inl err) \<and> as_queues a' = as_queues a
           | Some p \<Rightarrow> queue_inv (as_queues a p) \<longrightarrow>
               r = Inr (Inl err) \<and> queue_inv (as_queues a' p) \<and>
               (\<exists>es. events_of (as_queues a' p) = es @ [event])))"

lemma published_effect_frame [simp]:
  "published_effect svc event outcome (a\<lparr>as_clock := c\<rparr>) = published_effect svc event outcome a"
  "published_effect svc event outcome (a\<lparr>as_bus := b\<rparr>) = published_effect svc event outcome a"
  "published_effect svc event outcome (a\<lparr>as_store := s\<rparr>) = published_effect svc event outcome a"
  by (intro ext, simp add: published_effect_def cong: sum.case_cong option.case_cong)+

lemma Enqueue_last:
  assumes "queue_inv q" and "PublishRetryQueue_Enqueue event (q, c) = Inr (q', c')"
  shows "queue_inv q' \<and> (\<exists>es. events_of q' = es @ [event])"
  by (rule Enqueue_cases [OF assms(1), of event c]) (use assms(2) in \<open>simp add: events_of_def\<close>)

lemma Enqueue_total:
  assumes "queue_inv q"
  shows "\<exists>q' c'. PublishRetryQueue_Enqueue event (q, c) = Inr (q', c')"
  by (rule Enqueue_cases [OF assms, of event c]) auto

lemma publish_failed_effect:
  assumes "publish_failed svc event err a = (r, a')"
  shows "published_effect svc event (Inl err) a r a' \<and> as_store a' = as_store a \<and> as_bus a' = as_bus a"
proof (cases "svc_retryQueue svc")
  case None
  with assms show ?thesis by (auto simp: publish_failed_def published_effect_def)
next
  case (Some p)
  show ?thesis
  proof (cases "PublishRetryQueue_Enqueue event (as_queues a p, as_clock a)")
    case (Inl pan)
    have "\<not> queue_inv (as_queues a p)"
      using Enqueue_total [of "as_queues a p" event "as_clock a"] Inl by auto
    with assms Some Inl show ?thesis by (auto simp: publish_failed_def published_effect_def)
  next
    case (Inr x)
    then obtain q c where "PublishRetryQueue_Enqueue event (as_queues a p, as_clock a) = Inr (q, c)"
      by (cases x) simp
    with assms Some Enqueue_last [of "as_queues a p" event "as_clock a" q c] show ?thesis
      by (auto simp: publish_failed_def published_effect_def)
  qed
qed

lemma transition_publish_effect:
  assumes "transition_publish svc ctx i st a = (r, a')"
    and "EventBus_Publish (svc_bus svc) ctx (transition_event i st a) (as_bus a) = (outcome, b)"
  shows "published_effect svc (transition_event i st a) outcome a r a' \<and>
    as_store a' = as_store a \<and> as_bus a' = b"
proof (cases outcome)
  case (Inl err)
  with assms publish_failed_effect [of svc "transition_event i st a" err
      "a\<lparr>as_clock := \<lambda>n. as_clock a (Suc n), as_bus := b\<rparr>" r a'] show ?thesis
    by (simp add: transition_publish_def transition_event_def time_Now_def)
next
  case (Inr u)
  with assms show ?thesis
    by (auto simp: transition_publish_def transition_event_def time_Now_def published_effect_def)
qed

locale admin_service = tenant_admin_store +
  fixes svc :: "('a, 'w, 'b) Service"
  assumes service_store: "svc_store svc = adm"
begin

text \<open>A tenant the store does not know: the error of the store and no other effect.\<close>

lemma transition_unknown:
  assumes "inv (as_store a)" and "view (as_store a) i = None"
  shows "Service_transition svc ctx i st a = (Inr (Inl ErrTenantNotFound), a)"
  using setState_view [OF assms(1), of ctx i st] assms(2)
  by (cases "AdminStore_SetState adm ctx i st (as_store a)")
    (auto simp: Service_transition_def service_store)

lemma transition_known:
  assumes "inv (as_store a)" and "view (as_store a) i = Some t"
    and "Service_transition svc ctx i st a = (r, a')"
    and "EventBus_Publish (svc_bus svc) ctx (transition_event i st a) (as_bus a) = (outcome, b)"
  shows "inv (as_store a') \<and> view (as_store a') = (view (as_store a))(i \<mapsto> t\<lparr>tState := st\<rparr>) \<and>
    as_bus a' = b \<and> published_effect svc (transition_event i st a) outcome a r a'"
proof -
  obtain u s where set: "AdminStore_SetState adm ctx i st (as_store a) = (u, s)" by fastforce
  from setState_view [OF assms(1) set] assms(2) have "inv s" and "u = Inr ()"
    and "view s = (view (as_store a))(i \<mapsto> t\<lparr>tState := st\<rparr>)" by auto
  moreover have "published_effect svc (transition_event i st a) outcome a r a' \<and> as_store a' = s \<and> as_bus a' = b"
    using transition_publish_effect [of svc ctx i st "a\<lparr>as_store := s\<rparr>" r a' outcome b] assms(3,4) set \<open>u = Inr ()\<close>
    by (simp add: Service_transition_def service_store transition_event_def)
  ultimately show ?thesis by simp
qed

end

interpretation mem_admin: admin_service ms_inv heap MemoryStore_Store MemoryStore_AdminStore ms_view
    "NewAdminService MemoryStore_AdminStore bus [WithPublishRetryQueue q]" for bus q
  by unfold_locales (simp add: NewAdminService_def WithPublishRetryQueue_def)

lemma svc_bus_New [simp]: "svc_bus (NewAdminService store bus [WithPublishRetryQueue q]) = bus"
  by (simp add: NewAdminService_def WithPublishRetryQueue_def)

lemma svc_retryQueue_New [simp]: "svc_retryQueue (NewAdminService store bus [WithPublishRetryQueue q]) = q"
  by (simp add: NewAdminService_def WithPublishRetryQueue_def)

text \<open>
  C14. A transition of the administration service on the in-memory store. For a tenant the store
  does not hold, the error of the store is returned and nothing else happens: nothing is
  published. For any other tenant the state is written, and no other tenant changes; exactly
  one event, with this tenant, this state and the current time, is given to the bus, after
  the write. If the bus accepts it the call returns nil. If not, the bus's error is logged
  and returned, the write is kept, and with a retry queue (within its invariant) the event
  is its last entry.
\<close>

theorem admin_transition_effect:
  assumes "ms_inv (as_store a)"
    and "svc = NewAdminService MemoryStore_AdminStore bus [WithPublishRetryQueue q]"
    and "Service_transition svc ctx i st a = (r, a')"
  shows "case ms_view (as_store a) i of
      None \<Rightarrow> r = Inr (Inl ErrTenantNotFound) \<and> a' = a
    | Some t \<Rightarrow> ms_inv (as_store a') \<and>
        ms_view (as_store a') = (ms_view (as_store a))(i \<mapsto> t\<lparr>tState := st\<rparr>) \<and>
        (let (outcome, b) = EventBus_Publish bus ctx (transition_event i st a) (as_bus a)
         in as_bus a' = b \<and> published_effect svc (transition_event i st a) outcome a r a')"
proof (cases "ms_view (as_store a) i")
  case None
  with mem_admin.transition_unknown [OF assms(1) None, of bus q ctx st] assms(2,3) show ?thesis by simp
next
  case (Some t)
  obtain outcome b where pub: "EventBus_Publish bus ctx (transition_event i st a) (as_bus a) = (outcome, b)"
    by fastforce
  with mem_admin.transition_known [OF assms(1) Some assms(3) [unfolded assms(2)]] Some
  show ?thesis by (simp add: assms(2))
qed

definition failing_EventBus :: "(BanChecker, TenantEvent list) EventBus" where
  "failing_EventBus = \<lparr>EventBus_Publish = (\<lambda>ctx. failing_bus), EventBus_Subscribe = (\<lambda>h b. (Inr (), b))\<rparr>"

definition demo_admin :: "(mem_state, TenantEvent list) admin_state" where
  "demo_admin = \<lparr>as_store = demo_store, as_bus = [], as_queues = (\<lambda>_. NewPublishRetryQueue),
     as_clock = (\<lambda>n. Time (int n)), as_log = []\<rparr>"

lemma demo_view: "ms_view demo_store ''acme'' = Some \<lparr>tID = ''acme'', tState = Active, tRoles = [''viewer'']\<rparr>"
  by (simp add: ms_view_def demo_store_def demo_heap_def deref_def struct_value_def slice_roles_def)

theorem admin_transition_effect_witness:
  "\<exists>a'. Service_transition (NewAdminService MemoryStore_AdminStore failing_EventBus [WithPublishRetryQueue (Some 0)])
       Background ''acme'' Banned demo_admin = (Inr (Inl (ForeignErr ''unreachable'')), a') \<and>
     map_option tState (ms_view (as_store a') ''acme'') = Some Banned \<and>
     as_log a' = [PublishFailed ''acme'' Banned (ForeignErr ''unreachable'')] \<and>
     (\<exists>es. events_of (as_queues a' 0) = es @ [\<lparr>ev_TenantID = ''acme'', ev_State = Banned, ev_Timestamp = Time 0\<rparr>])"
proof -
  let ?svc = "NewAdminService MemoryStore_AdminStore failing_EventBus [WithPublishRetryQueue (Some 0)]"
  obtain r a' where run: "Service_transition ?svc Background ''acme'' Banned demo_admin = (r, a')" by fastforce
  have "ms_inv (as_store demo_admin)" by (simp add: demo_admin_def demo_store_inv)
  from admin_transition_effect [OF this refl run] run queue_inv_new show ?thesis
    by (auto simp: demo_admin_def demo_view failing_EventBus_def failing_bus_def published_effect_def
      transition_event_def)
qed

end
