(* ===== verification/Ban_Threads.thy ===== *)
theory Ban_Threads
  imports Ban_Checker
begin

text \<open>
  The ban checker in use by several goroutines (\<^verbatim>\<open>src/banchecker/banchecker.go\<close>). Every delivered
  event runs \<^verbatim>\<open>apply\<close> in its own goroutine, and \<^verbatim>\<open>apply\<close> is a \<^verbatim>\<open>Load\<close> and a \<^verbatim>\<open>Store\<close> of a
  \<^verbatim>\<open>sync.Map\<close> with no lock around them. The state here is the checker together with the calls
  of \<^verbatim>\<open>apply\<close> in progress, and one step is one of these two operations, so that calls overlap
  in any way. The state also remembers for which tenants an update was lost: a call stored
  over an entry that another call had written after its own \<^verbatim>\<open>Load\<close>. Shown: for every other
  tenant the newest information wins, whatever the interleaving, and no update is lost for a tenant
  with at most one call between its \<^verbatim>\<open>Load\<close> and its \<^verbatim>\<open>Store\<close> at a time. That an update can be lost
  is the last theorem of \<open>Ban_Checker\<close>.
\<close>

section \<open>Calls in progress\<close>

record checker_state =
  ck_checker :: BanChecker
  ck_threads :: "apply_thread list"
  ck_raced :: "TenantID set"

definition idle_checker :: "BanChecker \<Rightarrow> checker_state" where
  "idle_checker bc = \<lparr>ck_checker = bc, ck_threads = [], ck_raced = {}\<rparr>"

text \<open>A goroutine enters \<^verbatim>\<open>apply\<close>, and one that enters it through \<^verbatim>\<open>handleEvent\<close>.\<close>

definition begin_apply :: "TenantID \<Rightarrow> bool \<Rightarrow> Time \<Rightarrow> checker_state \<Rightarrow> checker_state" where
  "begin_apply i banned at c = c\<lparr>ck_threads := ck_threads c @ [Starting i banned at]\<rparr>"

definition begin_handleEvent :: "TenantEvent \<Rightarrow> checker_state \<Rightarrow> checker_state" where
  "begin_handleEvent event c = begin_apply (ev_TenantID event) (ev_State event = Banned) (ev_Timestamp event) c"

text \<open>The condition under which \<^verbatim>\<open>apply\<close> returns without storing, and its next operation.\<close>

definition outdated :: "banEntry option \<Rightarrow> Time \<Rightarrow> bool" where
  "outdated x at = (case x of Some e \<Rightarrow> Time_After (be_updatedAt e) at | None \<Rightarrow> False)"

fun next_apply :: "apply_thread \<Rightarrow> BanChecker \<Rightarrow> apply_thread \<times> BanChecker" where
  "next_apply (Starting i banned at) bc = (Loaded i banned at (bc_banned bc i), bc)"
| "next_apply (Loaded i banned at x) bc =
     (Returned, if outdated x at then bc
       else bc\<lparr>bc_banned := (bc_banned bc)(i \<mapsto> \<lparr>be_banned = banned, be_updatedAt = at\<rparr>)\<rparr>)"
| "next_apply Returned bc = (Returned, bc)"

text \<open>The tenant for which the next operation loses an update, if it does.\<close>

fun loses_update :: "apply_thread \<Rightarrow> BanChecker \<Rightarrow> TenantID set" where
  "loses_update (Loaded i banned at x) bc = (if \<not> outdated x at \<and> bc_banned bc i \<noteq> x then {i} else {})"
| "loses_update th bc = {}"

definition advance_apply :: "nat \<Rightarrow> checker_state \<Rightarrow> checker_state" where
  "advance_apply k c =
     (if k < length (ck_threads c)
      then (let th = ck_threads c ! k; (th', bc) = next_apply th (ck_checker c) in
            \<lparr>ck_checker = bc, ck_threads = (ck_threads c)[k := th'],
             ck_raced = ck_raced c \<union> loses_update th (ck_checker c)\<rparr>)
      else c)"

definition finished :: "checker_state \<Rightarrow> bool" where
  "finished c \<longleftrightarrow> list_all (\<lambda>th. th = Returned) (ck_threads c)"

lemmas checker_defs = begin_apply_def begin_handleEvent_def advance_apply_def finished_def idle_checker_def

text \<open>The steps are those of \<^const>\<open>apply_step\<close>.\<close>

lemma next_apply_is_step:
  assumes "k < length ts" and "ts ! k \<noteq> Returned"
  shows "apply_step (bc, ts) (snd (next_apply (ts ! k) bc), ts[k := fst (next_apply (ts ! k) bc)])"
proof (cases "ts ! k")
  case (Starting i b t)
  with apply_load [OF assms(1)] show ?thesis by simp
next
  case (Loaded i b t x)
  show ?thesis
  proof (cases "outdated x t")
    case True
    then obtain e where "x = Some e" "Time_After (be_updatedAt e) t" by (auto simp: outdated_def split: option.splits)
    with apply_ignore [OF assms(1), of i b t e bc] Loaded True show ?thesis by simp
  next
    case False
    then have "\<forall>e. x = Some e \<longrightarrow> \<not> Time_After (be_updatedAt e) t" by (auto simp: outdated_def)
    with apply_store [OF assms(1) Loaded] Loaded False show ?thesis by simp
  qed
qed (use assms(2) in simp)

lemma apply_step_is_next:
  assumes "apply_step (bc, ts) (bc', ts')"
  obtains k where "k < length ts" and "ts ! k \<noteq> Returned"
    and "(fst (next_apply (ts ! k) bc), snd (next_apply (ts ! k) bc)) = (ts' ! k, bc')"
  using assms by (rule apply_stepE) (auto simp: outdated_def split: option.splits intro: that)

text \<open>A call that no other one interrupts is the function \<^const>\<open>BanChecker_apply\<close>, and loses nothing.\<close>

lemma apply_uninterrupted:
  "advance_apply (length (ck_threads c)) (advance_apply (length (ck_threads c)) (begin_apply i b t c)) =
     c\<lparr>ck_checker := BanChecker_apply (ck_checker c) i b t, ck_threads := ck_threads c @ [Returned]\<rparr>"
  by (cases c) (simp add: checker_defs outdated_def BanChecker_apply_def split: option.split)

lemma handleEvent_uninterrupted:
  "advance_apply (length (ck_threads c)) (advance_apply (length (ck_threads c)) (begin_handleEvent e c)) =
     c\<lparr>ck_checker := BanChecker_handleEvent (ck_checker c) e, ck_threads := ck_threads c @ [Returned]\<rparr>"
  by (simp add: begin_handleEvent_def apply_uninterrupted BanChecker_handleEvent_def)

lemma advance_beyond [simp]: "\<not> k < length (ck_threads c) \<Longrightarrow> advance_apply k c = c"
  by (simp add: advance_apply_def)

lemma raced_mono: "ck_raced c \<subseteq> ck_raced (advance_apply k c)"
  by (auto simp: advance_apply_def split_def Let_def)

lemma begin_simps [simp]:
  "ck_raced (begin_apply i b t c) = ck_raced c" "ck_checker (begin_apply i b t c) = ck_checker c"
  "ck_raced (begin_handleEvent e c) = ck_raced c" "ck_checker (begin_handleEvent e c) = ck_checker c"
  by (simp_all add: checker_defs)

section \<open>What a checker has been told\<close>

definition report :: "TenantEvent \<Rightarrow> banEntry" where
  "report e = \<lparr>be_banned = (ev_State e = Banned), be_updatedAt = ev_Timestamp e\<rparr>"

definition reports :: "TenantEvent set \<Rightarrow> TenantID \<Rightarrow> banEntry set" where
  "reports E i = report ` {e \<in> E. ev_TenantID e = i}"

lemma reports_simps [simp]:
  "reports {} i = {}" "reports (E \<union> F) i = reports E i \<union> reports F i"
  "reports (insert e E) i = (if ev_TenantID e = i then insert (report e) (reports E i) else reports E i)"
  by (auto simp: reports_def)

fun pending_of :: "TenantID \<Rightarrow> apply_thread \<Rightarrow> banEntry set" where
  "pending_of i (Starting j banned at) = (if j = i then {\<lparr>be_banned = banned, be_updatedAt = at\<rparr>} else {})"
| "pending_of i (Loaded j banned at x) = (if j = i then {\<lparr>be_banned = banned, be_updatedAt = at\<rparr>} else {})"
| "pending_of i Returned = {}"

text \<open>The entry of a tenant and what the calls in progress may still store.\<close>

definition facts :: "checker_state \<Rightarrow> TenantID \<Rightarrow> banEntry set" where
  "facts c i = set_option (bc_banned (ck_checker c) i) \<union> (\<Union>th \<in> set (ck_threads c). pending_of i th)"

lemma facts_idle [simp]: "facts (idle_checker bc) i = set_option (bc_banned bc i)"
  by (simp add: facts_def idle_checker_def)

lemma facts_begin [simp]:
  "facts (begin_apply j b t c) i = facts c i \<union> (if j = i then {\<lparr>be_banned = b, be_updatedAt = t\<rparr>} else {})"
  "facts (begin_handleEvent e c) i = facts c i \<union> reports {e} i"
  by (auto simp: facts_def checker_defs reports_def report_def)

lemma facts_finished: "finished c \<Longrightarrow> facts c i = set_option (bc_banned (ck_checker c) i)"
  by (auto simp: facts_def finished_def list_all_iff)

text \<open>
  Some information covers other information if it is a part of it that is not older. What is
  newest in the whole is then in the part.
\<close>

definition covers :: "banEntry set \<Rightarrow> banEntry set \<Rightarrow> bool" where
  "covers F M \<longleftrightarrow> F \<subseteq> M \<and> (\<forall>m \<in> M. \<exists>f \<in> F. be_updatedAt m \<le> be_updatedAt f)"

lemma covers_refl [simp]: "covers X X"
  by (auto simp: covers_def)

lemma covers_trans: "covers F M \<Longrightarrow> covers M N \<Longrightarrow> covers F N"
  by (simp add: covers_def) (meson order_trans subset_iff)

lemma reports_mono: "E \<subseteq> F \<Longrightarrow> reports E i \<subseteq> reports F i"
  by (auto simp: reports_def)

definition dominates :: "banEntry set \<Rightarrow> banEntry set \<Rightarrow> bool" where
  "dominates F M \<longleftrightarrow> (\<forall>m \<in> M. \<exists>f \<in> F. be_updatedAt m \<le> be_updatedAt f)"

lemma covers_dominates: "covers F M \<longleftrightarrow> F \<subseteq> M \<and> dominates F M"
  by (simp add: covers_def dominates_def)

lemma dominates_trans: "dominates F M \<Longrightarrow> dominates M N \<Longrightarrow> dominates F N"
  unfolding dominates_def by (meson order_trans)

lemma dominates_subset: "dominates F M \<Longrightarrow> N \<subseteq> M \<Longrightarrow> dominates F N"
  by (auto simp: dominates_def)

lemma covers_union: "covers F M \<Longrightarrow> covers G N \<Longrightarrow> covers (F \<union> G) (M \<union> N)"
  by (auto simp: covers_def)

definition newest :: "banEntry \<Rightarrow> banEntry set \<Rightarrow> bool" where
  "newest x X \<longleftrightarrow> x \<in> X \<and> (\<forall>y \<in> X. y = x \<or> be_updatedAt y < be_updatedAt x)"

lemma covers_newest: "covers F M \<Longrightarrow> newest x M \<Longrightarrow> newest x F"
  unfolding covers_def newest_def by (metis leD subsetD)

text \<open>What a call has loaded is not newer than the entry, as long as no update was lost.\<close>

definition tracks :: "checker_state \<Rightarrow> bool" where
  "tracks c \<longleftrightarrow> (\<forall>i b t e. Loaded i b t (Some e) \<in> set (ck_threads c) \<and> i \<notin> ck_raced c \<longrightarrow>
     (\<exists>v. bc_banned (ck_checker c) i = Some v \<and> be_updatedAt e \<le> be_updatedAt v))"

lemma tracks_idle [simp]: "tracks (idle_checker bc)"
  by (simp add: tracks_def idle_checker_def)

lemma tracks_begin [simp]: "tracks (begin_apply i b t c) \<longleftrightarrow> tracks c" "tracks (begin_handleEvent e c) \<longleftrightarrow> tracks c"
  by (auto simp: tracks_def checker_defs)

lemma set_update_split:
  assumes "k < length xs"
  obtains ys where "set xs = insert (xs ! k) ys" and "\<And>y. set (xs[k := y]) = insert y ys"
proof
  show "set xs = insert (xs ! k) (set (take k xs) \<union> set (drop (Suc k) xs))"
    using arg_cong [OF id_take_nth_drop [OF assms], of set] by simp
  show "set (xs[k := y]) = insert y (set (take k xs) \<union> set (drop (Suc k) xs))" for y
    by (simp add: upd_conv_take_nth_drop [OF assms])
qed

text \<open>One operation of a call in progress, case by case.\<close>

lemma advance_cases [case_names none load ignore store]:
  obtains "advance_apply k c = c"
  | i b t R where "set (ck_threads c) = insert (Starting i b t) R"
      and "set (ck_threads (advance_apply k c)) = insert (Loaded i b t (bc_banned (ck_checker c) i)) R"
      and "ck_checker (advance_apply k c) = ck_checker c" and "ck_raced (advance_apply k c) = ck_raced c"
  | i b t e R where "set (ck_threads c) = insert (Loaded i b t (Some e)) R" and "t < be_updatedAt e"
      and "set (ck_threads (advance_apply k c)) = insert Returned R"
      and "ck_checker (advance_apply k c) = ck_checker c" and "ck_raced (advance_apply k c) = ck_raced c"
  | i b t x R where "set (ck_threads c) = insert (Loaded i b t x) R" and "\<forall>e. x = Some e \<longrightarrow> be_updatedAt e \<le> t"
      and "set (ck_threads (advance_apply k c)) = insert Returned R"
      and "bc_banned (ck_checker (advance_apply k c)) = (bc_banned (ck_checker c))(i \<mapsto> \<lparr>be_banned = b, be_updatedAt = t\<rparr>)"
      and "ck_raced (advance_apply k c) = ck_raced c \<union> (if bc_banned (ck_checker c) i \<noteq> x then {i} else {})"
proof (cases "k < length (ck_threads c)")
  case True
  from set_update_split [OF True] obtain R where R: "set (ck_threads c) = insert (ck_threads c ! k) R"
    "\<And>y. set ((ck_threads c)[k := y]) = insert y R" by blast
  show thesis
  proof (cases "ck_threads c ! k")
    case (Starting i b t)
    then show thesis using R True by (intro that(2) [of i b t R]) (simp_all add: advance_apply_def)
  next
    case (Loaded i b t x)
    show thesis
    proof (cases "outdated x t")
      case out: True
      then obtain e where "x = Some e" "t < be_updatedAt e" by (auto simp: outdated_def split: option.splits)
      with Loaded R True out show thesis by (intro that(3) [of i b t e R]) (simp_all add: advance_apply_def)
    next
      case False
      then have "\<forall>e. x = Some e \<longrightarrow> be_updatedAt e \<le> t" by (auto simp: outdated_def not_less split: option.splits)
      with Loaded R True False show thesis by (intro that(4) [of i b t x R]) (simp_all add: advance_apply_def)
    qed
  next
    case Returned
    then have "advance_apply k c = c" using True by (cases c) (simp add: advance_apply_def list_update_same_conv)
    then show thesis by (rule that(1))
  qed
qed (simp add: that(1))

lemma advance_facts_subset: "facts (advance_apply k c) i \<subseteq> facts c i"
  by (cases rule: advance_cases [of k c]) (auto simp: facts_def split: if_splits)

lemma tracksD:
  assumes "tracks c" and "Loaded i b t (Some e) \<in> set (ck_threads c)" and "i \<notin> ck_raced c"
  obtains v where "bc_banned (ck_checker c) i = Some v" and "be_updatedAt e \<le> be_updatedAt v"
  using assms unfolding tracks_def by blast

lemma advance_tracks:
  assumes "tracks c"
  shows "tracks (advance_apply k c)"
  unfolding tracks_def
proof (intro allI impI)
  fix i b t e
  assume this_call: "Loaded i b t (Some e) \<in> set (ck_threads (advance_apply k c)) \<and> i \<notin> ck_raced (advance_apply k c)"
  then have fine: "i \<notin> ck_raced c" using raced_mono by blast
  show "\<exists>v. bc_banned (ck_checker (advance_apply k c)) i = Some v \<and> be_updatedAt e \<le> be_updatedAt v"
  proof (cases rule: advance_cases [of k c])
    case none
    with this_call assms tracksD show ?thesis by metis
  next
    case (load j b' t' R)
    with this_call have "bc_banned (ck_checker c) i = Some e \<or> Loaded i b t (Some e) \<in> set (ck_threads c)" by auto
    with load(3) assms fine tracksD show ?thesis by (metis order_refl)
  next
    case (ignore j b' t' e' R)
    with this_call have "Loaded i b t (Some e) \<in> set (ck_threads c)" by auto
    with ignore(4) assms fine tracksD show ?thesis by metis
  next
    case (store j b' t' x R)
    with this_call have "Loaded i b t (Some e) \<in> set (ck_threads c)" by auto
    with assms fine obtain v where v: "bc_banned (ck_checker c) i = Some v" "be_updatedAt e \<le> be_updatedAt v"
      by (auto elim: tracksD)
    have "be_updatedAt v \<le> t'" if "i = j"
      using store(2,5) this_call v(1) that by (auto split: if_splits)
    with v store(4) show ?thesis by auto
  qed
qed

text \<open>For a tenant without a lost update nothing newest is forgotten.\<close>

lemma advance_covers:
  assumes "tracks c" and "i \<notin> ck_raced (advance_apply k c)"
  shows "covers (facts (advance_apply k c) i) (facts c i)"
proof (cases rule: advance_cases [of k c])
  case (load j b t R)
  then have "facts (advance_apply k c) i = facts c i" by (auto simp: facts_def)
  then show ?thesis by simp
next
  case (ignore j b t e R)
  then have "i = j \<Longrightarrow> \<exists>v. bc_banned (ck_checker c) i = Some v \<and> t \<le> be_updatedAt v"
    using assms unfolding tracks_def by (metis insertI1 less_le_trans less_imp_le)
  with ignore show ?thesis by (auto simp: covers_def facts_def)
next
  case (store j b t x R)
  show ?thesis
  proof (cases "i = j")
    case True
    let ?e = "\<lparr>be_banned = b, be_updatedAt = t\<rparr>"
    have "bc_banned (ck_checker c) j = x" using store(5) assms(2) True by (auto split: if_splits)
    then have "facts c i = set_option x \<union> ({?e} \<union> (\<Union>th \<in> R. pending_of i th))"
      using store(1) True by (simp add: facts_def)
    moreover have "facts (advance_apply k c) i = {?e} \<union> (\<Union>th \<in> R. pending_of i th)"
      using store(3,4) True by (simp add: facts_def)
    ultimately show ?thesis using store(2) by (auto simp: covers_def)
  next
    case False
    then have "facts (advance_apply k c) i = facts c i" using store by (simp add: facts_def)
    then show ?thesis by simp
  qed
qed simp

section \<open>Behind the in-process bus\<close>

text \<open>
  A goroutine that \<^verbatim>\<open>Publish\<close> has started enters the checker's handler. Publications, goroutines
  that start and operations of calls in progress are interleaved in any way.
\<close>

definition start_handler :: "nat \<Rightarrow> BanChecker MemoryEventBus \<times> checker_state \<Rightarrow> BanChecker MemoryEventBus \<times> checker_state" where
  "start_handler k = (\<lambda>(b, c).
     if k < length (started b)
     then (b\<lparr>started := delete_at k (started b)\<rparr>, begin_handleEvent (snd (started b ! k)) c)
     else (b, c))"

datatype checked_action = PublishEvent TenantEvent | StartHandler nat | Proceed nat

fun checked_step :: "checked_action \<Rightarrow> BanChecker MemoryEventBus \<times> checker_state \<Rightarrow> BanChecker MemoryEventBus \<times> checker_state" where
  "checked_step (PublishEvent e) (b, c) = (snd (MemoryEventBus_Publish Background e b), c)"
| "checked_step (StartHandler k) bc = start_handler k bc"
| "checked_step (Proceed k) (b, c) = (b, advance_apply k c)"

definition checked_run ::
  "checked_action list \<Rightarrow> BanChecker MemoryEventBus \<times> checker_state \<Rightarrow> BanChecker MemoryEventBus \<times> checker_state" where
  "checked_run as bc = fold checked_step as bc"

fun checked_events :: "checked_action list \<Rightarrow> TenantEvent list" where
  "checked_events [] = []"
| "checked_events (PublishEvent e # as) = e # checked_events as"
| "checked_events (a # as) = checked_events as"

lemma checked_events_append [simp]: "checked_events (as @ as') = checked_events as @ checked_events as'"
  by (induction as rule: checked_events.induct) auto

text \<open>A goroutine of the checker's own handler that runs to its end at once is \<^const>\<open>deliver\<close>.\<close>

lemma start_handler_uninterrupted:
  assumes "k < length (started b)" and "fst (started b ! k) = ban_handler" and "start_handler k (b, c) = (b', c')"
  shows "(b', ck_checker (advance_apply (length (ck_threads c)) (advance_apply (length (ck_threads c)) c'))) =
    deliver k (b, ck_checker c)"
  using assms handleEvent_uninterrupted [of c "snd (started b ! k)"]
  by (auto simp: start_handler_def deliver_def safeCall_def ban_handler_def)

lemma set_delete_at: "k < length xs \<Longrightarrow> set xs = insert (xs ! k) (set (delete_at k xs))"
  using mset_eq_setD [of xs "xs ! k # delete_at k xs"] mset_delete_at [of k xs] by simp

definition checked_inv :: "TenantEvent list \<Rightarrow> BanChecker MemoryEventBus \<times> checker_state \<Rightarrow> bool" where
  "checked_inv es = (\<lambda>(b, c). handlers b = [ban_handler] \<and> tracks c \<and>
     (\<forall>i. i \<notin> ck_raced c \<longrightarrow> covers (facts c i \<union> reports (snd ` set (started b)) i) (reports (set es) i)))"

lemma covers_insert: "covers F M \<Longrightarrow> covers (insert x F) (insert x M)"
  by (auto simp: covers_def)

lemma checked_inv_publish:
  "checked_inv es (b, c) \<Longrightarrow> checked_inv (es @ [e]) (snd (MemoryEventBus_Publish ctx e b), c)"
  by (simp add: checked_inv_def MemoryEventBus_Publish_def covers_insert)

lemma checked_inv_start: "checked_inv es (b, c) \<Longrightarrow> checked_inv es (start_handler k (b, c))"
  using set_delete_at [of k "started b"]
  by (auto simp: checked_inv_def start_handler_def Un_assoc insert_commute)

lemma checked_inv_advance:
  assumes "checked_inv es (b, c)"
  shows "checked_inv es (b, advance_apply k c)"
proof -
  have "covers (facts (advance_apply k c) i \<union> reports (snd ` set (started b)) i) (reports (set es) i)"
    if "i \<notin> ck_raced (advance_apply k c)" for i
  proof -
    have "covers (facts (advance_apply k c) i) (facts c i)"
      using assms that by (intro advance_covers) (simp_all add: checked_inv_def)
    from covers_union [OF this covers_refl] show ?thesis
      by (rule covers_trans) (use assms raced_mono [of c k] that in \<open>auto simp: checked_inv_def\<close>)
  qed
  with assms show ?thesis by (simp add: checked_inv_def advance_tracks)
qed

lemma checked_inv_new: "checked_inv [] (ban_bus, idle_checker \<lparr>bc_banned = Map.empty\<rparr>)"
  by (simp add: checked_inv_def ban_bus_def)

lemma checked_run_inv:
  "checked_inv (checked_events as) (checked_run as (ban_bus, idle_checker \<lparr>bc_banned = Map.empty\<rparr>))"
proof (induction as rule: rev_induct)
  case (snoc a as)
  obtain b c where "checked_run as (ban_bus, idle_checker \<lparr>bc_banned = Map.empty\<rparr>) = (b, c)" by fastforce
  with snoc show ?case
    by (cases a) (simp_all add: checked_run_def checked_inv_publish checked_inv_start checked_inv_advance)
qed (simp add: checked_run_def checked_inv_new)

text \<open>
  C15. The newest event wins, except where two calls of \<^verbatim>\<open>apply\<close> collide. For a new ban checker on
  the in-process bus: publications, the start of the goroutines that deliver them, and the
  \<^verbatim>\<open>Load\<close> and the \<^verbatim>\<open>Store\<close> of each of their calls of \<^verbatim>\<open>apply\<close> are interleaved in any way. Once all
  goroutines have returned, the checker knows of each tenant exactly the state and the time of a
  newest published event for it, also with contradicting simultaneous events, and reports a
  tenant without events as not banned, provided no call for that tenant stored over an entry
  that another call had written since its own \<^verbatim>\<open>Load\<close>.
\<close>

theorem ban_checker_newest_wins:
  assumes "BanChecker_New MemoryEventBus_EventBus NewMemoryEventBus = (bc, b)"
    and "checked_run as (b, idle_checker bc) = (b', c')" and "started b' = []" and "finished c'"
    and "i \<notin> ck_raced c'"
  shows "if \<exists>e \<in> set (checked_events as). ev_TenantID e = i
    then \<exists>e \<in> set (checked_events as). ev_TenantID e = i \<and>
      (\<forall>e' \<in> set (checked_events as). ev_TenantID e' = i \<longrightarrow> ev_Timestamp e' \<le> ev_Timestamp e) \<and>
      bc_banned (ck_checker c') i = Some \<lparr>be_banned = (ev_State e = Banned), be_updatedAt = ev_Timestamp e\<rparr>
    else \<not> BanChecker_IsBanned (ck_checker c') i"
proof -
  from assms(1) have "bc = \<lparr>bc_banned = Map.empty\<rparr>" "b = ban_bus" by (simp_all add: New_on_memory_bus)
  with checked_run_inv [of as] assms(2-5)
  have "covers (set_option (bc_banned (ck_checker c') i)) (reports (set (checked_events as)) i)"
    by (simp add: checked_inv_def facts_finished)
  then show ?thesis
    by (cases "bc_banned (ck_checker c') i")
      (auto simp: covers_def reports_def report_def BanChecker_IsBanned_def)
qed

text \<open>
  A schedule for the witness: a ban and a later reactivation are published, the reactivation's
  goroutine starts first, and the ban's \<^verbatim>\<open>Load\<close> comes after its \<^verbatim>\<open>Store\<close>.
\<close>

definition demo_events :: "TenantEvent list" where
  "demo_events =
     [\<lparr>ev_TenantID = ''acme'', ev_State = Banned, ev_Timestamp = Time 1\<rparr>,
      \<lparr>ev_TenantID = ''acme'', ev_State = Active, ev_Timestamp = Time 2\<rparr>]"

definition demo_schedule :: "checked_action list" where
  "demo_schedule = map PublishEvent demo_events @
     [StartHandler 1, StartHandler 0, Proceed 0, Proceed 0, Proceed 1, Proceed 1]"

lemma demo_schedule_run:
  "checked_run demo_schedule (ban_bus, idle_checker \<lparr>bc_banned = Map.empty\<rparr>) =
     (ban_bus, \<lparr>ck_checker = \<lparr>bc_banned = [''acme'' \<mapsto> \<lparr>be_banned = False, be_updatedAt = Time 2\<rparr>]\<rparr>,
        ck_threads = [Returned, Returned], ck_raced = {}\<rparr>)"
  by (simp add: checked_run_def demo_schedule_def demo_events_def ban_bus_def start_handler_def
      MemoryEventBus_Publish_def checker_defs outdated_def delete_at_def)

lemma demo_schedule_events: "checked_events demo_schedule = demo_events"
  by (simp add: demo_schedule_def demo_events_def)

theorem ban_checker_newest_wins_witness:
  "\<exists>e \<in> set demo_events. ev_Timestamp e = Time 2 \<and>
     bc_banned (ck_checker (snd (checked_run demo_schedule (ban_bus, idle_checker \<lparr>bc_banned = Map.empty\<rparr>)))) ''acme'' =
       Some \<lparr>be_banned = False, be_updatedAt = ev_Timestamp e\<rparr>"
  using ban_checker_newest_wins [OF New_on_memory_bus demo_schedule_run, of "''acme''"]
  by (simp add: demo_schedule_run demo_schedule_events finished_def) (simp add: demo_events_def)

section \<open>When no update is lost\<close>

text \<open>
  An update can only be lost while two calls for one tenant are between their \<^verbatim>\<open>Load\<close> and their
  \<^verbatim>\<open>Store\<close> at the same time. As long as this does not happen, what a call has loaded is the entry.
\<close>

fun has_loaded :: "TenantID \<Rightarrow> apply_thread \<Rightarrow> bool" where
  "has_loaded i (Loaded j banned at x) = (j = i)"
| "has_loaded i th = False"

definition one_at_a_time :: "TenantID \<Rightarrow> checker_state \<Rightarrow> bool" where
  "one_at_a_time i c \<longleftrightarrow> length (filter (has_loaded i) (ck_threads c)) \<le> 1"

definition loads_current :: "TenantID \<Rightarrow> checker_state \<Rightarrow> bool" where
  "loads_current i c \<longleftrightarrow> (\<forall>b t x. Loaded i b t x \<in> set (ck_threads c) \<longrightarrow> x = bc_banned (ck_checker c) i)"

lemma filter_update_last:
  assumes "k < length xs" and "P (xs ! k)" and "length (filter P xs) \<le> 1" and "\<not> P y"
  shows "filter P (xs[k := y]) = []"
proof -
  have "filter P xs = filter P (take k xs) @ xs ! k # filter P (drop (Suc k) xs)"
    using arg_cong [OF id_take_nth_drop [OF assms(1)], of "filter P"] assms(2) by simp
  with assms(3,4) show ?thesis by (simp add: upd_conv_take_nth_drop [OF assms(1)])
qed

lemma advance_not_raced:
  assumes "one_at_a_time i c" and "loads_current i c" and "i \<notin> ck_raced c"
  shows "loads_current i (advance_apply k c) \<and> i \<notin> ck_raced (advance_apply k c)"
proof (cases "k < length (ck_threads c) \<and> has_loaded i (ck_threads c ! k)")
  case True
  then obtain b t x where th: "ck_threads c ! k = Loaded i b t x" by (cases "ck_threads c ! k") auto
  then have "x = bc_banned (ck_checker c) i" using assms(2) True nth_mem [of k "ck_threads c"] by (simp add: loads_current_def)
  moreover have "filter (has_loaded i) ((ck_threads c)[k := Returned]) = []"
    using True assms(1) by (intro filter_update_last) (auto simp: one_at_a_time_def)
  then have "Loaded i b' t' x' \<notin> set ((ck_threads c)[k := Returned])" for b' t' x' by (force simp: filter_empty_conv)
  ultimately show ?thesis using True th assms(3) by (simp add: loads_current_def advance_apply_def)
next
  case False
  have old: "x = bc_banned (ck_checker c) i \<or> Loaded i b t x = y" if "Loaded i b t x \<in> set ((ck_threads c)[k := y])" for b t x y
    using subsetD [OF set_update_subset_insert that] assms(2) by (auto simp: loads_current_def)
  show ?thesis
  proof (cases "k < length (ck_threads c)")
    case True
    with False assms(3) show ?thesis
      by (cases "ck_threads c ! k") (auto simp: loads_current_def advance_apply_def dest!: old)
  qed (use assms in simp)
qed

text \<open>A run in which the goroutines of a tenant never overlap in this way loses no update for it.\<close>

lemma run_not_raced:
  assumes "\<And>as'. prefix as' as \<Longrightarrow> one_at_a_time i (snd (checked_run as' (b, idle_checker bc)))"
  shows "i \<notin> ck_raced (snd (checked_run as (b, idle_checker bc)))"
proof -
  have "loads_current i (snd (checked_run as' (b, idle_checker bc))) \<and> i \<notin> ck_raced (snd (checked_run as' (b, idle_checker bc)))"
    if "prefix as' as" for as'
    using that
  proof (induction as' rule: rev_induct)
    case Nil
    show ?case by (simp add: checked_run_def idle_checker_def loads_current_def)
  next
    case (snoc a as')
    obtain b1 c1 where run: "checked_run as' (b, idle_checker bc) = (b1, c1)" by fastforce
    have pre: "prefix as' as" using snoc.prems append_prefixD by blast
    from snoc.IH [OF pre] assms [OF pre] run have "loads_current i c1" "i \<notin> ck_raced c1" "one_at_a_time i c1" by simp_all
    with advance_not_raced [of i c1] run show ?case
      by (cases a) (auto simp: checked_run_def start_handler_def loads_current_def checker_defs)
  qed
  from this [of as] show ?thesis by simp
qed

end
