(* ===== verification/Ban_Propagation.thy ===== *)
theory Ban_Propagation
  imports Admin Ban_Threads
begin

text \<open>
  The path of a ban through the system: administration service, in-memory store, in-process
  bus, ban checker. Calls of the service, one after the other, interleaved in any way with
  the goroutines of the bus and the operations of their calls of \<^verbatim>\<open>apply\<close>, leave the checker in
  agreement with the store on every tenant without a lost update of \<^verbatim>\<open>apply\<close>; two calls of the
  service at the same time need not, since the write to the store and the time stamp of the
  event are separate steps of \<^verbatim>\<open>transition\<close>.
\<close>

type_synonym system = "(mem_state, BanChecker MemoryEventBus) admin_state \<times> checker_state"

abbreviation memory_service :: "addr option \<Rightarrow> (mem_state, BanChecker, BanChecker MemoryEventBus) Service" where
  "memory_service q \<equiv> NewAdminService MemoryStore_AdminStore MemoryEventBus_EventBus [WithPublishRetryQueue q]"

text \<open>A call of the service, a goroutine of the bus that starts, an operation of a call of \<^verbatim>\<open>apply\<close>.\<close>

datatype system_action = Transition TenantID State | Begin nat | Operate nat

fun system_step :: "addr option \<Rightarrow> system_action \<Rightarrow> system \<Rightarrow> system" where
  "system_step q (Transition i st) (a, c) =
     (snd (Service_transition (memory_service q) Background i st a), c)"
| "system_step q (Begin k) (a, c) =
     (let (b, c') = start_handler k (as_bus a, c) in (a\<lparr>as_bus := b\<rparr>, c'))"
| "system_step q (Operate k) (a, c) = (a, advance_apply k c)"

definition system_run :: "addr option \<Rightarrow> system_action list \<Rightarrow> system \<Rightarrow> system" where
  "system_run q acts s = fold (system_step q) acts s"

section \<open>Sequential calls\<close>

lemma transition_memory:
  assumes "ms_inv (as_store a)" and "ms_view (as_store a) i = Some t"
  shows "\<exists>a'. Service_transition (memory_service q) ctx i st a = (Inr (Inr ()), a') \<and> ms_inv (as_store a') \<and>
    ms_view (as_store a') = (ms_view (as_store a))(i \<mapsto> t\<lparr>tState := st\<rparr>) \<and>
    as_clock a' = (\<lambda>n. as_clock a (Suc n)) \<and>
    as_bus a' = snd (MemoryEventBus_Publish Background (transition_event i st a) (as_bus a))"
proof -
  obtain r a' where run: "Service_transition (memory_service q) ctx i st a = (r, a')" by fastforce
  let ?b = "snd (MemoryEventBus_Publish Background (transition_event i st a) (as_bus a))"
  have pub: "EventBus_Publish (svc_bus (memory_service q)) ctx (transition_event i st a) (as_bus a) = (Inr (), ?b)"
    by (simp add: MemoryEventBus_EventBus_def MemoryEventBus_Publish_def)
  from mem_admin.transition_known [OF assms(1,2) run pub]
  have eff: "ms_inv (as_store a')" "ms_view (as_store a') = (ms_view (as_store a))(i \<mapsto> t\<lparr>tState := st\<rparr>)"
    "as_bus a' = ?b" "r = Inr (Inr ())" by (simp_all add: published_effect_def)
  have "as_clock a' = (\<lambda>n. as_clock a (Suc n))"
    using run pub eff(4) by (auto simp: Service_transition_def transition_publish_def transition_event_def
      time_Now_def split: prod.splits sum.splits)
  with run eff show ?thesis by blast
qed

text \<open>
  The events published so far explain the store: the state of a tenant with events is that
  of its newest event, and a tenant without events is as it was.
\<close>

definition explains :: "mem_state \<Rightarrow> TenantEvent list \<Rightarrow> mem_state \<Rightarrow> TenantID \<Rightarrow> bool" where
  "explains s0 es s i \<longleftrightarrow>
     (if \<exists>e \<in> set es. ev_TenantID e = i
      then \<exists>e \<in> set es. ev_TenantID e = i \<and>
        (\<forall>e' \<in> set es. ev_TenantID e' = i \<longrightarrow> e' = e \<or> ev_Timestamp e' < ev_Timestamp e) \<and>
        (\<exists>t. ms_view s i = Some t \<and> tState t = ev_State e)
      else ms_view s i = ms_view s0 i)"

definition run_inv :: "mem_state \<Rightarrow> TenantEvent list \<Rightarrow> (mem_state, 'b) admin_state \<Rightarrow> bool" where
  "run_inv s0 es a \<longleftrightarrow> ms_inv (as_store a) \<and> strict_mono (as_clock a) \<and>
     (\<forall>e \<in> set es. ev_Timestamp e < as_clock a 0) \<and> (\<forall>i. explains s0 es (as_store a) i)"

lemma run_inv_publish:
  assumes "run_inv s0 es a" and "ms_view (as_store a) i = Some t" and "ms_inv (as_store a')"
    and "ms_view (as_store a') = (ms_view (as_store a))(i \<mapsto> t\<lparr>tState := st\<rparr>)"
    and "as_clock a' = (\<lambda>n. as_clock a (Suc n))"
  shows "run_inv s0 (es @ [transition_event i st a]) a'"
proof -
  let ?e = "transition_event i st a"
  from assms(1) have mono: "strict_mono (as_clock a)" and old: "\<forall>e \<in> set es. ev_Timestamp e < as_clock a 0"
    and ex: "\<And>j. explains s0 es (as_store a) j" by (auto simp: run_inv_def)
  have later: "as_clock a 0 < as_clock a' 0" using mono by (simp add: assms(5) strict_monoD)
  have "strict_mono (as_clock a')" using mono by (simp add: assms(5) strict_mono_def)
  moreover have "\<forall>e \<in> set (es @ [?e]). ev_Timestamp e < as_clock a' 0"
    using old later by (auto simp: transition_event_def)
  moreover have "explains s0 (es @ [?e]) (as_store a') j" for j
  proof (cases "j = i")
    case True
    then show ?thesis using old by (auto simp: explains_def assms(4) transition_event_def)
  next
    case False
    then show ?thesis using ex [of j] by (auto simp: explains_def assms(4) transition_event_def)
  qed
  ultimately show ?thesis using assms(3) by (simp add: run_inv_def)
qed

text \<open>One action keeps both invariants: of the store, and of what the checker was told.\<close>

lemma system_step_inv:
  assumes inv: "run_inv m es a" "checked_inv es (as_bus a, c)" and step: "system_step q x (a, c) = (a', c')"
  shows "\<exists>es'. run_inv m es' a' \<and> checked_inv es' (as_bus a', c')"
proof (cases x)
  case (Transition i st)
  from inv have store: "ms_inv (as_store a)" by (simp add: run_inv_def)
  show ?thesis
  proof (cases "ms_view (as_store a) i")
    case None
    from mem_admin.transition_unknown [OF store None, of MemoryEventBus_EventBus q Background st] inv step Transition
    show ?thesis by auto
  next
    case (Some t)
    from transition_memory [OF store Some, of q Background st] step Transition have
      a': "ms_inv (as_store a')" "ms_view (as_store a') = (ms_view (as_store a))(i \<mapsto> t\<lparr>tState := st\<rparr>)"
        "as_clock a' = (\<lambda>n. as_clock a (Suc n))"
      and bus: "as_bus a' = snd (MemoryEventBus_Publish Background (transition_event i st a) (as_bus a))"
      and c': "c' = c" by auto
    from run_inv_publish [OF inv(1) Some a'] checked_inv_publish [OF inv(2)] show ?thesis unfolding bus c' by blast
  qed
next
  case (Begin k)
  obtain b2 where start: "start_handler k (as_bus a, c) = (b2, c')" and a': "a' = a\<lparr>as_bus := b2\<rparr>"
    using step Begin by (auto split: prod.splits)
  from checked_inv_start [OF inv(2), of k] inv(1) show ?thesis
    by (intro exI [of _ es]) (simp add: start a' run_inv_def)
next
  case (Operate k)
  with step inv checked_inv_advance show ?thesis by auto
qed

lemma system_run_inv:
  assumes "run_inv m es a" and "checked_inv es (as_bus a, c)" and "system_run q acts (a, c) = (a', c')"
  shows "\<exists>es'. run_inv m es' a' \<and> checked_inv es' (as_bus a', c')"
  using assms
proof (induction acts arbitrary: es a c)
  case (Cons x acts)
  obtain a1 c1 where step: "system_step q x (a, c) = (a1, c1)" by fastforce
  from system_step_inv [OF Cons.prems(1,2) step] obtain es1 where
    "run_inv m es1 a1" "checked_inv es1 (as_bus a1, c1)" by blast
  from Cons.IH [OF this] Cons.prems(3) step show ?case by (simp add: system_run_def)
qed (auto simp: system_run_def)

text \<open>When nothing is in flight, the two invariants together give agreement on a tenant.\<close>

lemma explained_agrees:
  assumes "explains s0 es s i" and "covers (set_option (bc_banned bc i)) (reports (set es) i)"
    and "\<forall>t. ms_view s0 i = Some t \<longrightarrow> tState t \<noteq> Banned"
  shows "BanChecker_IsBanned bc i \<longleftrightarrow> (\<exists>t. ms_view s i = Some t \<and> tState t = Banned)"
proof (cases "\<exists>e \<in> set es. ev_TenantID e = i")
  case True
  with assms(1) obtain f t where f: "f \<in> set es" "ev_TenantID f = i"
    "\<forall>e' \<in> set es. ev_TenantID e' = i \<longrightarrow> e' = f \<or> ev_Timestamp e' < ev_Timestamp f"
    "ms_view s i = Some t" "tState t = ev_State f" by (auto simp: explains_def)
  then have "newest (report f) (reports (set es) i)" by (auto simp: newest_def reports_def report_def)
  from covers_newest [OF assms(2) this] have "bc_banned bc i = Some (report f)" by (auto simp: newest_def)
  with f(4,5) show ?thesis by (simp add: BanChecker_IsBanned_def report_def)
next
  case False
  then have "reports (set es) i = {}" by (auto simp: reports_def)
  with assms(2) have "bc_banned bc i = None" by (cases "bc_banned bc i") (auto simp: covers_def)
  with False assms(1,3) show ?thesis by (auto simp: explains_def BanChecker_IsBanned_def)
qed

text \<open>
  C3. A ban reaches the ban checker. Start with no tenant banned, a new ban checker on the
  in-process bus and a clock whose readings strictly increase. Administrative calls (ban,
  disable, activate, for known and unknown tenants) are made one after the other; the
  goroutines that deliver their events start in any order, and the \<^verbatim>\<open>Load\<close> and the \<^verbatim>\<open>Store\<close> of their
  calls of \<^verbatim>\<open>apply\<close> are interleaved in any way with each other and with the calls. Once all
  goroutines have returned, the checker reports a tenant as banned exactly when the store
  holds it in state banned, provided no call of \<^verbatim>\<open>apply\<close> for that tenant stored over an entry
  that another one had written since its own \<^verbatim>\<open>Load\<close>.
\<close>

theorem ban_checker_agrees_with_store:
  assumes "ms_inv (as_store a)" and "\<forall>i t. ms_view (as_store a) i = Some t \<longrightarrow> tState t \<noteq> Banned"
    and "BanChecker_New MemoryEventBus_EventBus NewMemoryEventBus = (bc, as_bus a)"
    and "strict_mono (as_clock a)"
    and "system_run q acts (a, idle_checker bc) = (a', c')" and "started (as_bus a') = []" and "finished c'"
    and "i \<notin> ck_raced c'"
  shows "BanChecker_IsBanned (ck_checker c') i \<longleftrightarrow> (\<exists>t. ms_view (as_store a') i = Some t \<and> tState t = Banned)"
proof -
  have inv: "run_inv (as_store a) [] a" using assms(1,4) by (simp add: run_inv_def explains_def)
  from assms(3) have "checked_inv [] (as_bus a, idle_checker bc)" using checked_inv_new by (auto simp: New_on_memory_bus)
  from system_run_inv [OF inv this assms(5)] obtain es where
    es: "run_inv (as_store a) es a'" "checked_inv es (as_bus a', c')" by blast
  then have "covers (set_option (bc_banned (ck_checker c') i)) (reports (set es) i)"
    using assms(6-8) by (simp add: checked_inv_def facts_finished)
  moreover have "explains (as_store a) es (as_store a') i" using es(1) by (simp add: run_inv_def)
  ultimately show ?thesis using explained_agrees assms(2) by blast
qed

definition demo_system :: "(mem_state, BanChecker MemoryEventBus) admin_state" where
  "demo_system = \<lparr>as_store = demo_store, as_bus = ban_bus, as_queues = (\<lambda>_. NewPublishRetryQueue),
     as_clock = (\<lambda>n. Time (int n)), as_log = []\<rparr>"

lemma demo_system_fresh:
  "ms_inv (as_store demo_system)"
  "\<forall>i t. ms_view (as_store demo_system) i = Some t \<longrightarrow> tState t \<noteq> Banned"
  "BanChecker_New MemoryEventBus_EventBus NewMemoryEventBus = (\<lparr>bc_banned = Map.empty\<rparr>, as_bus demo_system)"
  "strict_mono (as_clock demo_system)"
  using demo_store_inv New_on_memory_bus
  by (auto simp: demo_system_def ms_view_def demo_store_def demo_heap_def deref_def strict_mono_def
    less_Time_def split: if_splits)

lemmas run_simps = Service_transition_def transition_publish_def MemoryStore_SetState_def
  MemoryStore_AdminStore_def MemoryEventBus_EventBus_def MemoryEventBus_Publish_def time_Now_def
  NewAdminService_def WithPublishRetryQueue_def start_handler_def ban_bus_def
  checker_defs outdated_def delete_at_def demo_system_def demo_store_def demo_heap_def

text \<open>The goroutine of the ban runs first, and between its two operations the other one starts.\<close>

definition demo_actions :: "system_action list" where
  "demo_actions = [Transition ''acme'' Disabled, Transition ''acme'' Banned, Begin 1, Operate 0, Begin 0, Operate 0,
     Operate 1, Operate 1]"

theorem ban_checker_agrees_with_store_witness:
  "let (a', c') = system_run None demo_actions (demo_system, idle_checker \<lparr>bc_banned = Map.empty\<rparr>)
   in started (as_bus a') = [] \<and> finished c' \<and> ck_raced c' = {} \<and> BanChecker_IsBanned (ck_checker c') ''acme''"
proof -
  obtain a' c' where run: "system_run None demo_actions (demo_system, idle_checker \<lparr>bc_banned = Map.empty\<rparr>) = (a', c')"
    by fastforce
  then have idle: "started (as_bus a') = []" "finished c'" "ck_raced c' = {}"
    and "ms_tenants (mstore (as_store a')) = [''acme'' \<mapsto> 0]"
    and "sState (structs (heap (as_store a')) 0) = Banned"
    by (auto simp: system_run_def demo_actions_def run_simps write_State_def)
  with ban_checker_agrees_with_store [OF demo_system_fresh run idle(1,2), of "''acme''"] run show ?thesis
    by (simp add: ms_view_def deref_def)
qed

section \<open>Concurrent calls\<close>

text \<open>
  A call in progress has written the store and not yet stamped its event. Calls made one at
  a time are the calls of the previous section.
\<close>

datatype race_action = Write TenantID State | Stamp nat | Dispatch nat | Progress nat

fun race_step :: "addr option \<Rightarrow> race_action \<Rightarrow> system \<times> (TenantID \<times> State) list \<Rightarrow> system \<times> (TenantID \<times> State) list" where
  "race_step q (Write i st) ((a, c), calls) =
     (case MemoryStore_SetState Background i st (as_store a) of
        (Inl err, s) \<Rightarrow> ((a\<lparr>as_store := s\<rparr>, c), calls)
      | (Inr _, s) \<Rightarrow> ((a\<lparr>as_store := s\<rparr>, c), calls @ [(i, st)]))"
| "race_step q (Stamp k) ((a, c), calls) =
     (if k < length calls
      then ((snd (transition_publish (memory_service q) Background (fst (calls ! k)) (snd (calls ! k)) a), c),
            delete_at k calls)
      else ((a, c), calls))"
| "race_step q (Dispatch k) (s, calls) = (system_step q (Begin k) s, calls)"
| "race_step q (Progress k) (s, calls) = (system_step q (Operate k) s, calls)"

lemma race_sequential:
  "fst (race_step q (Stamp 0) (race_step q (Write i st) (s, []))) = system_step q (Transition i st) s"
proof (cases s)
  case (Pair a c)
  then show ?thesis
    by (cases "MemoryStore_SetState Background i st (as_store a)")
      (auto simp: Service_transition_def NewAdminService_def WithPublishRetryQueue_def
        MemoryStore_AdminStore_def split: sum.split)
qed

text \<open>
  C31. Two calls at the same time can leave the ban checker in disagreement with the store for
  good. One call activates a tenant, the other bans it; the activation writes first, so the
  store ends with the tenant banned, but it stamps its event last. With a clock whose
  readings increase, after both calls have returned and every event has been delivered, without
  any lost update of \<^verbatim>\<open>apply\<close>, the store holds the tenant as banned and the checker reports it
  as not banned.
\<close>

theorem concurrent_transitions_diverge:
  "\<exists>acts a c. fold (race_step None) acts ((demo_system, idle_checker \<lparr>bc_banned = Map.empty\<rparr>), []) = ((a, c), []) \<and>
     strict_mono (as_clock demo_system) \<and> started (as_bus a) = [] \<and> finished c \<and> ck_raced c = {} \<and>
     map_option tState (ms_view (as_store a) ''acme'') = Some Banned \<and> \<not> BanChecker_IsBanned (ck_checker c) ''acme''"
proof -
  let ?acts = "[Write ''acme'' Active, Write ''acme'' Banned, Stamp 1, Stamp 0, Dispatch 0, Progress 0, Progress 0,
    Dispatch 0, Progress 1, Progress 1]"
  obtain a c calls where run: "fold (race_step None) ?acts ((demo_system, idle_checker \<lparr>bc_banned = Map.empty\<rparr>), []) = ((a, c), calls)"
    by (metis surj_pair)
  then have "calls = []" and "started (as_bus a) = []" and "ms_tenants (mstore (as_store a)) = [''acme'' \<mapsto> 0]"
    and "sState (structs (heap (as_store a)) 0) = Banned" and "\<not> BanChecker_IsBanned (ck_checker c) ''acme''"
    and "finished c" and "ck_raced c = {}"
    by (auto simp: run_simps write_State_def BanChecker_IsBanned_def less_Time_def)
  with run demo_system_fresh(4) show ?thesis
    by (intro exI [of _ ?acts] exI [of _ a] exI [of _ c]) (simp add: ms_view_def deref_def)
qed

end
