(* ===== verification/Ban_Startup.thy ===== *)
theory Ban_Startup
  imports Ban_Propagation
begin

text \<open>
  The start of an instance while the system is in use: a ban checker subscribes
  (\<^verbatim>\<open>New\<close>), then reads the state of the listed tenants from the store
  (\<^verbatim>\<open>LoadInitialBannedList\<close>, both of \<^verbatim>\<open>src/banchecker/banchecker.go\<close>), while the
  administration service writes, stamps and publishes (\<^verbatim>\<open>transition\<close> of
  \<^verbatim>\<open>src/admin/admin.go\<close>) and the goroutines of the bus deliver. The step relation interleaves
  all of these, with the \<^verbatim>\<open>Load\<close> and the \<^verbatim>\<open>Store\<close> of every \<^verbatim>\<open>apply\<close>, the loop's own included, as
  separate steps; the service is used by one caller at a time. Shown: when the loading is done
  and nothing is in flight any more, the checker agrees with the store on every listed tenant
  without a lost update of \<^verbatim>\<open>apply\<close>, whatever the history of bans before.
\<close>

section \<open>The interleavings\<close>

text \<open>A call of \<^verbatim>\<open>transition\<close>: the store is written, or the event is stamped too.\<close>

datatype admin_call = Idle | Written TenantID State | Stamped TenantEvent

text \<open>
  The new instance: nothing done, subscribed, in the loop with the snapshot's time and the
  identifiers left, between the answer of the store and \<^verbatim>\<open>apply\<close>, inside \<^verbatim>\<open>apply\<close> as
  one of the checker's calls in progress, or back from \<^verbatim>\<open>LoadInitialBannedList\<close>.
\<close>

datatype startup =
    Unsubscribed
  | Subscribed
  | Loading Time "TenantID list"
  | Applying Time TenantID bool "TenantID list"
  | InApply Time nat "TenantID list"
  | LoadReturned "unit result"

record startup_system =
  su_store :: mem_state
  su_bus :: "BanChecker MemoryEventBus"
  su_clock :: Clock
  su_call :: admin_call
  su_checks :: checker_state
  su_phase :: startup

inductive startup_step :: "TenantID list \<Rightarrow> startup_system \<Rightarrow> startup_system \<Rightarrow> bool"
  for ids :: "TenantID list" where
  set_state: "su_call s = Idle \<Longrightarrow> MemoryStore_SetState ctx i st (su_store s) = (Inr u, m) \<Longrightarrow>
    startup_step ids s (s\<lparr>su_store := m, su_call := Written i st\<rparr>)"
| stamp: "su_call s = Written i st \<Longrightarrow> time_Now (su_clock s) = (now, c) \<Longrightarrow>
    startup_step ids s (s\<lparr>su_clock := c, su_call := Stamped \<lparr>ev_TenantID = i, ev_State = st, ev_Timestamp = now\<rparr>\<rparr>)"
| publish: "su_call s = Stamped e \<Longrightarrow> MemoryEventBus_Publish ctx e (su_bus s) = (r, b) \<Longrightarrow>
    startup_step ids s (s\<lparr>su_bus := b, su_call := Idle\<rparr>)"
| dispatch: "k < length (started (su_bus s)) \<Longrightarrow> start_handler k (su_bus s, su_checks s) = (b, c) \<Longrightarrow>
    startup_step ids s (s\<lparr>su_bus := b, su_checks := c\<rparr>)"
| operate: "k < length (ck_threads (su_checks s)) \<Longrightarrow>
    startup_step ids s (s\<lparr>su_checks := advance_apply k (su_checks s)\<rparr>)"
| new: "su_phase s = Unsubscribed \<Longrightarrow> BanChecker_New MemoryEventBus_EventBus (su_bus s) = (bc, b) \<Longrightarrow>
    startup_step ids s (s\<lparr>su_bus := b, su_checks := idle_checker bc, su_phase := Subscribed\<rparr>)"
| load: "su_phase s = Subscribed \<Longrightarrow> time_Now (su_clock s) = (at, c) \<Longrightarrow>
    startup_step ids s (s\<lparr>su_clock := c, su_phase := Loading at ids\<rparr>)"
| ask: "su_phase s = Loading at (i # is) \<Longrightarrow> MemoryStore_IsBanned ctx i (su_store s) = (Inr banned, m) \<Longrightarrow>
    startup_step ids s (s\<lparr>su_store := m, su_phase := Applying at i banned is\<rparr>)"
| ask_error: "su_phase s = Loading at (i # is) \<Longrightarrow> MemoryStore_IsBanned ctx i (su_store s) = (Inl err, m) \<Longrightarrow>
    startup_step ids s (s\<lparr>su_store := m, su_phase := LoadReturned (Inl err)\<rparr>)"
| apply_answer: "su_phase s = Applying at i banned is \<Longrightarrow>
    startup_step ids s (s\<lparr>su_checks := begin_apply i banned at (su_checks s),
      su_phase := InApply at (length (ck_threads (su_checks s))) is\<rparr>)"
| apply_returns: "su_phase s = InApply at k is \<Longrightarrow> k < length (ck_threads (su_checks s)) \<Longrightarrow>
    ck_threads (su_checks s) ! k = Returned \<Longrightarrow> startup_step ids s (s\<lparr>su_phase := Loading at is\<rparr>)"
| finish: "su_phase s = Loading at [] \<Longrightarrow> startup_step ids s (s\<lparr>su_phase := LoadReturned (Inr ())\<rparr>)"

abbreviation startup_steps :: "TenantID list \<Rightarrow> startup_system \<Rightarrow> startup_system \<Rightarrow> bool" where
  "startup_steps ids \<equiv> (startup_step ids)\<^sup>*\<^sup>*"

definition startup_begin :: "mem_state \<Rightarrow> Clock \<Rightarrow> startup_system" where
  "startup_begin m c = \<lparr>su_store = m, su_bus = NewMemoryEventBus, su_clock = c, su_call = Idle,
     su_checks = idle_checker \<lparr>bc_banned = Map.empty\<rparr>, su_phase = Unsubscribed\<rparr>"

text \<open>The three steps of a call are the service's \<^verbatim>\<open>transition\<close> on this store and bus.\<close>

lemma transition_in_steps:
  assumes "MemoryStore_SetState ctx i st (as_store a) = (Inr u, m)"
    and "time_Now (as_clock a) = (now, c)"
    and "MemoryEventBus_Publish ctx \<lparr>ev_TenantID = i, ev_State = st, ev_Timestamp = now\<rparr> (as_bus a) = (r, b)"
  shows "Service_transition (memory_service q) ctx i st a =
    (Inr (Inr ()), a\<lparr>as_store := m, as_clock := c, as_bus := b\<rparr>)"
  using assms
  by (auto simp: Service_transition_def transition_publish_def NewAdminService_def WithPublishRetryQueue_def
      MemoryStore_AdminStore_def MemoryEventBus_EventBus_def MemoryEventBus_Publish_def)

text \<open>The loop without interruption is the loop of \<^verbatim>\<open>LoadInitialBannedList\<close>.\<close>

lemma apply_in_steps:
  assumes "su_phase s = Applying at i banned is"
  shows "startup_steps ids s (s\<lparr>su_checks := (su_checks s)\<lparr>
      ck_checker := BanChecker_apply (ck_checker (su_checks s)) i banned at,
      ck_threads := ck_threads (su_checks s) @ [Returned]\<rparr>, su_phase := Loading at is\<rparr>)"
proof -
  let ?n = "length (ck_threads (su_checks s))"
  let ?s1 = "s\<lparr>su_checks := begin_apply i banned at (su_checks s), su_phase := InApply at ?n is\<rparr>"
  let ?s2 = "?s1\<lparr>su_checks := advance_apply ?n (su_checks ?s1)\<rparr>"
  let ?s3 = "?s2\<lparr>su_checks := advance_apply ?n (su_checks ?s2)\<rparr>"
  let ?s4 = "?s3\<lparr>su_phase := Loading at is\<rparr>"
  have len: "?n < length (ck_threads (su_checks ?s1))" "?n < length (ck_threads (su_checks ?s2))"
    by (simp_all add: checker_defs)
  have done_apply: "su_checks ?s3 = (su_checks s)\<lparr>ck_checker := BanChecker_apply (ck_checker (su_checks s)) i banned at,
      ck_threads := ck_threads (su_checks s) @ [Returned]\<rparr>"
    using apply_uninterrupted [of "su_checks s" i banned at] by simp
  have "startup_step ids s ?s1" using startup_step.apply_answer [OF assms] by simp
  moreover have "startup_step ids ?s1 ?s2" using startup_step.operate [OF len(1)] .
  moreover have "startup_step ids ?s2 ?s3" using startup_step.operate [OF len(2)] .
  moreover have "startup_step ids ?s3 ?s4"
    by (rule startup_step.apply_returns [where at = at and k = ?n]) (simp_all add: done_apply [simplified])
  ultimately have "startup_steps ids s ?s4" by (meson converse_rtranclp_into_rtranclp rtranclp.rtrancl_refl)
  moreover have "?s4 = s\<lparr>su_checks := su_checks ?s3, su_phase := Loading at is\<rparr>" by simp
  ultimately show ?thesis unfolding done_apply by simp
qed

lemma loading_uninterrupted:
  assumes "su_phase s = Loading at is"
    and "load_loop MemoryStore_Store ctx at is (ck_checker (su_checks s), su_store s) = (r, bc, m)"
  shows "\<exists>c. startup_steps ids s (s\<lparr>su_store := m, su_checks := c, su_phase := LoadReturned r\<rparr>) \<and>
    ck_checker c = bc \<and> ck_raced c = ck_raced (su_checks s)"
  using assms
proof (induction "is" arbitrary: s)
  case Nil
  from startup_step.finish [OF Nil(1), of ids] Nil(2) show ?case by (intro exI [of _ "su_checks s"]) auto
next
  case (Cons i "is")
  obtain x m1 where ask: "MemoryStore_IsBanned ctx i (su_store s) = (x, m1)" by fastforce
  show ?case
  proof (cases x)
    case (Inl err)
    with startup_step.ask_error [OF Cons.prems(1), of ctx err m1 ids] ask Cons.prems(2) show ?thesis
      by (intro exI [of _ "su_checks s"]) (cases s, auto simp: MemoryStore_Store_def)
  next
    case (Inr banned)
    let ?s1 = "s\<lparr>su_store := m1, su_phase := Applying at i banned is\<rparr>"
    let ?c = "(su_checks s)\<lparr>ck_checker := BanChecker_apply (ck_checker (su_checks s)) i banned at,
      ck_threads := ck_threads (su_checks s) @ [Returned]\<rparr>"
    let ?s2 = "?s1\<lparr>su_checks := ?c, su_phase := Loading at is\<rparr>"
    have "startup_step ids s ?s1" using startup_step.ask [OF Cons.prems(1), of ctx banned m1 ids] ask Inr by simp
    moreover have "startup_steps ids ?s1 ?s2" using apply_in_steps [of ?s1 at i banned "is" ids] by simp
    ultimately have two: "startup_steps ids s ?s2" by (rule converse_rtranclp_into_rtranclp)
    have "load_loop MemoryStore_Store ctx at is (ck_checker (su_checks ?s2), su_store ?s2) = (r, bc, m)"
      using Cons.prems(2) ask Inr by (simp add: MemoryStore_Store_def)
    from Cons.IH [OF _ this] obtain c where
      "startup_steps ids ?s2 (s\<lparr>su_store := m, su_checks := c, su_phase := LoadReturned r\<rparr>)"
      "ck_checker c = bc" "ck_raced c = ck_raced (su_checks s)" by auto
    with rtranclp_trans [OF two] show ?thesis by (intro exI [of _ c]) simp
  qed
qed


section \<open>What is known about a tenant, and what is on its way\<close>

fun call_events :: "admin_call \<Rightarrow> TenantEvent set" where
  "call_events (Stamped e) = {e}"
| "call_events c = {}"

fun answers :: "startup \<Rightarrow> TenantID \<Rightarrow> banEntry set" where
  "answers (Applying at j banned is) i = (if j = i then {\<lparr>be_banned = banned, be_updatedAt = at\<rparr>} else {})"
| "answers ph i = {}"

definition on_the_way :: "startup_system \<Rightarrow> TenantID \<Rightarrow> banEntry set" where
  "on_the_way s i =
     reports (snd ` set (started (su_bus s)) \<union> call_events (su_call s)) i \<union> answers (su_phase s) i"

definition info :: "startup_system \<Rightarrow> TenantID \<Rightarrow> banEntry set" where
  "info s i = facts (su_checks s) i \<union> on_the_way s i"

lemma newest_insert: "\<forall>y \<in> X. be_updatedAt y < be_updatedAt x \<Longrightarrow> newest x (insert x X)"
  by (auto simp: newest_def)

lemma newest_insert_same:
  assumes "newest x X" and "be_banned y = be_banned x"
  shows "newest x (insert y X) \<or> newest y (insert y X)"
proof (cases "be_updatedAt y" "be_updatedAt x" rule: linorder_cases)
  case less
  with assms(1) show ?thesis by (auto simp: newest_def)
next
  case equal
  with assms have "y = x" by (simp add: banEntry.equality)
  with assms(1) show ?thesis by (auto simp: newest_def)
next
  case greater
  with assms(1) have "\<forall>z \<in> X. be_updatedAt z < be_updatedAt y" by (auto simp: newest_def dest: less_trans)
  then show ?thesis by (simp add: newest_insert)
qed

definition store_flag :: "startup_system \<Rightarrow> TenantID \<Rightarrow> bool option" where
  "store_flag s i = map_option (\<lambda>t. tState t = Banned) (ms_view (su_store s) i)"

text \<open>The loop will still ask for the tenant, and everything known is older than the snapshot.\<close>

fun will_ask :: "TenantID list \<Rightarrow> startup \<Rightarrow> TenantID \<Rightarrow> banEntry set \<Rightarrow> bool" where
  "will_ask ids Subscribed i X \<longleftrightarrow> i \<in> set ids"
| "will_ask ids (Loading at is) i X \<longleftrightarrow> i \<in> set is \<and> (\<forall>x \<in> X. be_updatedAt x < at)"
| "will_ask ids (Applying at j b is) i X \<longleftrightarrow> i \<in> set is \<and> (\<forall>x \<in> X. be_updatedAt x < at)"
| "will_ask ids (InApply at k is) i X \<longleftrightarrow> i \<in> set is \<and> (\<forall>x \<in> X. be_updatedAt x < at)"
| "will_ask ids ph i X \<longleftrightarrow> False"

text \<open>
  A listed tenant is settled if a call is about to stamp a newer event, if the newest
  information is right, or if the loop will still ask and the answer will be the newest.
\<close>

definition settled :: "TenantID list \<Rightarrow> startup_system \<Rightarrow> TenantID \<Rightarrow> bool" where
  "settled ids s i \<longleftrightarrow> (\<exists>st. su_call s = Written i st) \<or>
     (\<exists>x. newest x (info s i) \<and> store_flag s i = Some (be_banned x)) \<or>
     will_ask ids (su_phase s) i (info s i)"

fun snapshot_times :: "startup \<Rightarrow> Time set" where
  "snapshot_times (Loading at is) = {at}"
| "snapshot_times (Applying at i b is) = {at}"
| "snapshot_times (InApply at k is) = {at}"
| "snapshot_times ph = {}"

definition times_ok :: "startup_system \<Rightarrow> bool" where
  "times_ok s \<longleftrightarrow> strict_mono (su_clock s) \<and> (\<forall>i. \<forall>x \<in> info s i. be_updatedAt x < su_clock s 0) \<and>
     (\<forall>at \<in> snapshot_times (su_phase s). at < su_clock s 0)"

fun call_written :: "admin_call \<Rightarrow> (TenantID \<rightharpoonup> Tenant) \<Rightarrow> bool" where
  "call_written Idle v \<longleftrightarrow> True"
| "call_written (Written i st) v \<longleftrightarrow> map_option tState (v i) = Some st"
| "call_written (Stamped e) v \<longleftrightarrow> map_option tState (v (ev_TenantID e)) = Some (ev_State e)"

definition call_ok :: "startup_system \<Rightarrow> bool" where
  "call_ok s \<longleftrightarrow> call_written (su_call s) (ms_view (su_store s))"

definition bus_ok :: "startup_system \<Rightarrow> bool" where
  "bus_ok s \<longleftrightarrow> fst ` set (started (su_bus s)) \<subseteq> {ban_handler} \<and>
     (if su_phase s = Unsubscribed
      then handlers (su_bus s) = [] \<and> started (su_bus s) = [] \<and> su_checks s = idle_checker \<lparr>bc_banned = Map.empty\<rparr>
      else handlers (su_bus s) = [ban_handler])"

definition startup_inv :: "TenantID list \<Rightarrow> startup_system \<Rightarrow> bool" where
  "startup_inv ids s \<longleftrightarrow> ms_inv (su_store s) \<and> times_ok s \<and> call_ok s \<and> bus_ok s \<and> tracks (su_checks s) \<and>
     (su_phase s \<noteq> Unsubscribed \<and> (\<forall>err. su_phase s \<noteq> LoadReturned (Inl err)) \<longrightarrow>
       (\<forall>i \<in> set ids. i \<notin> ck_raced (su_checks s) \<longrightarrow> settled ids s i))"

lemma startup_inv_begin:
  assumes "ms_inv m" and "strict_mono c"
  shows "startup_inv ids (startup_begin m c)"
  using assms
  by (simp add: startup_inv_def startup_begin_def times_ok_def call_ok_def bus_ok_def info_def on_the_way_def
      NewMemoryEventBus_def)


section \<open>The invariant\<close>

lemmas startup_defs = startup_inv_def times_ok_def call_ok_def bus_ok_def

lemma settled_cases [consumes 1, case_names call right ask]:
  assumes "settled ids s i"
  obtains st where "su_call s = Written i st"
    | x where "newest x (info s i)" and "store_flag s i = Some (be_banned x)"
    | "will_ask ids (su_phase s) i (info s i)"
  using assms by (auto simp: settled_def)

lemma will_ask_mono: "will_ask ids ph i X \<Longrightarrow> Y \<subseteq> X \<Longrightarrow> will_ask ids ph i Y"
  by (cases ph) auto

text \<open>A step that merely moves information keeps a tenant settled.\<close>

lemma settled_move:
  assumes "settled ids s i" and "su_call s' = su_call s \<or> (\<forall>st. su_call s \<noteq> Written i st)"
    and "store_flag s' i = store_flag s i" and "info s' i \<subseteq> info s i"
    and "\<And>x. newest x (info s i) \<Longrightarrow> newest x (info s' i)"
    and "will_ask ids (su_phase s) i (info s i) \<Longrightarrow> will_ask ids (su_phase s') i (info s i)"
  shows "settled ids s' i"
  using assms(1)
proof (cases rule: settled_cases)
  case (call st)
  with assms(2) show ?thesis by (auto simp: settled_def)
next
  case (right x)
  with assms(3,5) show ?thesis by (auto simp: settled_def)
next
  case ask
  with assms(4,6) will_ask_mono show ?thesis by (auto simp: settled_def)
qed

lemma clock_tick:
  assumes "strict_mono (clk :: Clock)" and "time_Now clk = (now, c)"
  shows "now = clk 0" and "strict_mono c" and "now < c 0" and "t < clk 0 \<Longrightarrow> t < c 0"
proof -
  from assms(2) show now: "now = clk 0" by (simp add: time_Now_def)
  from assms(2) have c: "c = (\<lambda>n. clk (Suc n))" by (auto simp: time_Now_def)
  from assms(1) c show "strict_mono c" by (simp add: strict_mono_def)
  from assms(1) show later: "now < c 0" by (simp add: now c strict_mono_def)
  show "t < clk 0 \<Longrightarrow> t < c 0" using later now by simp
qed

lemma startup_inv_set_state:
  assumes "startup_inv ids s" and "su_call s = Idle"
    and "MemoryStore_SetState ctx i st (su_store s) = (Inr u, m)"
  shows "startup_inv ids (s\<lparr>su_store := m, su_call := Written i st\<rparr>)"
proof -
  let ?s = "s\<lparr>su_store := m, su_call := Written i st\<rparr>"
  from assms(1) have inv: "ms_inv (su_store s)" by (simp add: startup_inv_def)
  from ms_setState_correct [OF inv assms(3)] obtain t where m: "ms_inv m"
    and view: "ms_view (su_store s) i = Some t" "ms_view m = (ms_view (su_store s))(i \<mapsto> t\<lparr>tState := st\<rparr>)"
    by (auto split: option.splits)
  have info: "info ?s j = info s j" for j using assms(2) by (simp add: info_def on_the_way_def)
  have "settled ids ?s j" if "settled ids s j" for j
  proof (cases "j = i")
    case True
    then show ?thesis by (simp add: settled_def)
  next
    case False
    from that show ?thesis
      by (rule settled_move) (simp_all add: assms(2) info False store_flag_def view)
  qed
  with assms(1,2) m view info show ?thesis by (auto simp: startup_defs)
qed

lemma startup_inv_stamp:
  assumes "startup_inv ids s" and "su_call s = Written i st" and "time_Now (su_clock s) = (now, c)"
  shows "startup_inv ids (s\<lparr>su_clock := c, su_call := Stamped \<lparr>ev_TenantID = i, ev_State = st, ev_Timestamp = now\<rparr>\<rparr>)"
    (is "startup_inv ids ?s")
proof -
  let ?x = "\<lparr>be_banned = (st = Banned), be_updatedAt = now\<rparr>"
  from assms(1) have times: "times_ok s" and call: "map_option tState (ms_view (su_store s) i) = Some st"
    using assms(2) by (auto simp: startup_inv_def call_ok_def)
  note tick = clock_tick [OF _ assms(3)]
  from times tick have now: "now = su_clock s 0" by (simp add: times_ok_def)
  have info: "info ?s j = (if j = i then insert ?x (info s j) else info s j)" for j
  proof -
    have "report \<lparr>ev_TenantID = i, ev_State = st, ev_Timestamp = now\<rparr> = ?x" by (simp add: report_def)
    then show ?thesis using assms(2) by (simp add: info_def on_the_way_def)
  qed
  have "settled ids ?s j" if "settled ids s j" for j
  proof (cases "j = i")
    case True
    have "\<forall>y \<in> info s i. be_updatedAt y < be_updatedAt ?x" using times now by (simp add: times_ok_def)
    then have "newest ?x (info ?s i)" unfolding info by (simp add: newest_insert)
    moreover have "store_flag ?s i = Some (st = Banned)" using call by (auto simp: store_flag_def)
    ultimately show ?thesis using True by (auto simp: settled_def)
  next
    case False
    with that assms(2) show ?thesis
      by (intro settled_move [OF that]) (simp_all add: info store_flag_def)
  qed
  moreover have "times_ok ?s"
    using times tick unfolding times_ok_def info by (auto split: if_splits)
  ultimately show ?thesis using assms(1) call by (auto simp: startup_inv_def call_ok_def bus_ok_def)
qed

lemma startup_inv_publish:
  assumes "startup_inv ids s" and "su_call s = Stamped e" and "MemoryEventBus_Publish ctx e (su_bus s) = (r, b)"
  shows "startup_inv ids (s\<lparr>su_bus := b, su_call := Idle\<rparr>)" (is "startup_inv ids ?s")
proof (cases "su_phase s = Unsubscribed")
  case True
  with assms(1,3) have "b = su_bus s" by (auto simp: startup_defs MemoryEventBus_Publish_def)
  then have "info ?s j \<subseteq> info s j" for j by (auto simp: info_def on_the_way_def)
  with assms(1) True \<open>b = su_bus s\<close> show ?thesis by (auto simp: startup_defs)
next
  case False
  with assms(1,3) have b: "b = (su_bus s)\<lparr>started := started (su_bus s) @ [(ban_handler, e)]\<rparr>"
    by (auto simp: startup_defs MemoryEventBus_Publish_def)
  have info: "info ?s j = info s j" for j
    using assms(2) by (auto simp: info_def on_the_way_def b)
  have "settled ids ?s j" if "settled ids s j" for j
    using that by (rule settled_move) (simp_all add: info assms(2) store_flag_def)
  with assms(1) False info show ?thesis unfolding startup_defs by (auto simp: b)
qed


text \<open>
  A goroutine of the bus that starts, and the loop's call of \<^verbatim>\<open>apply\<close>, move information into a call
  in progress; an operation of such a call moves it into the checker, or finds it outdated.
\<close>

lemma startup_inv_move:
  assumes inv: "startup_inv ids s"
    and store: "su_store s' = su_store s" "su_clock s' = su_clock s" "su_call s' = su_call s"
    and info: "\<And>j. info s' j \<subseteq> info s j" "\<And>j. j \<notin> ck_raced (su_checks s') \<Longrightarrow> covers (info s' j) (info s j)"
    and checks: "tracks (su_checks s')" "ck_raced (su_checks s) \<subseteq> ck_raced (su_checks s')"
    and bus: "bus_ok s'" and phase: "\<And>j X. will_ask ids (su_phase s) j X \<Longrightarrow> will_ask ids (su_phase s') j X"
      "snapshot_times (su_phase s') = snapshot_times (su_phase s)"
      "su_phase s = Unsubscribed \<Longrightarrow> su_phase s' = Unsubscribed"
      "\<And>err. su_phase s = LoadReturned (Inl err) \<Longrightarrow> su_phase s' = LoadReturned (Inl err)"
  shows "startup_inv ids s'"
proof -
  have "settled ids s' j" if "settled ids s j" "j \<notin> ck_raced (su_checks s')" for j
    using that(1)
    by (rule settled_move) (use that(2) info(2) covers_newest in \<open>auto simp: store store_flag_def info(1) phase(1)\<close>)
  moreover have "su_phase s \<noteq> LoadReturned (Inl err)" if "su_phase s' \<noteq> LoadReturned (Inl err)" for err
    using phase(4) that by auto
  ultimately show ?thesis
    using inv bus checks phase(2,3) info(1) unfolding startup_inv_def times_ok_def call_ok_def store by blast
qed

lemma startup_inv_dispatch:
  assumes inv: "startup_inv ids s" and "k < length (started (su_bus s))"
    and "start_handler k (su_bus s, su_checks s) = (b, c)"
  shows "startup_inv ids (s\<lparr>su_bus := b, su_checks := c\<rparr>)" (is "startup_inv ids ?s")
proof -
  let ?c = "started (su_bus s) ! k"
  from assms(2,3) have b: "b = (su_bus s)\<lparr>started := delete_at k (started (su_bus s))\<rparr>"
    and c: "c = begin_handleEvent (snd ?c) (su_checks s)" by (auto simp: start_handler_def)
  note set = set_delete_at [OF assms(2)]
  have info: "info ?s j = info s j" for j
    unfolding info_def on_the_way_def using set by (auto simp: b c reports_def)
  from inv have bus: "bus_ok s" by (simp add: startup_inv_def)
  then have sub: "su_phase s \<noteq> Unsubscribed" using assms(2) by (auto simp: bus_ok_def)
  have "bus_ok ?s" using bus sub set by (auto simp: bus_ok_def b)
  then show ?thesis
    using inv sub info by (intro startup_inv_move [of ids s ?s]) (simp_all add: c startup_inv_def)
qed

lemma startup_inv_operate:
  assumes inv: "startup_inv ids s"
  shows "startup_inv ids (s\<lparr>su_checks := advance_apply k (su_checks s)\<rparr>)" (is "startup_inv ids ?s")
proof (rule startup_inv_move [of ids s ?s])
  from inv have tracks: "tracks (su_checks s)" by (simp add: startup_inv_def)
  then show "tracks (su_checks ?s)" by (simp add: advance_tracks)
  show "info ?s j \<subseteq> info s j" for j
    using advance_facts_subset by (fastforce simp: info_def on_the_way_def)
  show "covers (info ?s j) (info s j)" if "j \<notin> ck_raced (su_checks ?s)" for j
    using covers_union [OF advance_covers [OF tracks] covers_refl, of j k] that
    by (simp add: info_def on_the_way_def)
  show "bus_ok ?s"
    using inv by (simp add: startup_inv_def bus_ok_def idle_checker_def)
qed (simp_all add: inv raced_mono)

lemma startup_inv_apply_answer:
  assumes inv: "startup_inv ids s" and ph: "su_phase s = Applying at i banned is"
  shows "startup_inv ids (s\<lparr>su_checks := begin_apply i banned at (su_checks s),
    su_phase := InApply at (length (ck_threads (su_checks s))) is\<rparr>)" (is "startup_inv ids ?s")
proof -
  have "info ?s j = info s j" for j by (auto simp: info_def on_the_way_def ph)
  with inv ph show ?thesis
    by (intro startup_inv_move [of ids s ?s]) (simp_all add: startup_inv_def bus_ok_def)
qed

lemma startup_inv_apply_returns:
  assumes inv: "startup_inv ids s" and ph: "su_phase s = InApply at k is"
  shows "startup_inv ids (s\<lparr>su_phase := Loading at is\<rparr>)" (is "startup_inv ids ?s")
proof -
  have "info ?s j = info s j" for j by (simp add: info_def on_the_way_def ph)
  with inv ph show ?thesis
    by (intro startup_inv_move [of ids s ?s]) (simp_all add: startup_inv_def bus_ok_def)
qed

lemma startup_inv_new:
  assumes inv: "startup_inv ids s" and ph: "su_phase s = Unsubscribed"
    and "BanChecker_New MemoryEventBus_EventBus (su_bus s) = (bc, b)"
  shows "startup_inv ids (s\<lparr>su_bus := b, su_checks := idle_checker bc, su_phase := Subscribed\<rparr>)" (is "startup_inv ids ?s")
proof -
  from inv ph have idle: "handlers (su_bus s) = []" "started (su_bus s) = []"
    "su_checks s = idle_checker \<lparr>bc_banned = Map.empty\<rparr>"
    by (auto simp: startup_defs)
  then have "su_bus s = NewMemoryEventBus" by (simp add: NewMemoryEventBus_def)
  with assms(3) have new: "bc = \<lparr>bc_banned = Map.empty\<rparr>" "b = ban_bus" using New_on_memory_bus by auto
  have "info ?s j = info s j" for j by (simp add: info_def on_the_way_def new idle ph)
  with inv ph show ?thesis by (auto simp: startup_defs new ban_bus_def settled_def)
qed

lemma startup_inv_load:
  assumes inv: "startup_inv ids s" and ph: "su_phase s = Subscribed" and "time_Now (su_clock s) = (at, c)"
  shows "startup_inv ids (s\<lparr>su_clock := c, su_phase := Loading at ids\<rparr>)" (is "startup_inv ids ?s")
proof -
  note tick = clock_tick [OF _ assms(3)]
  have info: "info ?s j = info s j" for j by (simp add: info_def on_the_way_def ph)
  from inv have times: "times_ok s" by (simp add: startup_inv_def)
  with tick have "times_ok ?s" unfolding times_ok_def info by auto
  moreover have "settled ids ?s j" if "j \<in> set ids" for j
    using times tick(1) that unfolding settled_def info by (auto simp: times_ok_def)
  ultimately show ?thesis using inv ph by (auto simp: startup_inv_def call_ok_def bus_ok_def)
qed

lemma startup_inv_ask:
  assumes inv: "startup_inv ids s" and ph: "su_phase s = Loading at (i # is)"
    and "MemoryStore_IsBanned ctx i (su_store s) = (Inr banned, m)"
  shows "startup_inv ids (s\<lparr>su_store := m, su_phase := Applying at i banned is\<rparr>)"
proof -
  let ?s = "s\<lparr>su_phase := Applying at i banned is\<rparr>"
  from inv have "ms_inv (su_store s)" by (simp add: startup_inv_def)
  from assms(3) have m: "m = su_store s" and flag: "store_flag s i = Some banned"
    by (auto simp: MemoryStore_IsBanned_def store_flag_def ms_view_def deref_def split: option.splits)
  let ?x = "\<lparr>be_banned = banned, be_updatedAt = at\<rparr>"
  have info: "info ?s j = (if j = i then insert ?x (info s j) else info s j)" for j
    by (auto simp: info_def on_the_way_def ph)
  have "settled ids ?s j" if "settled ids s j" for j
  proof (cases "j = i")
    case False
    with that show ?thesis
      by (intro settled_move [OF that]) (auto simp: info ph store_flag_def)
  next
    case True
    from that show ?thesis
    proof (cases rule: settled_cases)
      case (call st)
      then show ?thesis by (simp add: settled_def)
    next
      case (right x)
      with True flag have "newest x (insert ?x (info s i)) \<or> newest ?x (insert ?x (info s i))"
        by (intro newest_insert_same) auto
      with right flag True show ?thesis by (auto simp: settled_def info store_flag_def)
    next
      case ask
      then have "newest ?x (insert ?x (info s i))" using True ph by (simp add: newest_insert)
      with flag True show ?thesis by (auto simp: settled_def info store_flag_def)
    qed
  qed
  moreover have "times_ok ?s"
    using inv ph unfolding startup_inv_def times_ok_def info by (auto split: if_splits)
  ultimately show ?thesis using inv ph m by (auto simp: startup_inv_def call_ok_def bus_ok_def)
qed

lemma startup_inv_step: "startup_step ids s s' \<Longrightarrow> startup_inv ids s \<Longrightarrow> startup_inv ids s'"
proof (induction rule: startup_step.induct)
  case (ask_error s at i "is" ctx err m)
  then have "m = su_store s" by (auto simp: MemoryStore_IsBanned_def split: option.splits)
  moreover have "info (s\<lparr>su_phase := LoadReturned (Inl err)\<rparr>) j = info s j" for j
    using ask_error by (simp add: info_def on_the_way_def)
  ultimately show ?case using ask_error by (auto simp: startup_defs)
next
  case (finish s at)
  let ?s = "s\<lparr>su_phase := LoadReturned (Inr ())\<rparr>"
  have info: "info ?s j = info s j" for j using finish by (simp add: info_def on_the_way_def)
  have "settled ids ?s j" if "settled ids s j" for j
    using that by (rule settled_move) (simp_all add: info store_flag_def finish)
  with finish info show ?case by (auto simp: startup_defs)
qed (blast intro: startup_inv_set_state startup_inv_stamp startup_inv_publish startup_inv_dispatch startup_inv_new
  startup_inv_load startup_inv_ask startup_inv_operate startup_inv_apply_answer startup_inv_apply_returns)+

lemma startup_inv_reachable:
  "startup_steps ids s s' \<Longrightarrow> startup_inv ids s \<Longrightarrow> startup_inv ids s'"
  by (induction rule: rtranclp_induct) (auto intro: startup_inv_step)


section \<open>Agreement after the start\<close>

text \<open>
  C8. An instance that starts while the system is in use misses no ban. A store in any state,
  with any tenants banned, and a clock whose readings strictly increase; the new ban checker
  subscribes and then loads the listed tenants, one by one, while administrative calls (one
  at a time) write, stamp and publish between any two of its steps, the bus's goroutines start
  in any order, and the \<^verbatim>\<open>Load\<close> and the \<^verbatim>\<open>Store\<close> of every call of \<^verbatim>\<open>apply\<close>, by these goroutines and by
  the loop, are interleaved with all of this. Once the loading has returned nil, no call is in
  progress, every event has been delivered and every goroutine has returned, the checker
  reports a listed tenant as banned exactly when the store holds it in state banned, provided
  no call of \<^verbatim>\<open>apply\<close> for that tenant stored over an entry that another one had written since its
  own \<^verbatim>\<open>Load\<close>.
\<close>

theorem startup_agrees_with_store:
  assumes "ms_inv m" and "strict_mono c" and "startup_steps ids (startup_begin m c) s"
    and "su_phase s = LoadReturned (Inr ())" and "su_call s = Idle" and "started (su_bus s) = []"
    and "finished (su_checks s)" and "i \<in> set ids" and "i \<notin> ck_raced (su_checks s)"
  shows "BanChecker_IsBanned (ck_checker (su_checks s)) i \<longleftrightarrow> (\<exists>t. ms_view (su_store s) i = Some t \<and> tState t = Banned)"
proof -
  have "startup_inv ids s"
    using startup_inv_reachable [OF assms(3) startup_inv_begin] assms(1,2) by blast
  with assms(4,8,9) have "settled ids s i" by (auto simp: startup_inv_def)
  then show ?thesis
  proof (cases rule: settled_cases)
    case (right x)
    have "info s i = set_option (bc_banned (ck_checker (su_checks s)) i)"
      using assms(4-7) by (simp add: info_def on_the_way_def facts_finished)
    with right(1) have "bc_banned (ck_checker (su_checks s)) i = Some x" by (auto simp: newest_def)
    with right(2) show ?thesis by (auto simp: BanChecker_IsBanned_def store_flag_def)
  qed (use assms(4,5) in auto)
qed

text \<open>
  A tenant that is banned between the answer of the store and its \<^verbatim>\<open>apply\<close>: the answer is stale
  when it is applied, and the event corrects it.
\<close>

definition ticks :: "int \<Rightarrow> Clock" where
  "ticks k n = Time (k + int n)"

definition startup_demo :: startup_system where
  "startup_demo = (startup_begin demo_store (ticks 0))
     \<lparr>su_store := snd (MemoryStore_SetState Background ''acme'' Banned demo_store), su_bus := ban_bus,
      su_clock := ticks 2, su_call := Idle,
      su_checks := \<lparr>ck_checker = \<lparr>bc_banned = [''acme'' \<mapsto> \<lparr>be_banned = True, be_updatedAt = Time 1\<rparr>]\<rparr>,
        ck_threads = [Returned, Returned], ck_raced = {}\<rparr>,
      su_phase := LoadReturned (Inr ())\<rparr>"

definition demo_checks :: "bool \<Rightarrow> int \<Rightarrow> apply_thread list \<Rightarrow> checker_state" where
  "demo_checks b t ths = \<lparr>ck_checker = \<lparr>bc_banned = [''acme'' \<mapsto> \<lparr>be_banned = b, be_updatedAt = Time t\<rparr>]\<rparr>,
     ck_threads = ths, ck_raced = {}\<rparr>"

definition startup_demo_applied :: startup_system where
  "startup_demo_applied = (startup_begin demo_store (ticks 1))
     \<lparr>su_store := snd (MemoryStore_SetState Background ''acme'' Banned demo_store), su_bus := ban_bus,
      su_call := Written ''acme'' Banned, su_checks := demo_checks False 0 [Returned], su_phase := Loading (Time 0) []\<rparr>"

lemma time_Now_ticks: "time_Now (ticks k) = (Time k, ticks (k + 1))"
  by (simp add: time_Now_def ticks_def fun_eq_iff)

lemmas startup_simps = startup_begin_def time_Now_ticks New_on_memory_bus checker_defs startup_demo_applied_def demo_checks_def

lemma startup_demo_first: "startup_steps [''acme''] (startup_begin demo_store (ticks 0)) startup_demo_applied"
proof -
  let ?ids = "[''acme'']" and ?m = "snd (MemoryStore_SetState Background ''acme'' Banned demo_store)"
  let ?s0 = "startup_begin demo_store (ticks 0)"
  let ?s1 = "?s0\<lparr>su_bus := ban_bus, su_phase := Subscribed\<rparr>"
  let ?s2 = "?s1\<lparr>su_clock := ticks 1, su_phase := Loading (Time 0) ?ids\<rparr>"
  let ?s3 = "?s2\<lparr>su_phase := Applying (Time 0) ''acme'' False []\<rparr>"
  let ?s4 = "?s3\<lparr>su_store := ?m, su_call := Written ''acme'' Banned\<rparr>"
  have "startup_step ?ids ?s0 ?s1"
    using startup_step.new [of ?s0 "\<lparr>bc_banned = Map.empty\<rparr>" ban_bus ?ids] by (simp add: startup_simps)
  moreover have "startup_step ?ids ?s1 ?s2"
    using startup_step.load [of ?s1 "Time 0" "ticks 1" ?ids] by (simp add: startup_simps)
  moreover have "startup_step ?ids ?s2 ?s3"
    using startup_step.ask [of ?s2 "Time 0" "''acme''" "[]" Background False demo_store ?ids]
    by (simp add: startup_simps MemoryStore_IsBanned_def demo_store_def demo_heap_def)
  moreover have "startup_step ?ids ?s3 ?s4"
    using startup_step.set_state [of ?s3 Background "''acme''" Banned "()" ?m ?ids]
    by (simp add: startup_simps MemoryStore_SetState_def demo_store_def)
  moreover have "startup_steps ?ids ?s4 startup_demo_applied"
    using apply_in_steps [of ?s4 "Time 0" "''acme''" False "[]" ?ids]
    by (simp add: startup_simps BanChecker_apply_def)
  ultimately show ?thesis by (simp add: converse_rtranclp_into_rtranclp)
qed

lemma startup_demo_run: "startup_steps [''acme''] (startup_begin demo_store (ticks 0)) startup_demo"
proof -
  let ?ids = "[''acme'']" and ?e = "\<lparr>ev_TenantID = ''acme'', ev_State = Banned, ev_Timestamp = Time 1\<rparr>"
  let ?v = "\<lparr>be_banned = False, be_updatedAt = Time 0\<rparr>"
  let ?s5 = startup_demo_applied
  let ?s6 = "?s5\<lparr>su_phase := LoadReturned (Inr ())\<rparr>"
  let ?s7 = "?s6\<lparr>su_clock := ticks 2, su_call := Stamped ?e\<rparr>"
  let ?s8 = "?s7\<lparr>su_bus := ban_bus\<lparr>started := [(ban_handler, ?e)]\<rparr>, su_call := Idle\<rparr>"
  let ?s9 = "?s8\<lparr>su_bus := ban_bus, su_checks := demo_checks False 0 [Returned, Starting ''acme'' True (Time 1)]\<rparr>"
  let ?at = "?s9\<lparr>su_checks := demo_checks False 0 [Returned, Loaded ''acme'' True (Time 1) (Some ?v)]\<rparr>"
  let ?bt = "?at\<lparr>su_checks := demo_checks True 1 [Returned, Returned]\<rparr>"
  have "startup_step ?ids ?s5 ?s6" using startup_step.finish [of ?s5 "Time 0" ?ids] by (simp add: startup_demo_applied_def)
  moreover have "startup_step ?ids ?s6 ?s7"
    using startup_step.stamp [of ?s6 "''acme''" Banned "Time 1" "ticks 2" ?ids] by (simp add: startup_simps)
  moreover have "startup_step ?ids ?s7 ?s8"
    using startup_step.publish [of ?s7 ?e Background "Inr ()" _ ?ids]
    by (simp add: startup_simps MemoryEventBus_Publish_def ban_bus_def)
  moreover have "startup_step ?ids ?s8 ?s9"
    using startup_step.dispatch [of 0 ?s8 ban_bus _ ?ids]
    by (simp add: startup_simps start_handler_def ban_bus_def delete_at_def)
  moreover have "startup_step ?ids ?s9 ?at"
    using startup_step.operate [of 1 ?s9 ?ids] by (simp add: startup_simps)
  moreover have "startup_step ?ids ?at ?bt"
    using startup_step.operate [of 1 ?at ?ids] by (simp add: startup_simps outdated_def less_Time_def)
  moreover have "?bt = startup_demo" by (simp add: startup_demo_def startup_simps)
  ultimately have "startup_steps ?ids ?s5 startup_demo" by (simp add: converse_rtranclp_into_rtranclp)
  with startup_demo_first show ?thesis by (rule rtranclp_trans)
qed

theorem startup_agrees_with_store_witness:
  "startup_steps [''acme''] (startup_begin demo_store (ticks 0)) startup_demo \<and>
     BanChecker_IsBanned (ck_checker (su_checks startup_demo)) ''acme''"
proof -
  have "strict_mono (ticks 0)" by (simp add: strict_mono_def less_Time_def ticks_def)
  from startup_agrees_with_store [OF demo_store_inv this startup_demo_run, of "''acme''"]
  show ?thesis using startup_demo_run
    by (simp add: startup_demo_def finished_def MemoryStore_SetState_def demo_store_def ms_view_def deref_def write_State_def)
qed

end
