(* ===== verification/Admin_Http.thy ===== *)
theory Admin_Http
  imports Admin
begin

text \<open>
  The REST API of the administration service (\<^verbatim>\<open>src/admin/http.go\<close>, \<^verbatim>\<open>src/admin/auth.go\<close>):
  three routes behind an optional authenticator, and the mapping of errors to statuses. The
  authenticator is code of the application, a function of the request here.
\<close>

section \<open>Handlers\<close>

record Principal =
  principal_ID :: string
  principal_Roles :: "string list"

type_synonym Authenticator = "Request \<Rightarrow> Principal result"

record ('s, 'w, 'b) HTTPHandler =
  hh_mux :: "('s, 'b) admin_state route list"
  hh_service :: "('s, 'w, 'b) Service"
  hh_authenticator :: "Authenticator option"

type_synonym ('s, 'w, 'b) HTTPHandlerOption = "('s, 'w, 'b) HTTPHandler \<Rightarrow> ('s, 'w, 'b) HTTPHandler"

definition WithAuthenticator :: "Authenticator option \<Rightarrow> ('s, 'w, 'b) HTTPHandlerOption" where
  "WithAuthenticator a h = h\<lparr>hh_authenticator := a\<rparr>"

definition writeError :: "go_error \<Rightarrow> Response" where
  "writeError err =
     (let status = (if errors_Is err ErrTenantNotFound then StatusNotFound
                    else if errors_Is err ErrTenantAlreadyExists then StatusConflict
                    else StatusInternalServerError)
      in json_response status [(''error'', JString (error_text err))])"

definition HTTPHandler_withAuth ::
  "('s, 'w, 'b) HTTPHandler \<Rightarrow> ('s, 'b) admin_state Handler \<Rightarrow> ('s, 'b) admin_state Handler" where
  "HTTPHandler_withAuth h nxt r a =
     (case hh_authenticator h of
        None \<Rightarrow> nxt r a
      | Some auth \<Rightarrow>
          (case auth r of
             Inl err \<Rightarrow> (Inr (json_response StatusUnauthorized [(''error'', JString ''unauthorized'')]), a)
           | Inr _ \<Rightarrow> nxt r a))"

text \<open>The three handlers differ in the operation of the service only.\<close>

definition answer :: "(panic + unit result) \<times> ('s, 'b) admin_state \<Rightarrow> (panic + Response) \<times> ('s, 'b) admin_state" where
  "answer x = (case x of
       (Inl p, a) \<Rightarrow> (Inl p, a)
     | (Inr (Inl err), a) \<Rightarrow> (Inr (writeError err), a)
     | (Inr (Inr _), a) \<Rightarrow> (Inr (empty_response StatusNoContent), a))"

definition HTTPHandler_handleBan :: "('s, 'w, 'b) HTTPHandler \<Rightarrow> ('s, 'b) admin_state Handler" where
  "HTTPHandler_handleBan h r a =
     answer (Service_Ban (hh_service h) (req_Context r) (Request_PathValue r ''id'') a)"

definition HTTPHandler_handleDisable :: "('s, 'w, 'b) HTTPHandler \<Rightarrow> ('s, 'b) admin_state Handler" where
  "HTTPHandler_handleDisable h r a =
     answer (Service_Disable (hh_service h) (req_Context r) (Request_PathValue r ''id'') a)"

definition HTTPHandler_handleActivate :: "('s, 'w, 'b) HTTPHandler \<Rightarrow> ('s, 'b) admin_state Handler" where
  "HTTPHandler_handleActivate h r a =
     answer (Service_Activate (hh_service h) (req_Context r) (Request_PathValue r ''id'') a)"

definition admin_route :: "string \<Rightarrow> 's Handler \<Rightarrow> 's route" where
  "admin_route verb handler = \<lparr>rt_method = Some ''PATCH'',
     rt_segments = [Lit ''tenants'', Wild ''id'', Lit verb], rt_subtree = False, rt_handler = handler\<rparr>"

definition NewHTTPHandler ::
  "('s, 'w, 'b) Service \<Rightarrow> ('s, 'w, 'b) HTTPHandlerOption list \<Rightarrow> ('s, 'w, 'b) HTTPHandler" where
  "NewHTTPHandler service opts =
     (let h = foldl (\<lambda>h opt. opt h) \<lparr>hh_mux = [], hh_service = service, hh_authenticator = None\<rparr> opts
      in h\<lparr>hh_mux :=
        [admin_route ''ban'' (HTTPHandler_withAuth h (HTTPHandler_handleBan h)),
         admin_route ''disable'' (HTTPHandler_withAuth h (HTTPHandler_handleDisable h)),
         admin_route ''activate'' (HTTPHandler_withAuth h (HTTPHandler_handleActivate h))]\<rparr>)"

definition HTTPHandler_ServeHTTP :: "('s, 'w, 'b) HTTPHandler \<Rightarrow> ('s, 'b) admin_state Handler" where
  "HTTPHandler_ServeHTTP h = ServeMux_ServeHTTP (hh_mux h)"

section \<open>Routing\<close>

definition admin_verbs :: "string \<rightharpoonup> State" where
  "admin_verbs = [''ban'' \<mapsto> Banned, ''disable'' \<mapsto> Disabled, ''activate'' \<mapsto> Active]"

definition is_admin_path :: "string list \<Rightarrow> bool" where
  "is_admin_path ps \<longleftrightarrow> (\<exists>i v. ps = [''tenants'', i, v] \<and> v \<in> dom admin_verbs)"

lemma match_admin_route:
  "match_segments [Lit ''tenants'', Wild ''id'', Lit verb] False ps =
     (if \<exists>i. ps = [''tenants'', i, verb] then Some [(''id'', ps ! 1)] else None)"
  by (cases ps rule: list.exhaust; cases "tl ps"; cases "tl (tl ps)"; cases "tl (tl (tl ps))") auto

text \<open>
  What the handler of the API does with every request: 404 for a foreign path, 405 for a
  foreign method, and otherwise the operation of the path behind the authenticator.
\<close>

definition admin_request :: "Authenticator option \<Rightarrow> ('s, 'w, 'b) Service \<Rightarrow> ('s, 'b) admin_state Handler" where
  "admin_request auth svc r a =
     (if \<not> is_admin_path (Path r) then (Inr (http_Error ''404 page not found'' StatusNotFound), a)
      else if Method r \<noteq> ''PATCH'' then (Inr (http_Error ''Method Not Allowed'' StatusMethodNotAllowed), a)
      else if \<exists>f e. auth = Some f \<and> f (r\<lparr>pathValues := [(''id'', Path r ! 1)]\<rparr>) = Inl e
      then (Inr (json_response StatusUnauthorized [(''error'', JString ''unauthorized'')]), a)
      else answer (Service_transition svc (req_Context r) (Path r ! 1) (the (admin_verbs (Path r ! 2))) a))"

lemmas serve_simps = HTTPHandler_ServeHTTP_def NewHTTPHandler_def WithAuthenticator_def
  ServeMux_ServeHTTP_def admin_route_def admin_request_def is_admin_path_def method_matches_def Let_def

lemmas handler_simps = HTTPHandler_withAuth_def HTTPHandler_handleBan_def
  HTTPHandler_handleDisable_def HTTPHandler_handleActivate_def

lemma ServeHTTP_admin_request:
  "HTTPHandler_ServeHTTP (NewHTTPHandler svc [WithAuthenticator auth]) r a = admin_request auth svc r a"
proof (cases "\<exists>i v. Path r = [''tenants'', i, v]")
  case False
  then have "\<And>i v. Path r \<noteq> [''tenants'', i, v]" by auto
  then show ?thesis
    by (simp add: serve_simps match_admin_route)
next
  case True
  then obtain i v where p: "Path r = [''tenants'', i, v]" by blast
  consider "v = ''ban''" | "v = ''disable''" | "v = ''activate''" | "v \<notin> dom admin_verbs"
    by (auto simp: admin_verbs_def)
  then show ?thesis
  proof cases
    case 4
    then have "v \<noteq> ''ban''" and "v \<noteq> ''disable''" and "v \<noteq> ''activate''" by (auto simp: admin_verbs_def)
    with 4 p show ?thesis by (simp add: serve_simps)
  qed (simp_all add: serve_simps handler_simps p admin_verbs_def Request_PathValue_def Service_defs
      split: option.split sum.split)
qed

section \<open>Properties of the API\<close>

text \<open>
  C16. The authenticator guards the whole API. A request that the configured authenticator
  rejects changes nothing (no write to the store, no event, no log line) and is answered
  with 401 on an administrative route, and with 404 or 405 elsewhere; it is never answered
  with 204.
\<close>

theorem admin_api_requires_authentication:
  assumes "\<forall>vs. \<exists>e. auth (r\<lparr>pathValues := vs\<rparr>) = Inl e"
  shows "\<exists>resp. HTTPHandler_ServeHTTP (NewHTTPHandler svc [WithAuthenticator (Some auth)]) r a = (Inr resp, a) \<and>
    Status resp = (if \<not> is_admin_path (Path r) then 404 else if Method r \<noteq> ''PATCH'' then 405 else 401)"
  using assms by (auto simp: ServeHTTP_admin_request admin_request_def json_response_def http_Error_def status_defs)

theorem admin_api_requires_authentication_witness:
  "let r = \<lparr>Method = ''PATCH'', Host = ''admin'', Path = [''tenants'', ''acme'', ''ban''],
       req_Context = Background, pathValues = []\<rparr>;
     svc = NewAdminService MemoryStore_AdminStore failing_EventBus []
   in \<exists>resp. HTTPHandler_ServeHTTP (NewHTTPHandler svc [WithAuthenticator (Some (\<lambda>r. Inl (ForeignErr ''no token'')))]) r
        demo_admin = (Inr resp, demo_admin) \<and> Status resp = 401"
proof -
  let ?r = "\<lparr>Method = ''PATCH'', Host = ''admin'', Path = [''tenants'', ''acme'', ''ban''],
      req_Context = Background, pathValues = []\<rparr>"
  have "\<forall>vs. \<exists>e. (\<lambda>r. Inl (ForeignErr ''no token'')) (?r\<lparr>pathValues := vs\<rparr>) = Inl e" by simp
  from admin_api_requires_authentication [where r = ?r and a = demo_admin and
      svc = "NewAdminService MemoryStore_AdminStore failing_EventBus []", OF this]
  show ?thesis by (simp add: is_admin_path_def admin_verbs_def Let_def)
qed

text \<open>
  What an administrative request does, on the in-memory store, once authenticated. An
  unknown tenant gives 404 and the message of the sentinel error, and changes nothing. For
  a known tenant the handler does not panic and the new state is always written; the answer
  is 204 without a body when the bus accepts the event, and when it does not, a status
  chosen by the bus's error: 500 for every error outside the store's contract.
\<close>

lemma admin_api_request_effect:
  assumes "ms_inv (as_store a)" and "\<forall>p. q = Some p \<longrightarrow> queue_inv (as_queues a p)"
    and "Method r = ''PATCH''" and "Path r = [''tenants'', i, v]" and "admin_verbs v = Some st"
    and "auth = None \<or> (\<exists>f u. auth = Some f \<and> f (r\<lparr>pathValues := [(''id'', i)]\<rparr>) = Inr u)"
    and "svc = NewAdminService MemoryStore_AdminStore bus [WithPublishRetryQueue q]"
    and "HTTPHandler_ServeHTTP (NewHTTPHandler svc [WithAuthenticator auth]) r a = (x, a')"
  shows "case ms_view (as_store a) i of
      None \<Rightarrow> a' = a \<and> x = Inr (json_response 404 [(''error'', JString ''tenant not found'')])
    | Some t \<Rightarrow> ms_view (as_store a') = (ms_view (as_store a))(i \<mapsto> t\<lparr>tState := st\<rparr>) \<and>
        (case fst (EventBus_Publish bus (req_Context r) (transition_event i st a) (as_bus a)) of
           Inr _ \<Rightarrow> x = Inr (empty_response 204)
         | Inl err \<Rightarrow> \<exists>resp. x = Inr resp \<and> Status resp =
             (if errors_Is err ErrTenantNotFound then 404
              else if errors_Is err ErrTenantAlreadyExists then 409 else 500))"
proof -
  have "is_admin_path (Path r)" using assms(4,5) by (auto simp: is_admin_path_def)
  moreover have "\<not> (\<exists>f e. auth = Some f \<and> f (r\<lparr>pathValues := [(''id'', i)]\<rparr>) = Inl e)"
    using assms(6) by auto
  ultimately have run: "answer (Service_transition svc (req_Context r) i st a) = (x, a')"
    using assms(3,4,5,8) by (auto simp: ServeHTTP_admin_request admin_request_def split: if_splits)
  show ?thesis
  proof (cases "ms_view (as_store a) i")
    case None
    with mem_admin.transition_unknown [OF assms(1) None, of bus q "req_Context r" st] run assms(7) show ?thesis
      by (simp add: answer_def writeError_def ErrTenantNotFound_def status_defs)
  next
    case (Some t)
    obtain outcome b where pub: "EventBus_Publish bus (req_Context r) (transition_event i st a) (as_bus a) = (outcome, b)"
      by fastforce
    obtain y a'' where tr: "Service_transition svc (req_Context r) i st a = (y, a'')" by fastforce
    from mem_admin.transition_known [OF assms(1) Some tr [unfolded assms(7)]] pub
    have view: "ms_view (as_store a'') = (ms_view (as_store a))(i \<mapsto> t\<lparr>tState := st\<rparr>)"
      and eff: "published_effect svc (transition_event i st a) outcome a y a''" by (simp_all add: assms(7))
    have "y = Inr (case outcome of Inl err \<Rightarrow> Inl err | Inr _ \<Rightarrow> Inr ())"
      using eff assms(2) by (cases outcome; cases q) (auto simp: published_effect_def assms(7))
    with run tr view Some pub show ?thesis
      by (cases outcome) (auto simp: answer_def writeError_def json_response_def status_defs Let_def)
  qed
qed

end
