(* ===== verification/Admin_Concurrent.thy ===== *)
theory Admin_Concurrent
  imports Admin_Http
begin

text \<open>
  The REST API of the administration with its requests in parallel (\<^verbatim>\<open>src/admin/http.go\<close>,
  \<^verbatim>\<open>src/admin/admin.go\<close>). \<^verbatim>\<open>net/http\<close> serves every request in a goroutine of its own, and
  neither the handlers nor \<^verbatim>\<open>transition\<close> hold a lock of their own: a request goes through the router and the
  authenticator, \<^verbatim>\<open>SetState\<close>, the reading of the clock, \<^verbatim>\<open>Publish\<close>, the log line and \<^verbatim>\<open>Enqueue\<close>,
  and between any two of these others may run, tenants may be read, and the worker of the retry queue and the
  deliveries of the bus may go on. Each call into the store, the bus and the queue is one step. A trace
  records which request did what.
\<close>

section \<open>One request, step by step\<close>

text \<open>
  The router and \<^verbatim>\<open>withAuth\<close>: the answer to a request that reaches no operation, or the tenant
  and the state of the operation that it reaches.
\<close>

definition admin_admit :: "Authenticator option \<Rightarrow> Request \<Rightarrow> Response + TenantID \<times> State" where
  "admin_admit auth r =
     (if \<not> is_admin_path (Path r) then Inl (http_Error ''404 page not found'' StatusNotFound)
      else if Method r \<noteq> ''PATCH'' then Inl (http_Error ''Method Not Allowed'' StatusMethodNotAllowed)
      else if case auth of None \<Rightarrow> False | Some f \<Rightarrow> isl (f (r\<lparr>pathValues := [(''id'', Path r ! 1)]\<rparr>))
      then Inl (json_response StatusUnauthorized [(''error'', JString ''unauthorized'')])
      else Inr (Path r ! 1, the (admin_verbs (Path r ! 2))))"

lemma ServeHTTP_admit:
  "HTTPHandler_ServeHTTP (NewHTTPHandler svc [WithAuthenticator auth]) r a =
     (case admin_admit auth r of
        Inl resp \<Rightarrow> (Inr resp, a)
      | Inr (i, st) \<Rightarrow> answer (Service_transition svc (req_Context r) i st a))"
  by (auto simp: ServeHTTP_admin_request admin_request_def admin_admit_def isl_def split: option.split)

text \<open>
  The place of a request: received; admitted; past \<^verbatim>\<open>SetState\<close>; with its event; past a
  \<^verbatim>\<open>Publish\<close> that failed; past the log line; answered.
\<close>

datatype admin_place =
    Received Request
  | Admitted Request TenantID State
  | Applied Request TenantID State
  | Prepared Request TenantEvent
  | Failing Request TenantEvent go_error
  | Queueing Request TenantEvent go_error addr
  | Replied Request "panic + Response"

datatype admin_act =
    Wrote TenantID State
  | Gave TenantEvent "unit result"
  | Noted admin_log
  | Kept TenantEvent

fun handle_step ::
  "Authenticator option \<Rightarrow> ('s, 'w, 'b) Service \<Rightarrow> admin_place \<Rightarrow> ('s, 'b) admin_state \<Rightarrow>
     admin_place \<times> admin_act list \<times> ('s, 'b) admin_state" where
  "handle_step auth svc (Received r) a =
     (case admin_admit auth r of
        Inl resp \<Rightarrow> (Replied r (Inr resp), [], a)
      | Inr (i, st) \<Rightarrow> (Admitted r i st, [], a))"
| "handle_step auth svc (Admitted r i st) a =
     (case AdminStore_SetState (svc_store svc) (req_Context r) i st (as_store a) of
        (Inl err, s) \<Rightarrow> (Replied r (Inr (writeError err)), [], a\<lparr>as_store := s\<rparr>)
      | (Inr _, s) \<Rightarrow> (Applied r i st, [Wrote i st], a\<lparr>as_store := s\<rparr>))"
| "handle_step auth svc (Applied r i st) a =
     (let (now, c) = time_Now (as_clock a)
      in (Prepared r \<lparr>ev_TenantID = i, ev_State = st, ev_Timestamp = now\<rparr>, [], a\<lparr>as_clock := c\<rparr>))"
| "handle_step auth svc (Prepared r e) a =
     (let (x, b) = EventBus_Publish (svc_bus svc) (req_Context r) e (as_bus a)
      in (case x of Inr _ \<Rightarrow> Replied r (Inr (empty_response StatusNoContent)) | Inl err \<Rightarrow> Failing r e err,
          [Gave e x], a\<lparr>as_bus := b\<rparr>))"
| "handle_step auth svc (Failing r e err) a =
     (let line = PublishFailed (ev_TenantID e) (ev_State e) err
      in (case svc_retryQueue svc of None \<Rightarrow> Replied r (Inr (writeError err)) | Some p \<Rightarrow> Queueing r e err p,
          [Noted line], a\<lparr>as_log := as_log a @ [line]\<rparr>))"
| "handle_step auth svc (Queueing r e err p) a =
     (case PublishRetryQueue_Enqueue e (as_queues a p, as_clock a) of
        Inl pan \<Rightarrow> (Replied r (Inl pan), [], a)
      | Inr (q, c) \<Rightarrow> (Replied r (Inr (writeError err)), [Kept e], a\<lparr>as_queues := (as_queues a)(p := q), as_clock := c\<rparr>))"
| "handle_step auth svc (Replied r x) a = (Replied r x, [], a)"

text \<open>A request that nothing interrupts does what the handler does as one function.\<close>

fun handle_run ::
  "nat \<Rightarrow> Authenticator option \<Rightarrow> ('s, 'w, 'b) Service \<Rightarrow> admin_place \<Rightarrow> ('s, 'b) admin_state \<Rightarrow>
     admin_place \<times> ('s, 'b) admin_state" where
  "handle_run 0 auth svc p a = (p, a)"
| "handle_run (Suc n) auth svc p a = (let (p', acts, a') = handle_step auth svc p a in handle_run n auth svc p' a')"

lemma handle_run_Replied [simp]: "handle_run n auth svc (Replied r x) a = (Replied r x, a)"
  by (induction n) simp_all

lemma handle_run_failing:
  "handle_run (Suc (Suc n)) auth svc (Failing r e err) a =
     (let (x, a') = answer (publish_failed svc e err a) in (Replied r x, a'))"
  by (auto simp: publish_failed_def answer_def Let_def split: option.split sum.split)

text \<open>Past the write, the rest of a run is the rest of \<^verbatim>\<open>transition\<close>.\<close>

declare handle_run.simps(2) [simp del]

lemma handle_run_applied:
  "handle_run (Suc (Suc (Suc (Suc n)))) auth svc (Applied r i st) a =
     (let (x, a') = answer (transition_publish svc (req_Context r) i st a) in (Replied r x, a'))"
proof -
  obtain x b where pub: "EventBus_Publish (svc_bus svc) (req_Context r) (transition_event i st a) (as_bus a) = (x, b)" by fastforce
  then show ?thesis
    using handle_run_failing [of n auth svc r "transition_event i st a"]
    by (cases x) (simp_all add: transition_publish_def transition_event_def time_Now_def answer_def Let_def
        handle_run.simps(2) [of "Suc (Suc (Suc n))"] handle_run.simps(2) [of "Suc (Suc n)"])
qed

lemma handle_run_admitted:
  "handle_run (Suc (Suc (Suc (Suc (Suc n))))) auth svc (Admitted r i st) a =
     (let (x, a') = answer (Service_transition svc (req_Context r) i st a) in (Replied r x, a'))"
  by (cases "AdminStore_SetState (svc_store svc) (req_Context r) i st (as_store a)")
    (auto simp: handle_run.simps(2) [of "Suc (Suc (Suc (Suc n)))"] handle_run_applied Service_transition_def answer_def
      split: sum.split)

lemma handle_run_alone:
  "handle_run (Suc (Suc (Suc (Suc (Suc (Suc n)))))) auth svc (Received r) a =
     (let (x, a') = HTTPHandler_ServeHTTP (NewHTTPHandler svc [WithAuthenticator auth]) r a in (Replied r x, a'))"
  by (auto simp: handle_run.simps(2) [of "Suc (Suc (Suc (Suc (Suc n))))"] handle_run_admitted ServeHTTP_admit split: sum.split)

section \<open>Requests in parallel\<close>

record ('s, 'b) admin_system =
  ay_state :: "('s, 'b) admin_state"
  ay_requests :: "admin_place list"
  ay_trace :: "(nat \<times> admin_act) list"

definition admin_begin :: "('s, 'b) admin_state \<Rightarrow> ('s, 'b) admin_system" where
  "admin_begin a = \<lparr>ay_state = a, ay_requests = [], ay_trace = []\<rparr>"

definition admin_advance ::
  "Authenticator option \<Rightarrow> ('s, 'w, 'b) Service \<Rightarrow> nat \<Rightarrow> ('s, 'b) admin_system \<Rightarrow> ('s, 'b) admin_system" where
  "admin_advance auth svc k s =
     (let (p, acts, a) = handle_step auth svc (ay_requests s ! k) (ay_state s)
      in \<lparr>ay_state = a, ay_requests = (ay_requests s)[k := p], ay_trace = ay_trace s @ map (Pair k) acts\<rparr>)"

text \<open>
  Besides the requests: a lookup of a tenant, which may allocate, and whatever the bus, the clock and the worker of the queue
  do, within the invariant of the queues.
\<close>

inductive admin_step ::
  "'s Store \<Rightarrow> Authenticator option \<Rightarrow> ('s, 'w, 'b) Service \<Rightarrow> ('s, 'b) admin_system \<Rightarrow> ('s, 'b) admin_system \<Rightarrow> bool"
  for store :: "'s Store" and auth :: "Authenticator option" and svc :: "('s, 'w, 'b) Service" where
  receive: "admin_step store auth svc s (s\<lparr>ay_requests := ay_requests s @ [Received r]\<rparr>)"
| advance: "k < length (ay_requests s) \<Longrightarrow> admin_step store auth svc s (admin_advance auth svc k s)"
| read: "Store_Get store ctx i (as_store (ay_state s)) = (x, m) \<Longrightarrow>
    admin_step store auth svc s (s\<lparr>ay_state := (ay_state s)\<lparr>as_store := m\<rparr>\<rparr>)"
| background: "\<forall>p. queue_inv (as_queues (ay_state s) p) \<longrightarrow> queue_inv (qs p) \<Longrightarrow>
    admin_step store auth svc s (s\<lparr>ay_state := (ay_state s)\<lparr>as_bus := b, as_queues := qs, as_clock := c\<rparr>\<rparr>)"

text \<open>What one request has done so far, and what all of them have done to the store and to the log.\<close>

definition acts_of :: "nat \<Rightarrow> (nat \<times> admin_act) list \<Rightarrow> admin_act list" where
  "acts_of k trace = map snd (filter (\<lambda>x. fst x = k) trace)"

fun apply_act :: "admin_act \<Rightarrow> (TenantID \<rightharpoonup> Tenant) \<Rightarrow> (TenantID \<rightharpoonup> Tenant)" where
  "apply_act (Wrote i st) m = m(i := map_option (tState_update (\<lambda>_. st)) (m i))"
| "apply_act act m = m"

definition apply_acts :: "(nat \<times> admin_act) list \<Rightarrow> (TenantID \<rightharpoonup> Tenant) \<Rightarrow> (TenantID \<rightharpoonup> Tenant)" where
  "apply_acts trace = fold (apply_act \<circ> snd) trace"

fun act_line :: "admin_act \<Rightarrow> admin_log list" where
  "act_line (Noted line) = [line]"
| "act_line act = []"

definition log_lines :: "(nat \<times> admin_act) list \<Rightarrow> admin_log list" where
  "log_lines trace = concat (map (act_line \<circ> snd) trace)"

lemma acts_of_append [simp]: "acts_of k (xs @ ys) = acts_of k xs @ acts_of k ys"
  by (simp add: acts_of_def)

lemma acts_of_map [simp]: "acts_of k (map (Pair j) acts) = (if j = k then acts else [])"
  by (induction acts) (auto simp: acts_of_def)

lemma acts_of_simps [simp]: "acts_of k [] = []" "acts_of k ((j, act) # xs) = (if j = k then act # acts_of k xs else acts_of k xs)"
  by (simp_all add: acts_of_def)

lemma apply_acts_simps [simp]: "apply_acts [] = id" "apply_acts (xs @ ys) m = apply_acts ys (apply_acts xs m)"
  "apply_acts [(k, act)] m = apply_act act m"
  by (simp_all add: apply_acts_def)

lemma log_lines_simps [simp]: "log_lines [] = []" "log_lines (xs @ ys) = log_lines xs @ log_lines ys"
  "log_lines [(k, act)] = act_line act"
  by (simp_all add: log_lines_def)

lemma dom_apply_acts: "dom (apply_acts trace m) = dom m"
proof (induction trace arbitrary: m)
  case (Cons x trace)
  have "dom (apply_act (snd x) m) = dom m" by (cases "snd x") (auto split: if_splits)
  with Cons [of "apply_act (snd x) m"] show ?case by (simp add: apply_acts_def)
qed simp

lemma apply_acts_quiet:
  assumes "\<forall>(k, act) \<in> set trace. \<forall>i st. act \<noteq> Wrote i st"
  shows "apply_acts trace m = m"
  using assms
proof (induction trace)
  case (Cons x trace)
  then show ?case by (cases x; cases "snd x") (auto simp: apply_acts_def)
qed simp

text \<open>
  What a request is due: the one answer and exactly the acts, in this order, that go with it. \<open>known\<close> are
  the tenants of the store.
\<close>

definition due_acts :: "TenantEvent \<Rightarrow> unit result \<Rightarrow> addr option \<Rightarrow> admin_act list" where
  "due_acts e x queue = Wrote (ev_TenantID e) (ev_State e) # Gave e x #
     (case x of Inr _ \<Rightarrow> []
      | Inl err \<Rightarrow> Noted (PublishFailed (ev_TenantID e) (ev_State e) err) # (if queue = None then [] else [Kept e]))"

definition request_due ::
  "Authenticator option \<Rightarrow> addr option \<Rightarrow> TenantID set \<Rightarrow> Request \<Rightarrow> panic + Response \<Rightarrow> admin_act list \<Rightarrow> bool" where
  "request_due auth queue known r x acts \<longleftrightarrow>
     (case admin_admit auth r of
        Inl resp \<Rightarrow> x = Inr resp \<and> acts = []
      | Inr (i, st) \<Rightarrow>
          if i \<notin> known then x = Inr (writeError ErrTenantNotFound) \<and> acts = []
          else \<exists>e y. ev_TenantID e = i \<and> ev_State e = st \<and> acts = due_acts e y queue \<and>
            x = Inr (case y of Inr _ \<Rightarrow> empty_response StatusNoContent | Inl err \<Rightarrow> writeError err))"

text \<open>The same for a request under way.\<close>

abbreviation event_due :: "Authenticator option \<Rightarrow> TenantID set \<Rightarrow> Request \<Rightarrow> TenantEvent \<Rightarrow> bool" where
  "event_due auth known r e \<equiv> admin_admit auth r = Inr (ev_TenantID e, ev_State e) \<and> ev_TenantID e \<in> known"

fun place_ok :: "Authenticator option \<Rightarrow> addr option \<Rightarrow> TenantID set \<Rightarrow> admin_place \<Rightarrow> admin_act list \<Rightarrow> bool" where
  "place_ok auth queue known (Received r) acts \<longleftrightarrow> acts = []"
| "place_ok auth queue known (Admitted r i st) acts \<longleftrightarrow> admin_admit auth r = Inr (i, st) \<and> acts = []"
| "place_ok auth queue known (Applied r i st) acts \<longleftrightarrow>
     admin_admit auth r = Inr (i, st) \<and> i \<in> known \<and> acts = [Wrote i st]"
| "place_ok auth queue known (Prepared r e) acts \<longleftrightarrow>
     event_due auth known r e \<and> acts = [Wrote (ev_TenantID e) (ev_State e)]"
| "place_ok auth queue known (Failing r e err) acts \<longleftrightarrow>
     event_due auth known r e \<and> acts = [Wrote (ev_TenantID e) (ev_State e), Gave e (Inl err)]"
| "place_ok auth queue known (Queueing r e err p) acts \<longleftrightarrow>
     event_due auth known r e \<and> queue = Some p \<and> acts = due_acts e (Inl err) None"
| "place_ok auth queue known (Replied r x) acts \<longleftrightarrow> request_due auth queue known r x acts"

definition admin_inv ::
  "('s \<Rightarrow> bool) \<Rightarrow> ('s \<Rightarrow> TenantID \<rightharpoonup> Tenant) \<Rightarrow> Authenticator option \<Rightarrow> addr option \<Rightarrow> ('s, 'b) admin_state \<Rightarrow>
     ('s, 'b) admin_system \<Rightarrow> bool" where
  "admin_inv ok view auth queue a s \<longleftrightarrow> ok (as_store (ay_state s)) \<and>
     view (as_store (ay_state s)) = apply_acts (ay_trace s) (view (as_store a)) \<and>
     as_log (ay_state s) = as_log a @ log_lines (ay_trace s) \<and>
     (\<forall>p. queue = Some p \<longrightarrow> queue_inv (as_queues (ay_state s) p)) \<and>
     (\<forall>k. if k < length (ay_requests s)
          then place_ok auth queue (dom (view (as_store a))) (ay_requests s ! k) (acts_of k (ay_trace s))
          else acts_of k (ay_trace s) = [])"

section \<open>The invariant, from the contract of the store\<close>

context admin_service
begin

lemma handle_step_ok:
  assumes "inv (as_store a)" and "dom (view (as_store a)) = known"
    and "\<forall>p. svc_retryQueue svc = Some p \<longrightarrow> queue_inv (as_queues a p)"
    and "place_ok auth (svc_retryQueue svc) known pl past" and "handle_step auth svc pl a = (pl', acts, a')"
  shows "inv (as_store a') \<and> view (as_store a') = apply_acts (map (Pair k) acts) (view (as_store a)) \<and>
    as_log a' = as_log a @ log_lines (map (Pair k) acts) \<and>
    (\<forall>p. svc_retryQueue svc = Some p \<longrightarrow> queue_inv (as_queues a' p)) \<and>
    place_ok auth (svc_retryQueue svc) known pl' (past @ acts)"
proof (cases pl)
  case (Received r)
  with assms show ?thesis by (auto simp: request_due_def split: sum.splits prod.splits)
next
  case (Admitted r i st)
  obtain u s where set: "AdminStore_SetState adm (req_Context r) i st (as_store a) = (u, s)" by fastforce
  show ?thesis
  proof (cases "view (as_store a) i")
    case None
    with setState_view [OF assms(1) set] have "u = Inl ErrTenantNotFound" "s = as_store a" by auto
    with set None Admitted assms show ?thesis by (auto simp: request_due_def service_store)
  next
    case (Some t)
    with setState_view [OF assms(1) set] have "u = Inr ()" "inv s" "view s = (view (as_store a))(i \<mapsto> t\<lparr>tState := st\<rparr>)" by auto
    with set Some Admitted assms show ?thesis by (auto simp: service_store)
  qed
next
  case (Applied r i st)
  with assms show ?thesis by (auto simp: time_Now_def)
next
  case (Prepared r e)
  with assms show ?thesis by (auto simp: request_due_def due_acts_def split: prod.splits sum.splits)
next
  case (Failing r e err)
  with assms show ?thesis
    by (auto simp: request_due_def due_acts_def Let_def split: option.splits intro!: exI [of _ e] exI [of _ "Inl err"])
next
  case (Queueing r e err p)
  with assms have "queue_inv (as_queues a p)" by simp
  from Enqueue_total [OF this, of e "as_clock a"] obtain q c where
    enq: "PublishRetryQueue_Enqueue e (as_queues a p, as_clock a) = Inr (q, c)" by blast
  with Enqueue_last [OF \<open>queue_inv (as_queues a p)\<close> enq] Queueing assms show ?thesis
    by (auto simp: request_due_def due_acts_def intro!: exI [of _ e] exI [of _ "Inl err"])
qed (use assms in auto)

lemma admin_inv_step:
  assumes "admin_inv inv view auth (svc_retryQueue svc) a s" and "admin_step api auth svc s s'"
  shows "admin_inv inv view auth (svc_retryQueue svc) a s'"
  using assms(2)
proof cases
  case (receive r)
  with assms(1) show ?thesis by (auto simp: admin_inv_def nth_append less_Suc_eq split: if_splits)
next
  case (advance k)
  obtain p acts b where step: "handle_step auth svc (ay_requests s ! k) (ay_state s) = (p, acts, b)" by (metis prod_cases3)
  have "place_ok auth (svc_retryQueue svc) (dom (view (as_store a))) (ay_requests s ! k) (acts_of k (ay_trace s))"
    using assms(1) advance(2) by (simp add: admin_inv_def)
  from handle_step_ok [OF _ _ _ this step, of k] assms(1) dom_apply_acts advance step show ?thesis
    by (auto simp: admin_inv_def admin_advance_def nth_list_update)
next
  case (read ctx i x m)
  with assms(1) get_inv get_view_state show ?thesis by (fastforce simp: admin_inv_def)
next
  case (background qs b c)
  with assms(1) show ?thesis by (simp add: admin_inv_def)
qed

lemma admin_inv_reachable:
  assumes "(admin_step api auth svc)\<^sup>*\<^sup>* (admin_begin a) s" and "inv (as_store a)"
    and "\<forall>p. svc_retryQueue svc = Some p \<longrightarrow> queue_inv (as_queues a p)"
  shows "admin_inv inv view auth (svc_retryQueue svc) a s"
  using assms(1)
proof induction
  case base
  show ?case using assms(2,3) by (simp add: admin_inv_def admin_begin_def)
qed (rule admin_inv_step)

end

section \<open>Properties\<close>

text \<open>Any order of the requests' steps is an execution, and a request may run alone.\<close>

definition admin_schedule ::
  "Authenticator option \<Rightarrow> ('s, 'w, 'b) Service \<Rightarrow> nat list \<Rightarrow> ('s, 'b) admin_system \<Rightarrow> ('s, 'b) admin_system" where
  "admin_schedule auth svc ks = fold (admin_advance auth svc) ks"

lemma length_admin_advance [simp]: "length (ay_requests (admin_advance auth svc k s)) = length (ay_requests s)"
  by (simp add: admin_advance_def split: prod.split)

lemma admin_schedule_steps:
  assumes "\<forall>k \<in> set ks. k < length (ay_requests s)"
  shows "(admin_step store auth svc)\<^sup>*\<^sup>* s (admin_schedule auth svc ks s)"
  using assms
proof (induction ks arbitrary: s)
  case (Cons k ks)
  then have "admin_step store auth svc s (admin_advance auth svc k s)" by (simp add: admin_step.advance)
  with Cons.IH [of "admin_advance auth svc k s"] Cons.prems show ?case
    by (simp add: admin_schedule_def converse_rtranclp_into_rtranclp)
qed (simp add: admin_schedule_def)

lemma admin_schedule_alone:
  assumes "k < length (ay_requests s)" and "handle_run n auth svc (ay_requests s ! k) (ay_state s) = (p, a)"
  shows "ay_requests (admin_schedule auth svc (replicate n k) s) = (ay_requests s)[k := p] \<and>
    ay_state (admin_schedule auth svc (replicate n k) s) = a"
  using assms
proof (induction n arbitrary: s)
  case (Suc n)
  obtain p' acts a' where "handle_step auth svc (ay_requests s ! k) (ay_state s) = (p', acts, a')" by (metis prod_cases3)
  with Suc.IH [of "admin_advance auth svc k s"] Suc.prems show ?case
    by (simp add: admin_schedule_def admin_advance_def handle_run.simps(2))
qed (auto simp: admin_schedule_def)

lemma request_runs_alone:
  assumes "k < length (ay_requests s)" and "ay_requests s ! k = Received r"
    and "HTTPHandler_ServeHTTP (NewHTTPHandler svc [WithAuthenticator auth]) r (ay_state s) = (x, a)"
  shows "\<exists>s'. (admin_step store auth svc)\<^sup>*\<^sup>* s s' \<and> ay_requests s' = (ay_requests s)[k := Replied r x] \<and> ay_state s' = a"
proof -
  let ?s = "admin_schedule auth svc (replicate 6 k) s"
  have six: "Suc (Suc (Suc (Suc (Suc (Suc 0))))) = 6" by simp
  from handle_run_alone [of 0 auth svc r "ay_state s"] assms
  have "handle_run 6 auth svc (ay_requests s ! k) (ay_state s) = (Replied r x, a)" by (simp add: six)
  from admin_schedule_alone [OF assms(1) this] have "ay_requests ?s = (ay_requests s)[k := Replied r x] \<and> ay_state ?s = a" .
  moreover have "(admin_step store auth svc)\<^sup>*\<^sup>* s ?s" using assms(1) by (intro admin_schedule_steps) simp
  ultimately show ?thesis by blast
qed

text \<open>An event is given to the bus after the write it tells of, by the same request.\<close>

lemma due_acts_order:
  "due_acts e y queue = xs @ Gave e' x # ys \<Longrightarrow> xs = [Wrote (ev_TenantID e') (ev_State e')]"
  by (cases y) (auto simp: due_acts_def Cons_eq_append_conv append_eq_Cons_conv split: if_splits)

lemma place_ok_order:
  assumes "place_ok auth queue known pl (xs @ Gave e x # ys)"
  shows "xs = [Wrote (ev_TenantID e) (ev_State e)]"
proof (cases pl)
  case (Replied r y)
  with assms obtain e' z where "xs @ Gave e x # ys = due_acts e' z queue"
    by (cases "admin_admit auth r") (auto simp: request_due_def split: if_splits)
  from due_acts_order [OF this [symmetric]] show ?thesis .
next
  case (Queueing r e' err p)
  with assms have "due_acts e' (Inl err) None = xs @ Gave e x # ys" by simp
  from due_acts_order [OF this] show ?thesis .
qed (use assms in \<open>auto simp: Cons_eq_append_conv append_eq_Cons_conv\<close>)

lemma acts_of_mem: "act \<in> set (acts_of k trace) \<longleftrightarrow> (k, act) \<in> set trace"
  by (force simp: acts_of_def)

lemma write_before_event:
  assumes "admin_inv ok view auth queue a s" and "ay_trace s = xs @ (k, Gave e x) # ys"
  shows "(k, Wrote (ev_TenantID e) (ev_State e)) \<in> set xs"
proof -
  have acts: "acts_of k (ay_trace s) = acts_of k xs @ Gave e x # acts_of k ys" using assms(2) by simp
  with assms(1) have "place_ok auth queue (dom (view (as_store a))) (ay_requests s ! k) (acts_of k xs @ Gave e x # acts_of k ys)"
    unfolding admin_inv_def by (metis append_is_Nil_conv list.distinct(1))
  from place_ok_order [OF this] show ?thesis using acts_of_mem [of _ k xs] by auto
qed

text \<open>
  C13. Administrative requests in parallel, in any interleaving of their steps with each other, with lookups, with
  the bus and with the worker of the retry queue, on the in-memory store and over any bus. The store holds what the writes
  made of it one after the other in the order of the trace, and the log the lines of the publications that
  failed. No event is given to the bus before its own request has written the state the event tells. And every answered
  request has its due: 404, 405 or 401 without any effect where the router or the authenticator stops it, 404 without any effect for
  an unknown tenant, and otherwise exactly one write, one event, and for a failed publication one log line and one entry of the
  queue where there is one, with 204 or the status of the bus's error; no handler panics.
\<close>

theorem admin_requests_in_parallel:
  assumes "ms_inv (as_store a)" and "\<forall>p. queue = Some p \<longrightarrow> queue_inv (as_queues a p)"
    and "svc = NewAdminService MemoryStore_AdminStore bus [WithPublishRetryQueue queue]"
    and "(admin_step MemoryStore_Store auth svc)\<^sup>*\<^sup>* (admin_begin a) s"
  shows "ms_view (as_store (ay_state s)) = apply_acts (ay_trace s) (ms_view (as_store a)) \<and>
    as_log (ay_state s) = as_log a @ log_lines (ay_trace s) \<and>
    (\<forall>xs k e x ys. ay_trace s = xs @ (k, Gave e x) # ys \<longrightarrow> (k, Wrote (ev_TenantID e) (ev_State e)) \<in> set xs) \<and>
    (\<forall>k < length (ay_requests s). \<forall>r x. ay_requests s ! k = Replied r x \<longrightarrow>
       request_due auth queue (dom (ms_view (as_store a))) r x (acts_of k (ay_trace s)))"
proof -
  have ok: "admin_inv ms_inv ms_view auth queue a s"
    using mem_admin.admin_inv_reachable [OF assms(4) [unfolded assms(3)] assms(1)] assms(2) by simp
  have due: "request_due auth queue (dom (ms_view (as_store a))) r x (acts_of k (ay_trace s))"
    if "k < length (ay_requests s)" "ay_requests s ! k = Replied r x" for k r x
    using ok that unfolding admin_inv_def by (metis place_ok.simps(7))
  from ok have "ms_view (as_store (ay_state s)) = apply_acts (ay_trace s) (ms_view (as_store a))"
    and "as_log (ay_state s) = as_log a @ log_lines (ay_trace s)" by (simp_all add: admin_inv_def)
  with write_before_event [OF ok] due show ?thesis by blast
qed

text \<open>
  A ban and an activation of the same tenant at the same time, over a bus that refuses every event: the activation writes
  last, the ban publishes last, and both events are kept.
\<close>

definition patch_acme :: "string \<Rightarrow> Request" where
  "patch_acme verb = \<lparr>Method = ''PATCH'', Host = ''admin'', Path = [''tenants'', ''acme'', verb],
     req_Context = Background, pathValues = []\<rparr>"

definition demo_requests :: "(mem_state, TenantEvent list) admin_system" where
  "demo_requests = (admin_begin demo_admin)\<lparr>ay_requests := [Received (patch_acme ''ban''), Received (patch_acme ''activate'')]\<rparr>"

abbreviation demo_retry_service :: "(mem_state, BanChecker, TenantEvent list) Service" where
  "demo_retry_service \<equiv> NewAdminService MemoryStore_AdminStore failing_EventBus [WithPublishRetryQueue (Some 0)]"

lemma admin_admit_patch:
  "admin_admit None (patch_acme ''ban'') = Inr (''acme'', Banned)"
  "admin_admit None (patch_acme ''activate'') = Inr (''acme'', Active)"
  by (simp_all add: admin_admit_def patch_acme_def is_admin_path_def admin_verbs_def)

lemma demo_requests_reached: "(admin_step store None demo_retry_service)\<^sup>*\<^sup>* (admin_begin demo_admin) demo_requests"
proof -
  let ?s = "admin_begin demo_admin" and ?r = "patch_acme ''ban''"
  have "admin_step store None demo_retry_service ?s (?s\<lparr>ay_requests := [Received ?r]\<rparr>)"
    using admin_step.receive [of store None demo_retry_service ?s ?r] by (simp add: admin_begin_def)
  moreover have "admin_step store None demo_retry_service (?s\<lparr>ay_requests := [Received ?r]\<rparr>) demo_requests"
    using admin_step.receive [of store None demo_retry_service "?s\<lparr>ay_requests := [Received ?r]\<rparr>" "patch_acme ''activate''"]
    by (simp add: admin_begin_def demo_requests_def)
  ultimately show ?thesis by (simp add: converse_rtranclp_into_rtranclp)
qed

definition demo_answered :: "(mem_state, TenantEvent list) admin_system" where
  "demo_answered = admin_schedule None demo_retry_service [0, 1, 0, 1, 0, 1, 1, 0, 0, 1, 0, 1] demo_requests"

lemma demo_requests_run:
  "\<exists>x y. ay_requests demo_answered = [Replied (patch_acme ''ban'') x, Replied (patch_acme ''activate'') y]"
  "\<exists>ts. ay_trace demo_answered = [(0, Wrote ''acme'' Banned), (1, Wrote ''acme'' Active)] @ ts \<and>
     (\<forall>(k, act) \<in> set ts. \<forall>i st. act \<noteq> Wrote i st)"
  by (simp_all add: demo_answered_def admin_schedule_def admin_advance_def demo_requests_def admin_begin_def admin_admit_patch
      NewAdminService_def WithPublishRetryQueue_def MemoryStore_AdminStore_def MemoryStore_SetState_def demo_admin_def demo_store_def
      time_Now_def failing_EventBus_def failing_bus_def Let_def PublishRetryQueue_Enqueue_def NewPublishRetryQueue_def
      defaultMaxSize_def drop_oldest_def)

theorem admin_requests_in_parallel_witness:
  "\<exists>s x y. (admin_step MemoryStore_Store None demo_retry_service)\<^sup>*\<^sup>* (admin_begin demo_admin) s \<and>
     ay_requests s = [Replied (patch_acme ''ban'') x, Replied (patch_acme ''activate'') y] \<and>
     map_option tState (ms_view (as_store (ay_state s)) ''acme'') = Some Active \<and>
     request_due None (Some 0) {''acme''} (patch_acme ''ban'') x (acts_of 0 (ay_trace s)) \<and>
     request_due None (Some 0) {''acme''} (patch_acme ''activate'') y (acts_of 1 (ay_trace s))"
proof -
  let ?s = demo_answered
  obtain x y where req: "ay_requests ?s = [Replied (patch_acme ''ban'') x, Replied (patch_acme ''activate'') y]"
    using demo_requests_run(1) by blast
  obtain ts where trace: "ay_trace ?s = [(0, Wrote ''acme'' Banned), (1, Wrote ''acme'' Active)] @ ts"
    and ts: "\<forall>(k, act) \<in> set ts. \<forall>i st. act \<noteq> Wrote i st" using demo_requests_run(2) by blast
  have run: "(admin_step MemoryStore_Store None demo_retry_service)\<^sup>*\<^sup>* (admin_begin demo_admin) ?s"
    unfolding demo_answered_def
    by (rule rtranclp_trans [OF demo_requests_reached admin_schedule_steps]) (simp add: demo_requests_def)
  have inv: "ms_inv (as_store demo_admin)" by (simp add: demo_admin_def demo_store_inv)
  have queue: "\<forall>p. Some 0 = Some p \<longrightarrow> queue_inv (as_queues demo_admin p)" by (simp add: demo_admin_def queue_inv_new)
  have dom: "dom (ms_view (as_store demo_admin)) = {''acme''}" by (simp add: demo_admin_def demo_store_def)
  note par = admin_requests_in_parallel [OF inv queue refl run, unfolded dom]
  from par have "ms_view (as_store (ay_state ?s)) = apply_acts (ay_trace ?s) (ms_view (as_store demo_admin))" by blast
  then have "map_option tState (ms_view (as_store (ay_state ?s)) ''acme'') = Some Active"
    using apply_acts_quiet [OF ts] demo_view by (simp only: trace) (simp add: apply_acts_def demo_admin_def)
  moreover have "request_due None (Some 0) {''acme''} (patch_acme ''ban'') x (acts_of 0 (ay_trace ?s))"
    using par by (simp add: req)
  moreover have "request_due None (Some 0) {''acme''} (patch_acme ''activate'') y (acts_of 1 (ay_trace ?s))"
    using par by (simp add: req)
  ultimately show ?thesis using run req by blast
qed

end
