(* ===== verification/Cache_Key.thy ===== *)
theory Cache_Key
  imports Tenant
begin

text \<open>
  Cache keys (\<^verbatim>\<open>src/cachekey/cachekey.go\<close>): a logical key prefixed with the tenant. The
  lemmas say for which identifiers the prefix isolates tenants.
\<close>

definition Key :: "TenantID \<Rightarrow> string \<Rightarrow> string" where
  "Key tenantID key = ''tenant:'' @ tenantID @ '':'' @ key"

lemma Key_inject:
  assumes "CHR '':'' \<notin> set i" and "CHR '':'' \<notin> set j"
  shows "Key i k = Key j l \<longleftrightarrow> i = j \<and> k = l"
  using sep_append_inject [OF assms] by (simp add: Key_def)

text \<open>
  The key of a tenant whose identifier contains a colon is also the key of another
  tenant: the part after the colon can move from the identifier into the logical key.
  Keys are therefore not isolated per tenant for arbitrary identifiers.
\<close>

lemma cache_key_collision: "Key (i @ '':'' @ j) k = Key i (j @ '':'' @ k)"
  by (simp add: Key_def)

end
