(* ===== verification/Rate_Limiter.thy ===== *)
theory Rate_Limiter
  imports Tenant
begin

text \<open>
  The in-process rate limiter (\<^verbatim>\<open>src/ratelimit/ratelimit.go\<close>). A limiter of
  \<^verbatim>\<open>golang.org/x/time/rate\<close> is an object with a mutex of its own; its constructor and its \<^verbatim>\<open>Allow\<close>
  are arguments, as is the application's limit function. Any number of goroutines call \<^verbatim>\<open>Allow\<close>
  for any tenants; \<^verbatim>\<open>Load\<close>, the building of a candidate, \<^verbatim>\<open>LoadOrStore\<close> and the limiter's own
  \<^verbatim>\<open>Allow\<close> are the steps between which they interleave.
\<close>

section \<open>State and operations\<close>

text \<open>
  \<open>'q\<close> is \<^verbatim>\<open>rate.Limit\<close> and \<open>'l\<close> the state of a \<^verbatim>\<open>rate.Limiter\<close>; its \<^verbatim>\<open>Allow\<close> reads the clock.
\<close>

record ('q, 'l) rate_api =
  NewLimiter :: "'q \<Rightarrow> int \<Rightarrow> 'l"
  Limiter_Allow :: "Time \<Rightarrow> 'l \<Rightarrow> bool \<times> 'l"

type_synonym 'q LimitFunc = "Tenant \<Rightarrow> 'q"

record ('q, 'l) TenantRateLimiter =
  rl_limitFunc :: "'q LimitFunc"
  rl_burst :: int
  rl_limiters :: "TenantID \<rightharpoonup> addr"
  rl_objects :: "addr \<Rightarrow> 'l"
  rl_next :: addr

definition NewTenantRateLimiter :: "'q LimitFunc \<Rightarrow> int \<Rightarrow> (addr \<Rightarrow> 'l) \<Rightarrow> ('q, 'l) TenantRateLimiter" where
  "NewTenantRateLimiter limitFunc burst mem = \<lparr>rl_limitFunc = limitFunc, rl_burst = burst,
     rl_limiters = Map.empty, rl_objects = mem, rl_next = 0\<rparr>"

text \<open>The four steps of a call, in their order.\<close>

definition load_limiter :: "('q, 'l) TenantRateLimiter \<Rightarrow> Tenant \<Rightarrow> addr option" where
  "load_limiter rl t = rl_limiters rl (tID t)"

definition build_limiter ::
  "('q, 'l) rate_api \<Rightarrow> Tenant \<Rightarrow> ('q, 'l) TenantRateLimiter \<Rightarrow> addr \<times> ('q, 'l) TenantRateLimiter" where
  "build_limiter api t rl =
     (let limit = rl_limitFunc rl t; newLimiter = NewLimiter api limit (rl_burst rl) in
      (rl_next rl, rl\<lparr>rl_objects := (rl_objects rl)(rl_next rl := newLimiter), rl_next := Suc (rl_next rl)\<rparr>))"

definition loadOrStore_limiter ::
  "Tenant \<Rightarrow> addr \<Rightarrow> ('q, 'l) TenantRateLimiter \<Rightarrow> addr \<times> ('q, 'l) TenantRateLimiter" where
  "loadOrStore_limiter t p rl =
     (case rl_limiters rl (tID t) of
        Some actual \<Rightarrow> (actual, rl)
      | None \<Rightarrow> (p, rl\<lparr>rl_limiters := (rl_limiters rl)(tID t \<mapsto> p)\<rparr>))"

definition limiter_Allow ::
  "('q, 'l) rate_api \<Rightarrow> Time \<Rightarrow> addr \<Rightarrow> ('q, 'l) TenantRateLimiter \<Rightarrow> bool \<times> ('q, 'l) TenantRateLimiter" where
  "limiter_Allow api now p rl =
     (let (ok, l) = Limiter_Allow api now (rl_objects rl p)
      in (ok, rl\<lparr>rl_objects := (rl_objects rl)(p := l)\<rparr>))"

text \<open>The whole of \<^verbatim>\<open>getLimiter\<close> and \<^verbatim>\<open>Allow\<close> when no other goroutine runs.\<close>

definition TenantRateLimiter_getLimiter ::
  "('q, 'l) rate_api \<Rightarrow> Tenant \<Rightarrow> ('q, 'l) TenantRateLimiter \<Rightarrow> addr \<times> ('q, 'l) TenantRateLimiter" where
  "TenantRateLimiter_getLimiter api t rl =
     (case load_limiter rl t of
        Some p \<Rightarrow> (p, rl)
      | None \<Rightarrow> (let (p, rl) = build_limiter api t rl in loadOrStore_limiter t p rl))"

definition TenantRateLimiter_Allow ::
  "('q, 'l) rate_api \<Rightarrow> Time \<Rightarrow> Tenant \<Rightarrow> ('q, 'l) TenantRateLimiter \<Rightarrow> bool \<times> ('q, 'l) TenantRateLimiter" where
  "TenantRateLimiter_Allow api now t rl =
     (let (p, rl) = TenantRateLimiter_getLimiter api t rl in limiter_Allow api now p rl)"

section \<open>Goroutines\<close>

datatype call =
    Calling Tenant
  | Missed Tenant
  | Built Tenant addr
  | Holding Tenant addr
  | Answered Tenant bool

inductive rl_step ::
  "('q, 'l) rate_api \<Rightarrow> ('q, 'l) TenantRateLimiter \<times> call list \<Rightarrow> ('q, 'l) TenantRateLimiter \<times> call list \<Rightarrow> bool"
  for api :: "('q, 'l) rate_api" where
  call: "rl_step api (rl, cs) (rl, cs @ [Calling t])"
| hit: "k < length cs \<Longrightarrow> cs ! k = Calling t \<Longrightarrow> load_limiter rl t = Some p \<Longrightarrow>
    rl_step api (rl, cs) (rl, cs[k := Holding t p])"
| miss: "k < length cs \<Longrightarrow> cs ! k = Calling t \<Longrightarrow> load_limiter rl t = None \<Longrightarrow>
    rl_step api (rl, cs) (rl, cs[k := Missed t])"
| build: "k < length cs \<Longrightarrow> cs ! k = Missed t \<Longrightarrow> build_limiter api t rl = (p, rl') \<Longrightarrow>
    rl_step api (rl, cs) (rl', cs[k := Built t p])"
| store: "k < length cs \<Longrightarrow> cs ! k = Built t p \<Longrightarrow> loadOrStore_limiter t p rl = (p', rl') \<Longrightarrow>
    rl_step api (rl, cs) (rl', cs[k := Holding t p'])"
| allow: "k < length cs \<Longrightarrow> cs ! k = Holding t p \<Longrightarrow> limiter_Allow api now p rl = (ok, rl') \<Longrightarrow>
    rl_step api (rl, cs) (rl', cs[k := Answered t ok])"

text \<open>What a limiter is after the calls answered for its tenant: a new one, asked once per call.\<close>

definition asked :: "('q, 'l) rate_api \<Rightarrow> Time list \<Rightarrow> 'l \<Rightarrow> 'l" where
  "asked api ts l = fold (\<lambda>now l. snd (Limiter_Allow api now l)) ts l"

fun answered_for :: "TenantID \<Rightarrow> call \<Rightarrow> bool" where
  "answered_for i (Answered t ok) = (tID t = i)"
| "answered_for i c = False"

definition answers :: "TenantID \<Rightarrow> call list \<Rightarrow> nat" where
  "answers i cs = length (filter (answered_for i) cs)"

text \<open>
  The invariant: stored and candidate limiters are distinct objects, a goroutine that holds
  a limiter holds the stored one of its tenant, a candidate is untouched, and the stored one
  has been asked exactly once per answer given for its tenant.
\<close>

definition call_ok :: "('q, 'l) rate_api \<Rightarrow> ('q, 'l) TenantRateLimiter \<Rightarrow> call \<Rightarrow> bool" where
  "call_ok api rl c = (case c of
       Built t p \<Rightarrow> p < rl_next rl \<and> p \<notin> ran (rl_limiters rl) \<and>
         rl_objects rl p = NewLimiter api (rl_limitFunc rl t) (rl_burst rl)
     | Holding t p \<Rightarrow> rl_limiters rl (tID t) = Some p
     | Answered t ok \<Rightarrow> rl_limiters rl (tID t) \<noteq> None
     | _ \<Rightarrow> True)"

definition fresh_asked ::
  "('q, 'l) rate_api \<Rightarrow> ('q, 'l) TenantRateLimiter \<Rightarrow> TenantID \<Rightarrow> nat \<Rightarrow> 'l \<Rightarrow> bool" where
  "fresh_asked api rl i n l \<longleftrightarrow> (\<exists>t ts. tID t = i \<and> length ts = n \<and>
     l = asked api ts (NewLimiter api (rl_limitFunc rl t) (rl_burst rl)))"

fun candidate :: "call \<Rightarrow> addr option" where
  "candidate (Built t p) = Some p"
| "candidate c = None"

definition candidates_distinct :: "call list \<Rightarrow> bool" where
  "candidates_distinct cs \<longleftrightarrow> (\<forall>j < length cs. \<forall>k < length cs. j \<noteq> k \<longrightarrow>
     candidate (cs ! j) = None \<or> candidate (cs ! j) \<noteq> candidate (cs ! k))"

definition rl_inv :: "('q, 'l) rate_api \<Rightarrow> ('q, 'l) TenantRateLimiter \<times> call list \<Rightarrow> bool" where
  "rl_inv api s = (case s of (rl, cs) \<Rightarrow>
     inj_on (rl_limiters rl) (dom (rl_limiters rl)) \<and> ran (rl_limiters rl) \<subseteq> {..<rl_next rl} \<and>
     (\<forall>c \<in> set cs. call_ok api rl c) \<and> candidates_distinct cs \<and>
     (\<forall>i p. rl_limiters rl i = Some p \<longrightarrow> fresh_asked api rl i (answers i cs) (rl_objects rl p)))"

lemma rl_inv_new: "rl_inv api (NewTenantRateLimiter f burst mem, [])"
  by (simp add: rl_inv_def NewTenantRateLimiter_def candidates_distinct_def)

lemma answers_update:
  "k < length cs \<Longrightarrow> \<not> answered_for i (cs ! k) \<Longrightarrow>
     answers i (cs[k := c]) = answers i cs + (if answered_for i c then 1 else 0)"
  unfolding answers_def
proof (induction cs arbitrary: k)
  case (Cons d cs)
  then show ?case by (cases k) auto
qed simp

lemma answers_append [simp]: "answers i (cs @ [Calling t]) = answers i cs"
  by (simp add: answers_def)

lemma all_update:
  "\<forall>c \<in> set cs. P c \<Longrightarrow> P c' \<Longrightarrow> \<forall>c \<in> set (cs[k := c']). P c"
  using set_update_subset_insert [of cs k c'] by blast

lemma candidates_append: "candidates_distinct cs \<Longrightarrow> candidates_distinct (cs @ [Calling t])"
  by (auto simp: candidates_distinct_def nth_append)

lemma candidates_update:
  "candidates_distinct cs \<Longrightarrow> candidate c = None \<Longrightarrow> candidates_distinct (cs[k := c])"
  by (cases "k < length cs") (auto simp: candidates_distinct_def nth_list_update)

lemma candidates_build:
  assumes "candidates_distinct cs" and "\<forall>c \<in> set cs. candidate c \<noteq> Some p"
  shows "candidates_distinct (cs[k := Built t p])"
proof -
  have "j < length cs \<Longrightarrow> candidate (cs ! j) \<noteq> Some p \<and> Some p \<noteq> candidate (cs ! j)" for j
    using assms(2) nth_mem by metis
  with assms(1) show ?thesis
    by (cases "k < length cs") (auto simp: candidates_distinct_def nth_list_update simp del: not_None_eq)
qed

lemma no_answers:
  assumes "\<forall>c \<in> set cs. call_ok api rl c" and "rl_limiters rl i = None"
  shows "answers i cs = 0"
proof -
  have "\<not> answered_for i c" if "c \<in> set cs" for c
    using assms that by (cases c) (auto simp: call_ok_def)
  then show ?thesis by (simp add: answers_def filter_empty_conv)
qed

lemma fresh_asked_0: "fresh_asked api rl (tID t) 0 (NewLimiter api (rl_limitFunc rl t) (rl_burst rl))"
  by (auto simp: fresh_asked_def asked_def)

lemma fresh_asked_Suc:
  assumes "fresh_asked api rl i n l"
  shows "fresh_asked api rl i (Suc n) (snd (Limiter_Allow api now l))"
proof -
  from assms obtain t ts where "tID t = i" and "length ts = n"
    and "l = asked api ts (NewLimiter api (rl_limitFunc rl t) (rl_burst rl))" by (auto simp: fresh_asked_def)
  then show ?thesis
    unfolding fresh_asked_def by (intro exI [of _ t] exI [of _ "ts @ [now]"]) (simp add: asked_def)
qed

lemma rl_inv_build:
  assumes inv: "rl_inv api (rl, cs)" and k: "k < length cs" "cs ! k = Missed t"
    and run: "build_limiter api t rl = (p, rl')"
  shows "rl_inv api (rl', cs[k := Built t p])"
proof -
  have p: "p = rl_next rl" and rl': "rl' = rl\<lparr>rl_objects := (rl_objects rl)(rl_next rl :=
      NewLimiter api (rl_limitFunc rl t) (rl_burst rl)), rl_next := Suc (rl_next rl)\<rparr>"
    using run by (auto simp: build_limiter_def Let_def)
  from inv have low: "ran (rl_limiters rl) \<subseteq> {..<rl_next rl}" and ok: "\<forall>c \<in> set cs. call_ok api rl c"
    and cand: "candidates_distinct cs" by (auto simp: rl_inv_def)
  have "call_ok api rl' c" if "c \<in> set cs" for c
    using ok that by (cases c) (auto simp: call_ok_def rl')
  moreover have "call_ok api rl' (Built t p)" using low by (auto simp: call_ok_def rl' p)
  ultimately have "\<forall>c \<in> set (cs[k := Built t p]). call_ok api rl' c" by (intro all_update) auto
  moreover have "candidates_distinct (cs[k := Built t p])"
  proof (rule candidates_build [OF cand], rule ballI)
    fix c
    assume "c \<in> set cs"
    with ok have "call_ok api rl c" by blast
    then show "candidate c \<noteq> Some p" by (cases c) (simp_all add: call_ok_def p)
  qed
  moreover have "rl_limiters rl i = Some q \<Longrightarrow> q \<noteq> rl_next rl" for i q using low by (auto simp: ran_def)
  ultimately show ?thesis
    using inv k by (auto simp: rl_inv_def answers_update rl' fresh_asked_def)
qed

lemma rl_inv_store:
  assumes inv: "rl_inv api (rl, cs)" and k: "k < length cs" "cs ! k = Built t p"
    and run: "loadOrStore_limiter t p rl = (p', rl')"
  shows "rl_inv api (rl', cs[k := Holding t p'])"
proof (cases "rl_limiters rl (tID t)")
  case (Some q)
  with run have "rl' = rl" and "p' = q" by (auto simp: loadOrStore_limiter_def)
  moreover have "\<forall>c \<in> set (cs[k := Holding t q]). call_ok api rl c"
    using inv Some by (intro all_update) (auto simp: rl_inv_def call_ok_def)
  ultimately show ?thesis
    using inv k by (auto simp: rl_inv_def answers_update intro: candidates_update)
next
  case None
  with run have rl': "rl' = rl\<lparr>rl_limiters := (rl_limiters rl)(tID t \<mapsto> p)\<rparr>" and p': "p' = p"
    by (auto simp: loadOrStore_limiter_def)
  from inv have ok: "\<forall>c \<in> set cs. call_ok api rl c" and cand: "candidates_distinct cs"
    by (auto simp: rl_inv_def)
  have p: "p < rl_next rl" "p \<notin> ran (rl_limiters rl)"
    "rl_objects rl p = NewLimiter api (rl_limitFunc rl t) (rl_burst rl)"
    using ok k nth_mem [of k cs] by (force simp: call_ok_def)+
  have "call_ok api rl' (cs[k := Holding t p] ! j)" if "j < length cs" for j
  proof (cases "j = k")
    case True
    then show ?thesis using k by (simp add: call_ok_def rl')
  next
    case False
    with ok that have "call_ok api rl (cs ! j)" by simp
    moreover have "candidate (cs ! j) \<noteq> Some p"
      using cand False that k unfolding candidates_distinct_def by force
    ultimately show ?thesis
      using False None by (cases "cs ! j") (auto simp: call_ok_def rl' ran_map_upd)
  qed
  then have "\<forall>c \<in> set (cs[k := Holding t p]). call_ok api rl' c"
    by (auto simp: in_set_conv_nth)
  moreover have "fresh_asked api rl (tID t) (answers (tID t) cs) (rl_objects rl p)"
    using no_answers [OF ok None] p(3) fresh_asked_0 by metis
  moreover have "inj_on (rl_limiters rl') (dom (rl_limiters rl'))"
    using inv p(2) None by (auto simp: rl_inv_def rl' inj_on_def ran_def)
  ultimately show ?thesis
    using inv k p(1) None by (auto simp: rl_inv_def answers_update rl' p' fresh_asked_def ran_map_upd intro: candidates_update)
qed

lemma rl_inv_allow:
  assumes inv: "rl_inv api (rl, cs)" and k: "k < length cs" "cs ! k = Holding t p"
    and run: "limiter_Allow api now p rl = (ok, rl')"
  shows "rl_inv api (rl', cs[k := Answered t ok])"
proof -
  have rl': "rl' = rl\<lparr>rl_objects := (rl_objects rl)(p := snd (Limiter_Allow api now (rl_objects rl p)))\<rparr>"
    using run by (auto simp: limiter_Allow_def split: prod.splits)
  from inv have calls: "\<forall>c \<in> set cs. call_ok api rl c" by (auto simp: rl_inv_def)
  from bspec [OF calls nth_mem [OF k(1)]] k(2) have p: "rl_limiters rl (tID t) = Some p" by (simp add: call_ok_def)
  have "call_ok api rl' c" if "c \<in> set cs" for c
    using calls that p by (cases c) (auto simp: call_ok_def rl' ran_def)
  then have "\<forall>c \<in> set (cs[k := Answered t ok]). call_ok api rl' c"
    using p by (intro all_update) (auto simp: call_ok_def rl')
  moreover have "fresh_asked api rl i (answers i (cs[k := Answered t ok])) (rl_objects rl' q)"
    if "rl_limiters rl i = Some q" for i q
  proof (cases "i = tID t")
    case True
    with that p inv show ?thesis by (auto simp: rl' k answers_update rl_inv_def intro: fresh_asked_Suc)
  next
    case False
    then have "q \<noteq> p" using that p inv by (auto simp: rl_inv_def inj_on_def dom_def)
    with False that inv show ?thesis by (auto simp: rl' k answers_update rl_inv_def)
  qed
  ultimately show ?thesis
    using inv by (auto simp: rl_inv_def rl' fresh_asked_def intro: candidates_update)
qed

lemma rl_inv_step: "rl_step api s s' \<Longrightarrow> rl_inv api s \<Longrightarrow> rl_inv api s'"
proof (induction rule: rl_step.induct)
  case (call rl cs t)
  then show ?case by (auto simp: rl_inv_def call_ok_def intro: candidates_append)
next
  case (hit k cs t rl p)
  moreover have "call_ok api rl (Holding t p)" using hit(3) by (simp add: call_ok_def load_limiter_def)
  ultimately show ?case
    using all_update [of cs "call_ok api rl" "Holding t p" k]
    by (auto simp: rl_inv_def answers_update intro: candidates_update)
next
  case (miss k cs t rl)
  moreover have "call_ok api rl (Missed t)" by (simp add: call_ok_def)
  ultimately show ?case
    using all_update [of cs "call_ok api rl" "Missed t" k]
    by (auto simp: rl_inv_def answers_update intro: candidates_update)
qed (blast intro: rl_inv_build rl_inv_store rl_inv_allow)+

lemma rl_inv_reachable: "(rl_step api)\<^sup>*\<^sup>* (NewTenantRateLimiter f burst mem, []) s \<Longrightarrow> rl_inv api s"
  by (induction rule: rtranclp_induct) (auto intro: rl_inv_step rl_inv_new)

lemma rl_step_params:
  "rl_step api s s' \<Longrightarrow> rl_limitFunc (fst s') = rl_limitFunc (fst s) \<and> rl_burst (fst s') = rl_burst (fst s)"
  by (induction rule: rl_step.induct)
    (auto simp: build_limiter_def loadOrStore_limiter_def limiter_Allow_def Let_def split: option.splits prod.splits)

lemma rl_params_reachable:
  assumes "(rl_step api)\<^sup>*\<^sup>* (NewTenantRateLimiter f burst mem, []) s"
  shows "rl_limitFunc (fst s) = f \<and> rl_burst (fst s) = burst"
  using assms by (induction rule: rtranclp_induct) (auto simp: NewTenantRateLimiter_def dest: rl_step_params)

text \<open>
  C19. One limiter per tenant, whatever the interleaving. In every state that any number of
  concurrent \<^verbatim>\<open>Allow\<close> calls can reach from a new limiter: all goroutines that hold a limiter
  for tenants of one identifier hold the same one, those of different identifiers hold
  different ones; and that limiter is exactly a new limiter, with the limit of a tenant of
  that identifier and the common burst, asked once for each call answered for the identifier.
  So the quota of a tenant is neither shared with another tenant nor multiplied by a race
  on its first request.
\<close>

theorem one_limiter_per_tenant:
  assumes "(rl_step api)\<^sup>*\<^sup>* (NewTenantRateLimiter f burst mem, []) (rl, cs)"
    and "Holding t p \<in> set cs" and "Holding t' p' \<in> set cs"
  shows "(p = p' \<longleftrightarrow> tID t = tID t') \<and>
    (\<exists>u ts. tID u = tID t \<and> length ts = length (filter (answered_for (tID t)) cs) \<and>
      rl_objects rl p = fold (\<lambda>now l. snd (Limiter_Allow api now l)) ts (NewLimiter api (f u) burst))"
proof -
  from rl_inv_reachable [OF assms(1)] have inj: "inj_on (rl_limiters rl) (dom (rl_limiters rl))"
    and ok: "\<forall>c \<in> set cs. call_ok api rl c"
    and objs: "\<forall>i q. rl_limiters rl i = Some q \<longrightarrow> fresh_asked api rl i (answers i cs) (rl_objects rl q)"
    by (auto simp: rl_inv_def)
  from ok assms(2,3) have p: "rl_limiters rl (tID t) = Some p" "rl_limiters rl (tID t') = Some p'"
    by (fastforce simp: call_ok_def)+
  from p inj have "p = p' \<longleftrightarrow> tID t = tID t'" by (auto simp: inj_on_def dom_def)
  moreover from objs p(1) have "fresh_asked api rl (tID t) (answers (tID t) cs) (rl_objects rl p)" by blast
  ultimately show ?thesis
    using rl_params_reachable [OF assms(1)] by (auto simp: fresh_asked_def answers_def asked_def)
qed

text \<open>Two goroutines race on the first request of a tenant; the limiter counts its calls.\<close>

definition demo_rate :: "(int, int) rate_api" where
  "demo_rate = \<lparr>NewLimiter = (\<lambda>q burst. burst), Limiter_Allow = (\<lambda>now l. (0 < l, l - 1))\<rparr>"

lemma racing_run:
  fixes t :: Tenant
  shows "\<exists>rl. (rl_step demo_rate)\<^sup>*\<^sup>* (NewTenantRateLimiter (\<lambda>_. 1) 3 (\<lambda>_. 0), []) (rl, [Holding t 0, Holding t 0])"
proof -
  let ?step = "rl_step demo_rate"
  let ?rl0 = "NewTenantRateLimiter (\<lambda>_. 1) 3 (\<lambda>_. 0) :: (int, int) TenantRateLimiter"
  obtain rl1 where b1: "build_limiter demo_rate t ?rl0 = (0, rl1)" and f1: "rl_limiters rl1 = Map.empty" "rl_next rl1 = 1"
    by (simp add: build_limiter_def NewTenantRateLimiter_def)
  obtain rl2 where b2: "build_limiter demo_rate t rl1 = (1, rl2)" and f2: "rl_limiters rl2 = Map.empty"
    using f1 by (simp add: build_limiter_def)
  obtain rl3 where b3: "loadOrStore_limiter t 0 rl2 = (0, rl3)" and f3: "rl_limiters rl3 (tID t) = Some 0"
    using f2 by (simp add: loadOrStore_limiter_def)
  have b4: "loadOrStore_limiter t 1 rl3 = (0, rl3)" using f3 by (simp add: loadOrStore_limiter_def)
  have none: "load_limiter ?rl0 t = None" by (simp add: load_limiter_def NewTenantRateLimiter_def)
  have "?step\<^sup>*\<^sup>* (?rl0, []) (?rl0, [Calling t, Calling t])"
    using rl_step.call [of demo_rate ?rl0 "[]" t] rl_step.call [of demo_rate ?rl0 "[Calling t]" t] by simp
  moreover have "?step (?rl0, [Calling t, Calling t]) (?rl0, [Missed t, Calling t])"
    using rl_step.miss [of 0 "[Calling t, Calling t]" t ?rl0] none by simp
  moreover have "?step (?rl0, [Missed t, Calling t]) (?rl0, [Missed t, Missed t])"
    using rl_step.miss [of 1 "[Missed t, Calling t]" t ?rl0] none by simp
  moreover have "?step (?rl0, [Missed t, Missed t]) (rl1, [Built t 0, Missed t])"
    using rl_step.build [of 0 "[Missed t, Missed t]" t] b1 by simp
  moreover have "?step (rl1, [Built t 0, Missed t]) (rl2, [Built t 0, Built t 1])"
    using rl_step.build [of 1 "[Built t 0, Missed t]" t] b2 by simp
  moreover have "?step (rl2, [Built t 0, Built t 1]) (rl3, [Holding t 0, Built t 1])"
    using rl_step.store [of 0 "[Built t 0, Built t 1]" t 0] b3 by simp
  moreover have "?step (rl3, [Holding t 0, Built t 1]) (rl3, [Holding t 0, Holding t 0])"
    using rl_step.store [of 1 "[Holding t 0, Built t 1]" t 1] b4 by simp
  ultimately show ?thesis by (meson rtranclp.rtrancl_into_rtrancl)
qed

theorem one_limiter_per_tenant_witness:
  "\<exists>rl. (rl_step demo_rate)\<^sup>*\<^sup>* (NewTenantRateLimiter (\<lambda>_. 1) 3 (\<lambda>_. 0), [])
     (rl, [Holding \<lparr>tID = ''acme'', tState = Active, tRoles = []\<rparr> 0,
           Holding \<lparr>tID = ''acme'', tState = Active, tRoles = []\<rparr> 0]) \<and> rl_objects rl 0 = 3"
proof -
  let ?t = "\<lparr>tID = ''acme'', tState = Active, tRoles = []\<rparr>"
  from racing_run [of ?t] obtain rl where
    run: "(rl_step demo_rate)\<^sup>*\<^sup>* (NewTenantRateLimiter (\<lambda>_. 1) 3 (\<lambda>_. 0), []) (rl, [Holding ?t 0, Holding ?t 0])"
    by blast
  from one_limiter_per_tenant [OF run, of ?t 0 ?t 0] run show ?thesis by (auto simp: demo_rate_def)
qed

end
