(* ===== verification/Rate_Isolation.thy ===== *)
theory Rate_Isolation
  imports Rate_Limiter
begin

text \<open>
  The interface \<^verbatim>\<open>RateLimiter\<close> (\<^verbatim>\<open>src/ratelimit/ratelimit.go\<close>) and what an application relies on
  when it puts one in front of its tenants: a tenant's answers depend on that tenant's calls
  only. The contract is a locale, and the limiter in process memory interprets it. (For the
  limiter in Redis, the quota theorem of \<open>Redis_Rate_Limiter\<close> says the same of its windows.)
\<close>

section \<open>The interface\<close>

text \<open>Its one method; the limiter's state and the clock are explicit.\<close>

type_synonym 's RateLimiter = "Tenant \<Rightarrow> Time \<Rightarrow> 's \<Rightarrow> bool \<times> 's"

definition TenantRateLimiter_RateLimiter :: "('q, 'l) rate_api \<Rightarrow> ('q, 'l) TenantRateLimiter RateLimiter" where
  "TenantRateLimiter_RateLimiter api t now rl = TenantRateLimiter_Allow api now t rl"

text \<open>The answers to a sequence of calls, each with the tenant it was given to.\<close>

fun answers_to :: "'s RateLimiter \<Rightarrow> (Tenant \<times> Time) list \<Rightarrow> 's \<Rightarrow> (TenantID \<times> bool) list" where
  "answers_to allow [] s = []"
| "answers_to allow ((t, now) # cs) s = (let (ok, s') = allow t now s in (tID t, ok) # answers_to allow cs s')"

text \<open>
  The contract: \<open>quota i\<close> is what the limiter keeps for a tenant. It alone decides about the
  tenant's next call, and calls of others leave it as it is.
\<close>

locale isolated_rate_limiter =
  fixes allow :: "'s RateLimiter" and good :: "'s \<Rightarrow> bool" and quota :: "TenantID \<Rightarrow> 's \<Rightarrow> 'v"
  assumes keeps: "good s \<Longrightarrow> good (snd (allow t now s))"
    and own_answer: "good s \<Longrightarrow> good s' \<Longrightarrow> quota (tID t) s = quota (tID t) s' \<Longrightarrow> fst (allow t now s) = fst (allow t now s')"
    and own_quota: "good s \<Longrightarrow> good s' \<Longrightarrow> quota (tID t) s = quota (tID t) s' \<Longrightarrow>
      quota (tID t) (snd (allow t now s)) = quota (tID t) (snd (allow t now s'))"
    and others: "good s \<Longrightarrow> i \<noteq> tID t \<Longrightarrow> quota i (snd (allow t now s)) = quota i s"
begin

lemma noninterference:
  assumes "good s" and "good s'" and "quota i s = quota i s'"
  shows "filter (\<lambda>a. fst a = i) (answers_to allow cs s) = answers_to allow (filter (\<lambda>c. tID (fst c) = i) cs) s'"
  using assms
proof (induction cs arbitrary: s s')
  case (Cons c cs)
  obtain t now where c: "c = (t, now)" by fastforce
  obtain ok s1 where one: "allow t now s = (ok, s1)" by fastforce
  have s1: "good s1" using keeps [OF Cons.prems(1), of t now] one by simp
  show ?case
  proof (cases "tID t = i")
    case True
    obtain ok' s2 where two: "allow t now s' = (ok', s2)" by fastforce
    have s2: "good s2" using keeps [OF Cons.prems(2), of t now] two by simp
    have "ok = ok'" and "quota i s1 = quota i s2"
      using own_answer [OF Cons.prems(1,2), of t now] own_quota [OF Cons.prems(1,2), of t now] Cons.prems(3) True one two
      by simp_all
    with Cons.IH [OF s1 s2] True show ?thesis by (simp add: c one two)
  next
    case False
    have "quota i s1 = quota i s'" using others [OF Cons.prems(1), of i t now] False one Cons.prems(3) by simp
    with Cons.IH [OF s1 Cons.prems(2)] False show ?thesis by (simp add: c one)
  qed
qed simp

end

section \<open>In process memory\<close>

text \<open>The limiters are allocated, and no two tenants have the same one.\<close>

definition limiters_ok :: "('q, 'l) TenantRateLimiter \<Rightarrow> bool" where
  "limiters_ok rl \<longleftrightarrow> inj_on (rl_limiters rl) (dom (rl_limiters rl)) \<and> ran (rl_limiters rl) \<subseteq> {..<rl_next rl}"

definition local_quota :: "TenantID \<Rightarrow> ('q, 'l) TenantRateLimiter \<Rightarrow> 'q Rate_Limiter.LimitFunc \<times> int \<times> 'l option" where
  "local_quota i rl = (rl_limitFunc rl, rl_burst rl, map_option (rl_objects rl) (rl_limiters rl i))"

text \<open>A call in one piece: the tenant's limiter, a new one at first, is asked.\<close>

definition current_limiter :: "('q, 'l) rate_api \<Rightarrow> ('q, 'l) TenantRateLimiter \<Rightarrow> Tenant \<Rightarrow> 'l" where
  "current_limiter api rl t = (case rl_limiters rl (tID t) of Some p \<Rightarrow> rl_objects rl p
     | None \<Rightarrow> NewLimiter api (rl_limitFunc rl t) (rl_burst rl))"

lemma Allow_eq:
  assumes "limiters_ok rl"
  shows "fst (TenantRateLimiter_Allow api now t rl) = fst (Limiter_Allow api now (current_limiter api rl t))"
    and "limiters_ok (snd (TenantRateLimiter_Allow api now t rl))"
    and "local_quota i (snd (TenantRateLimiter_Allow api now t rl)) =
      (if i = tID t then (rl_limitFunc rl, rl_burst rl, Some (snd (Limiter_Allow api now (current_limiter api rl t)))) else local_quota i rl)"
proof -
  note unfold = TenantRateLimiter_Allow_def TenantRateLimiter_getLimiter_def load_limiter_def build_limiter_def
    loadOrStore_limiter_def limiter_Allow_def Let_def
  have apart: "rl_limiters rl i \<noteq> Some p" if "rl_limiters rl (tID t) = Some p" "i \<noteq> tID t" for i p
    using assms(1) that unfolding limiters_ok_def inj_on_def by (metis domI)
  have low: "p < rl_next rl" if "rl_limiters rl i = Some p" for i p
    using assms(1) that by (auto simp: limiters_ok_def dest: ranI)
  show "fst (TenantRateLimiter_Allow api now t rl) = fst (Limiter_Allow api now (current_limiter api rl t))"
    by (auto simp: unfold current_limiter_def split: option.splits prod.splits)
  show "local_quota i (snd (TenantRateLimiter_Allow api now t rl)) =
      (if i = tID t then (rl_limitFunc rl, rl_burst rl, Some (snd (Limiter_Allow api now (current_limiter api rl t)))) else local_quota i rl)"
    using apart [of _ i] low [of i]
    by (cases "rl_limiters rl i") (auto simp: unfold current_limiter_def local_quota_def split: option.splits prod.splits)
  have "inj_on ((rl_limiters rl)(tID t \<mapsto> rl_next rl)) (dom ((rl_limiters rl)(tID t \<mapsto> rl_next rl)))"
    if "rl_limiters rl (tID t) = None"
    using assms(1) low that by (fastforce simp: limiters_ok_def inj_on_def)
  with assms(1) low show "limiters_ok (snd (TenantRateLimiter_Allow api now t rl))"
    by (auto simp: unfold limiters_ok_def ran_def less_Suc_eq split: option.splits prod.splits)
qed

interpretation local_limiter: isolated_rate_limiter "TenantRateLimiter_RateLimiter api" limiters_ok local_quota
  for api :: "('q, 'l) rate_api"
proof unfold_locales
  fix s s' :: "('q, 'l) TenantRateLimiter" and t now i
  show "limiters_ok s \<Longrightarrow> limiters_ok (snd (TenantRateLimiter_RateLimiter api t now s))"
    by (simp add: TenantRateLimiter_RateLimiter_def Allow_eq(2))
  show "limiters_ok s \<Longrightarrow> i \<noteq> tID t \<Longrightarrow> local_quota i (snd (TenantRateLimiter_RateLimiter api t now s)) = local_quota i s"
    by (simp add: TenantRateLimiter_RateLimiter_def Allow_eq(3))
  assume ok: "limiters_ok s" "limiters_ok s'" and eq: "local_quota (tID t) s = local_quota (tID t) s'"
  have "current_limiter api s t = current_limiter api s' t"
    using eq by (auto simp: local_quota_def current_limiter_def split: option.splits)
  moreover have "rl_limitFunc s = rl_limitFunc s'" "rl_burst s = rl_burst s'"
    using eq by (simp_all add: local_quota_def)
  ultimately show "fst (TenantRateLimiter_RateLimiter api t now s) = fst (TenantRateLimiter_RateLimiter api t now s')"
    and "local_quota (tID t) (snd (TenantRateLimiter_RateLimiter api t now s)) =
      local_quota (tID t) (snd (TenantRateLimiter_RateLimiter api t now s'))"
    by (simp_all add: TenantRateLimiter_RateLimiter_def Allow_eq [OF ok(1)] Allow_eq [OF ok(2)])
qed

text \<open>
  C20. No noisy neighbour. For every limit function, burst and limiter of the library, and every
  sequence of calls of \<^verbatim>\<open>Allow\<close> on a new \<^verbatim>\<open>TenantRateLimiter\<close>: the answers a tenant receives are
  exactly those it would receive if the calls of all other tenants were not made.
\<close>

theorem rate_limit_noninterference:
  "filter (\<lambda>a. fst a = i) (answers_to (TenantRateLimiter_RateLimiter api) cs (NewTenantRateLimiter f burst mem)) =
     answers_to (TenantRateLimiter_RateLimiter api) (filter (\<lambda>c. tID (fst c) = i) cs) (NewTenantRateLimiter f burst mem)"
  by (rule local_limiter.noninterference) (simp_all add: limiters_ok_def NewTenantRateLimiter_def)

end
