(* ===== verification/Redis_Rate_Limiter.thy ===== *)
theory Redis_Rate_Limiter
  imports Tenant "HOL-Library.Signed_Division"
begin

text \<open>
  The distributed rate limiter (\<^verbatim>\<open>src/ratelimit/redis/redis.go\<close>): a fixed window counter in
  Redis. The Lua script is part of the repository and is modelled; the commands it calls and
  the client that runs it are not: \<^verbatim>\<open>INCR\<close> and \<^verbatim>\<open>PEXPIRE\<close> are arguments, with what Redis documents
  of them as a named hypothesis, and so is the round-trip that runs the script.
\<close>

section \<open>Operations\<close>

datatype FailurePolicy = FailOpen | FailClosed | OtherPolicy int

definition FailurePolicy_String :: "FailurePolicy \<Rightarrow> string" where
  "FailurePolicy_String p = (case p of FailOpen \<Rightarrow> ''fail-open'' | FailClosed \<Rightarrow> ''fail-closed'' | OtherPolicy n \<Rightarrow> ''unknown'')"

type_synonym LimitFunc = "Tenant \<Rightarrow> int \<times> Duration"

record 'r redis_api =
  redis_INCR :: "string \<Rightarrow> Time \<Rightarrow> 'r \<Rightarrow> int \<times> 'r"
  redis_PEXPIRE :: "string \<Rightarrow> int \<Rightarrow> Time \<Rightarrow> 'r \<Rightarrow> 'r"
  redis_Run :: "('r \<Rightarrow> int \<times> 'r) \<Rightarrow> ('r, int) call"

record 'r RedisRateLimiter =
  rrl_client :: "'r redis_api"
  rrl_limitFunc :: LimitFunc
  rrl_failurePolicy :: FailurePolicy

type_synonym 'r Option = "'r RedisRateLimiter \<Rightarrow> 'r RedisRateLimiter"

definition WithFailurePolicy :: "FailurePolicy \<Rightarrow> 'r Option" where
  "WithFailurePolicy p rl = rl\<lparr>rrl_failurePolicy := p\<rparr>"

definition RedisRateLimiter_New :: "'r redis_api \<Rightarrow> LimitFunc \<Rightarrow> 'r Option list \<Rightarrow> 'r RedisRateLimiter" where
  "RedisRateLimiter_New client limitFunc opts =
     foldl (\<lambda>rl opt. opt rl) \<lparr>rrl_client = client, rrl_limitFunc = limitFunc, rrl_failurePolicy = FailOpen\<rparr> opts"

text \<open>The script, line by line; \<open>at\<close> is the time of Redis's clock at which it runs.\<close>

definition allowScript :: "'r redis_api \<Rightarrow> string \<Rightarrow> int \<Rightarrow> int \<Rightarrow> Time \<Rightarrow> 'r \<Rightarrow> int \<times> 'r" where
  "allowScript api key ms limit at r =
     (let (current, r) = redis_INCR api key at r;
          r = (if current = 1 then redis_PEXPIRE api key ms at r else r)
      in if current > limit then (0, r) else (1, r))"

text \<open>
  \<^verbatim>\<open>Time.Truncate\<close> rounds down to a multiple of the duration since the zero time, and returns
  the time itself for a duration that is not positive; instants are counted from the zero
  time here, and \<^verbatim>\<open>UnixNano\<close> is the 64-bit count of nanoseconds since 1970.
\<close>

definition Time_Truncate :: "Time \<Rightarrow> Duration \<Rightarrow> Time" where
  "Time_Truncate t d = (if sint d \<le> 0 then t else Time (nanos t - nanos t mod sint d))"

definition unix_epoch :: int where
  "unix_epoch = 62135596800 * 10 ^ 9"

definition Time_UnixNano :: "Time \<Rightarrow> int" where
  "Time_UnixNano t = sint (word_of_int (nanos t - unix_epoch) :: int64)"

definition Duration_Milliseconds :: "Duration \<Rightarrow> int" where
  "Duration_Milliseconds d = sint d sdiv 1000000"

definition window_key :: "TenantID \<Rightarrow> Time \<Rightarrow> string" where
  "window_key i windowStart = ''ratelimit:'' @ i @ '':'' @ itoa (Time_UnixNano windowStart)"

text \<open>\<open>now\<close> is the reading of the caller's clock, \<open>at\<close> that of Redis's clock.\<close>

definition RedisRateLimiter_Allow :: "'r RedisRateLimiter \<Rightarrow> Tenant \<Rightarrow> Time \<Rightarrow> Time \<Rightarrow> 'r \<Rightarrow> bool \<times> 'r" where
  "RedisRateLimiter_Allow rl t now at r =
     (let (limit, window) = rrl_limitFunc rl t;
          windowStart = Time_Truncate now window;
          key = window_key (tID t) windowStart
      in case redis_Run (rrl_client rl)
                (allowScript (rrl_client rl) key (Duration_Milliseconds window) limit at) r of
           (Inl err, r') \<Rightarrow> (rrl_failurePolicy rl = FailOpen, r')
         | (Inr result, r') \<Rightarrow> (result = 1, r'))"

section \<open>Keys\<close>

lemma itoa_inject: "itoa m = itoa n \<longleftrightarrow> m = n" if "- (2 ^ 63) \<le> m" "m < 2 ^ 63" "- (2 ^ 63) \<le> n" "n < 2 ^ 63"
  using strconv_Atoi_itoa [OF that(1,2)] strconv_Atoi_itoa [OF that(3,4)] by (metis sum.inject(2))

lemma UnixNano_range: "- (2 ^ 63) \<le> Time_UnixNano t" "Time_UnixNano t < 2 ^ 63"
  using sint_greater_eq [of "word_of_int (nanos t - unix_epoch) :: int64"]
    sint_less [of "word_of_int (nanos t - unix_epoch) :: int64"]
  by (simp_all add: Time_UnixNano_def)

lemma window_key_inject:
  "window_key i s = window_key j s' \<longleftrightarrow> i = j \<and> Time_UnixNano s = Time_UnixNano s'"
  using append_sep_inject [OF itoa_no_colon itoa_no_colon, of i "Time_UnixNano s" j "Time_UnixNano s'"]
    itoa_inject [OF UnixNano_range [of s] UnixNano_range [of s']]
  by (simp add: window_key_def)

section \<open>The quota\<close>

text \<open>
  What Redis documents, with \<open>holds r k u\<close> the number a client would read at the key \<open>k\<close> at the
  time \<open>u\<close> of Redis's clock if no command ran in the meantime, and \<^term>\<open>None\<close> when the key is absent
  or has expired by then. \<^verbatim>\<open>INCR\<close> adds one and returns the sum, and keeps the deadline of a key that
  has one; an absent key starts at one without a deadline. \<^verbatim>\<open>PEXPIRE\<close> replaces the deadline: the
  key is gone that many milliseconds later, at once for a time that is not positive. Other keys
  are not touched, and a script runs as a whole, at one time.
\<close>

definition redis_documented :: "'r redis_api \<Rightarrow> ('r \<Rightarrow> string \<Rightarrow> Time \<Rightarrow> int option) \<Rightarrow> bool" where
  "redis_documented api holds \<longleftrightarrow>
     (\<forall>k a r. case redis_INCR api k a r of (n, r') \<Rightarrow>
        n = (case holds r k a of None \<Rightarrow> 1 | Some v \<Rightarrow> v + 1) \<and>
        (\<forall>u \<ge> a. holds r' k u =
           (if holds r k a = None then Some 1 else map_option (\<lambda>v. v + 1) (holds r k u)) \<and>
           (\<forall>k'. k' \<noteq> k \<longrightarrow> holds r' k' u = holds r k' u))) \<and>
     (\<forall>k ms a r. \<forall>u \<ge> a.
        holds (redis_PEXPIRE api k ms a r) k u = (if nanos u < nanos a + ms * 10 ^ 6 then holds r k a else None) \<and>
        (\<forall>k'. k' \<noteq> k \<longrightarrow> holds (redis_PEXPIRE api k ms a r) k' u = holds r k' u)) \<and>
     (\<forall>f r. redis_Run api f r = (Inr (fst (f r)), snd (f r)))"

text \<open>
  A sequence of calls, from any number of instances, on one Redis: each with its tenant, the
  caller's clock and Redis's clock when the script runs.
\<close>

type_synonym allow_call = "Tenant \<times> Time \<times> Time"

abbreviation call_at :: "allow_call \<Rightarrow> Time" where
  "call_at c \<equiv> snd (snd c)"

fun allow_calls :: "'r RedisRateLimiter \<Rightarrow> allow_call list \<Rightarrow> 'r \<Rightarrow> bool list \<times> 'r" where
  "allow_calls rl [] r = ([], r)"
| "allow_calls rl ((t, now, at) # cs) r =
     (let (ok, r') = RedisRateLimiter_Allow rl t now at r; (oks, r'') = allow_calls rl cs r' in (ok # oks, r''))"

definition call_limit :: "'r RedisRateLimiter \<Rightarrow> allow_call \<Rightarrow> int" where
  "call_limit rl c = fst (rrl_limitFunc rl (fst c))"

definition call_length :: "'r RedisRateLimiter \<Rightarrow> allow_call \<Rightarrow> Duration" where
  "call_length rl c = snd (rrl_limitFunc rl (fst c))"

definition call_window :: "'r RedisRateLimiter \<Rightarrow> allow_call \<Rightarrow> TenantID \<times> int" where
  "call_window rl c = (tID (fst c), Time_UnixNano (Time_Truncate (fst (snd c)) (call_length rl c)))"

definition call_key :: "'r RedisRateLimiter \<Rightarrow> allow_call \<Rightarrow> string" where
  "call_key rl c = window_key (tID (fst c)) (Time_Truncate (fst (snd c)) (call_length rl c))"

lemma call_key_eq: "call_key rl c = call_key rl c' \<longleftrightarrow> call_window rl c = call_window rl c'"
  by (simp add: call_key_def call_window_def window_key_inject)

text \<open>
  The conditions under which a counter outlives its window: every window is a positive whole
  number of milliseconds, and a call reaches Redis less than one window's length after every
  earlier call that is counted in the same window.
\<close>

definition whole_milliseconds :: "'r RedisRateLimiter \<Rightarrow> bool" where
  "whole_milliseconds rl \<longleftrightarrow> (\<forall>t. 0 < sint (snd (rrl_limitFunc rl t)) \<and> sint (snd (rrl_limitFunc rl t)) mod 10 ^ 6 = 0)"

definition within_window :: "'r RedisRateLimiter \<Rightarrow> allow_call \<Rightarrow> allow_call \<Rightarrow> bool" where
  "within_window rl c c' \<longleftrightarrow> (call_window rl c' = call_window rl c \<longrightarrow>
     nanos (call_at c') < nanos (call_at c) + sint (call_length rl c))"

lemma whole_milliseconds_exact:
  assumes "whole_milliseconds rl"
  shows "Duration_Milliseconds (call_length rl c) * 10 ^ 6 = sint (call_length rl c)"
proof -
  let ?d = "sint (call_length rl c)"
  have "0 < ?d" and "?d mod 10 ^ 6 = 0" using assms by (auto simp: whole_milliseconds_def call_length_def)
  then show ?thesis using div_mult_mod_eq [of ?d "10 ^ 6"] by (simp add: Duration_Milliseconds_def signed_divide_int_def)
qed

text \<open>One call: what it answers, and what Redis holds from then on.\<close>

definition count_at :: "('r \<Rightarrow> string \<Rightarrow> Time \<Rightarrow> int option) \<Rightarrow> 'r \<Rightarrow> string \<Rightarrow> Time \<Rightarrow> int" where
  "count_at holds r k u = (case holds r k u of None \<Rightarrow> 0 | Some v \<Rightarrow> v)"

lemma Allow_effect:
  assumes doc: "redis_documented (rrl_client rl) holds"
    and run: "RedisRateLimiter_Allow rl t now at r = (ok, r')"
  defines "c \<equiv> (t, now, at)" and "k \<equiv> call_key rl (t, now, at)"
  shows "ok \<longleftrightarrow> count_at holds r k at < call_limit rl c"
    and "at \<le> u \<Longrightarrow> holds r' k u =
      (if count_at holds r k at = 0
       then (if nanos u < nanos at + Duration_Milliseconds (call_length rl c) * 10 ^ 6 then Some 1 else None)
       else map_option (\<lambda>v. v + 1) (holds r k u))"
    and "at \<le> u \<Longrightarrow> k' \<noteq> k \<Longrightarrow> holds r' k' u = holds r k' u"
proof -
  obtain limit window where lw: "rrl_limitFunc rl t = (limit, window)" by fastforce
  obtain cur r1 where inc: "redis_INCR (rrl_client rl) k at r = (cur, r1)" by fastforce
  note incr = doc [unfolded redis_documented_def, THEN conjunct1, THEN spec [where x = k],
      THEN spec [where x = at], THEN spec [where x = r], unfolded inc prod.case]
  from incr have cur: "cur = count_at holds r k at + 1"
    and r1: "\<And>u. at \<le> u \<Longrightarrow> holds r1 k u = (if holds r k at = None then Some 1 else map_option (\<lambda>v. v + 1) (holds r k u))"
    and frame1: "\<And>u k'. at \<le> u \<Longrightarrow> k' \<noteq> k \<Longrightarrow> holds r1 k' u = holds r k' u"
    by (simp_all add: inc count_at_def split: option.split)
  let ?ms = "Duration_Milliseconds window"
  let ?r2 = "redis_PEXPIRE (rrl_client rl) k ?ms at r1"
  have "redis_Run (rrl_client rl) f r = (Inr (fst (f r)), snd (f r))" for f
    using doc by (simp add: redis_documented_def)
  with run inc have ok: "ok = (cur \<le> limit)" and r': "r' = (if cur = 1 then ?r2 else r1)"
    by (auto simp: RedisRateLimiter_Allow_def lw allowScript_def k_def call_key_def call_length_def Let_def split: if_splits)
  note docs = doc [unfolded redis_documented_def, THEN conjunct2, THEN conjunct1, rule_format]
  have pexpire: "holds ?r2 k u = (if nanos u < nanos at + ?ms * 10 ^ 6 then holds r1 k at else None)"
    and frame2: "k' \<noteq> k \<Longrightarrow> holds ?r2 k' u = holds r1 k' u" if "at \<le> u" for u k'
    using docs [OF that] by simp_all
  show "ok \<longleftrightarrow> count_at holds r k at < call_limit rl c"
    using ok cur by (auto simp: call_limit_def lw c_def)
  show "holds r' k u = (if count_at holds r k at = 0
       then (if nanos u < nanos at + Duration_Milliseconds (call_length rl c) * 10 ^ 6 then Some 1 else None)
       else map_option (\<lambda>v. v + 1) (holds r k u))" if "at \<le> u"
    using that r' cur r1 [OF that] r1 [of at] pexpire [OF that]
    by (auto simp: call_length_def lw c_def count_at_def split: option.splits)
  show "holds r' k' u = holds r k' u" if "at \<le> u" "k' \<noteq> k"
    using that r' frame1 frame2 by simp
qed

text \<open>
  The counters after some calls: a key without calls is absent, and a key with calls holds their
  number until the deadline that its first call set.
\<close>

definition counted ::
  "'r RedisRateLimiter \<Rightarrow> ('r \<Rightarrow> string \<Rightarrow> Time \<Rightarrow> int option) \<Rightarrow> allow_call list \<Rightarrow> 'r \<Rightarrow> Time \<Rightarrow> bool" where
  "counted rl holds ps r a \<longleftrightarrow> (\<forall>k. \<forall>u \<ge> a. holds r k u =
     (case filter (\<lambda>c. call_key rl c = k) ps of
        [] \<Rightarrow> None
      | c # cs \<Rightarrow> (if nanos u < nanos (call_at c) + sint (call_length rl c) then Some (1 + int (length cs)) else None)))"

lemma counted_value:
  assumes "counted rl holds ps r a" and "a \<le> call_at c" and "\<forall>p \<in> set ps. within_window rl p c"
  shows "count_at holds r (call_key rl c) (call_at c) = int (length (filter (\<lambda>p. call_key rl p = call_key rl c) ps))"
proof (cases "filter (\<lambda>p. call_key rl p = call_key rl c) ps")
  case (Cons p qs)
  then have "p \<in> set ps" "call_key rl p = call_key rl c" by (auto simp: filter_eq_Cons_iff)
  with assms(3) have "nanos (call_at c) < nanos (call_at p) + sint (call_length rl p)"
    by (auto simp: within_window_def call_key_eq)
  with assms(1,2) Cons show ?thesis by (simp add: counted_def count_at_def)
qed (use assms(1,2) in \<open>simp add: counted_def count_at_def\<close>)

lemma Allow_counted:
  assumes doc: "redis_documented (rrl_client rl) holds" and ms: "whole_milliseconds rl"
    and inv: "counted rl holds ps r a" and "a \<le> at" and near: "\<forall>p \<in> set ps. within_window rl p (t, now, at)"
    and run: "RedisRateLimiter_Allow rl t now at r = (ok, r')"
  shows "ok \<longleftrightarrow> int (length (filter (\<lambda>p. call_window rl p = call_window rl (t, now, at)) ps)) < call_limit rl (t, now, at)"
    and "counted rl holds (ps @ [(t, now, at)]) r' at"
proof -
  let ?c = "(t, now, at)"
  let ?k = "call_key rl ?c"
  let ?own = "filter (\<lambda>p. call_key rl p = ?k) ps"
  have n: "count_at holds r ?k at = int (length ?own)"
    using counted_value [OF inv, of ?c] assms(4) near by simp
  note eff = Allow_effect [OF doc run]
  have "(call_key rl p = ?k) = (call_window rl p = call_window rl ?c)" for p by (rule call_key_eq)
  with eff(1) n show "ok \<longleftrightarrow> int (length (filter (\<lambda>p. call_window rl p = call_window rl ?c) ps)) < call_limit rl ?c"
    by simp
  have "holds r' k u = (case filter (\<lambda>p. call_key rl p = k) (ps @ [?c]) of [] \<Rightarrow> None
      | c # cs \<Rightarrow> (if nanos u < nanos (call_at c) + sint (call_length rl c) then Some (1 + int (length cs)) else None))"
    if u: "at \<le> u" for k u
  proof (cases "k = ?k")
    case True
    have old: "holds r ?k u = (case ?own of [] \<Rightarrow> None
      | c # cs \<Rightarrow> (if nanos u < nanos (call_at c) + sint (call_length rl c) then Some (1 + int (length cs)) else None))"
      using inv u assms(4) unfolding counted_def by (meson order_trans)
    show ?thesis
      using eff(2) [OF u] n old whole_milliseconds_exact [OF ms, of ?c] True by (cases ?own) simp_all
  next
    case False
    then show ?thesis using eff(3) [OF u False] inv u assms(4) by (auto simp: counted_def)
  qed
  then show "counted rl holds (ps @ [?c]) r' at" by (simp add: counted_def)
qed

lemma allow_calls_quota:
  assumes doc: "redis_documented (rrl_client rl) holds" and ms: "whole_milliseconds rl"
    and "counted rl holds ps r a" and "sorted (a # map call_at cs)"
    and "sorted_wrt (within_window rl) (ps @ cs)" and "allow_calls rl cs r = (oks, r')"
  shows "length oks = length cs \<and> (\<forall>j < length cs. oks ! j \<longleftrightarrow>
      int (length (filter (\<lambda>c. call_window rl c = call_window rl (cs ! j)) (ps @ take j cs))) < call_limit rl (cs ! j))"
  using assms(3-6)
proof (induction cs arbitrary: ps r a oks)
  case (Cons c cs)
  obtain t now at where c: "c = (t, now, at)" by (metis surj_pair)
  obtain ok r1 where one: "RedisRateLimiter_Allow rl t now at r = (ok, r1)" by fastforce
  obtain oks' where rest: "allow_calls rl cs r1 = (oks', r')" and oks: "oks = ok # oks'"
    using Cons.prems(4) c one by (auto split: prod.splits)
  have at: "a \<le> at" "sorted (at # map call_at cs)" using Cons.prems(2) by (simp_all add: c)
  have near: "\<forall>p \<in> set ps. within_window rl p (t, now, at)" and "sorted_wrt (within_window rl) ((ps @ [c]) @ cs)"
    using Cons.prems(3) by (simp_all add: sorted_wrt_append c)
  note now = Allow_counted [OF doc ms Cons.prems(1) at(1) near one]
  from Cons.IH [OF now(2) at(2) _ rest] \<open>sorted_wrt _ ((ps @ [c]) @ cs)\<close> now(1) show ?case
    by (auto simp: oks c less_Suc_eq_0_disj)
qed simp

text \<open>
  C18. The fixed window quota. Redis is reachable, behaves as documented, holds no counters yet,
  and its clock does not go back; every window is a positive whole number of milliseconds, and
  a call reaches Redis less than one window's length after every earlier call of the same
  window. Then in every sequence of calls, by any instances and for any tenants, a call is
  allowed exactly if fewer calls than the limit were made before it for the same tenant
  identifier in the same window. So of the calls of one tenant in one window exactly the
  first \<open>limit\<close> are allowed, and no tenant uses up the quota of another, whatever characters the
  identifiers contain.
\<close>

theorem redis_fixed_window_quota:
  assumes "redis_documented (rrl_client rl) holds" and "\<forall>k u. holds r k u = None"
    and "sorted (map call_at cs)" and "whole_milliseconds rl" and "sorted_wrt (within_window rl) cs"
    and "allow_calls rl cs r = (oks, r')" and "j < length cs"
  shows "oks ! j \<longleftrightarrow>
    int (length (filter (\<lambda>c. call_window rl c = call_window rl (cs ! j)) (take j cs))) < call_limit rl (cs ! j)"
proof -
  let ?a = "call_at (hd cs)"
  have "counted rl holds [] r ?a" using assms(2) by (simp add: counted_def)
  moreover have "sorted (?a # map call_at cs)" using assms(3,7) by (cases cs) auto
  ultimately show ?thesis using allow_calls_quota [OF assms(1,4) _ _ _ assms(6), of "[]" ?a] assms(5,7) by simp
qed

text \<open>
  When the clocks of the callers and of Redis agree, the last condition holds by itself, as long
  as the window's start fits into the 64 bits of \<^verbatim>\<open>UnixNano\<close>.
\<close>

lemma Time_UnixNano_exact:
  "\<bar>nanos t - unix_epoch\<bar> < 2 ^ 63 \<Longrightarrow> Time_UnixNano t = nanos t - unix_epoch"
  unfolding Time_UnixNano_def by (rule sint_word_of_int_64) auto

lemma Time_Truncate_bounds:
  "0 < sint d \<Longrightarrow> nanos (Time_Truncate t d) \<le> nanos t \<and> nanos t < nanos (Time_Truncate t d) + sint d"
  using pos_mod_bound [of "sint d" "nanos t"] pos_mod_sign [of "sint d" "nanos t"]
  by (simp add: Time_Truncate_def)

lemma within_window_same_clock:
  assumes "call_at c = fst (snd c)" "call_at c' = fst (snd c')"
    and "call_length rl c' = call_length rl c" "0 < sint (call_length rl c)"
    and "\<And>x. x \<in> {c, c'} \<Longrightarrow> \<bar>nanos (Time_Truncate (fst (snd x)) (call_length rl x)) - unix_epoch\<bar> < 2 ^ 63"
  shows "within_window rl c c'"
  unfolding within_window_def
proof
  let ?d = "call_length rl c"
  assume "call_window rl c' = call_window rl c"
  then have "nanos (Time_Truncate (fst (snd c')) ?d) = nanos (Time_Truncate (fst (snd c)) ?d)"
    using assms(3) Time_UnixNano_exact [OF assms(5) [of c]] Time_UnixNano_exact [OF assms(5) [of c']]
    by (simp add: call_window_def)
  with Time_Truncate_bounds [OF assms(4), of "fst (snd c)"] Time_Truncate_bounds [OF assms(4), of "fst (snd c')"]
  show "nanos (call_at c') < nanos (call_at c) + sint ?d" unfolding assms(1,2) by linarith
qed

text \<open>A Redis as a map from keys to numbers with deadlines, for the concrete instances.\<close>

type_synonym redis_map = "string \<rightharpoonup> int \<times> Time option"

definition demo_holds :: "redis_map \<Rightarrow> string \<Rightarrow> Time \<Rightarrow> int option" where
  "demo_holds r k u = (case r k of None \<Rightarrow> None
     | Some (v, d) \<Rightarrow> (case d of None \<Rightarrow> Some v | Some e \<Rightarrow> (if u < e then Some v else None)))"

definition demo_redis :: "redis_map redis_api" where
  "demo_redis = \<lparr>
     redis_INCR = (\<lambda>k a r. case demo_holds r k a of
        None \<Rightarrow> (1, r(k \<mapsto> (1, None))) | Some v \<Rightarrow> (v + 1, r(k \<mapsto> (v + 1, snd (the (r k)))))),
     redis_PEXPIRE = (\<lambda>k ms a r. case demo_holds r k a of
        None \<Rightarrow> r(k := None) | Some v \<Rightarrow> r(k \<mapsto> (v, Some (Time (nanos a + ms * 10 ^ 6))))),
     redis_Run = (\<lambda>f r. (Inr (fst (f r)), snd (f r)))\<rparr>"

lemma demo_redis_documented: "redis_documented demo_redis demo_holds"
  unfolding redis_documented_def
proof (intro conjI allI impI)
  fix k k' :: string and ms :: int and a u :: Time and r :: redis_map
  assume "a \<le> u"
  then show "demo_holds (redis_PEXPIRE demo_redis k ms a r) k u = (if nanos u < nanos a + ms * 10 ^ 6 then demo_holds r k a else None)"
    by (auto simp: demo_redis_def demo_holds_def less_Time_def split: option.splits if_splits)
  assume "k' \<noteq> k"
  then show "demo_holds (redis_PEXPIRE demo_redis k ms a r) k' u = demo_holds r k' u"
    by (auto simp: demo_redis_def demo_holds_def split: option.splits)
qed (auto simp: demo_redis_def demo_holds_def split: option.splits if_splits)

abbreviation acme :: Tenant where "acme \<equiv> \<lparr>tID = ''acme'', tState = Active, tRoles = []\<rparr>"

abbreviation acme_at :: "int \<Rightarrow> allow_call" where "acme_at n \<equiv> (acme, Time n, Time n)"

theorem redis_fixed_window_quota_witness:
  "fst (allow_calls (RedisRateLimiter_New demo_redis (\<lambda>_. (2, Second)) []) [acme_at 5, acme_at 6, acme_at 7] Map.empty) ! 2 = False"
proof -
  let ?rl = "RedisRateLimiter_New demo_redis (\<lambda>_. (2, Second)) []" and ?cs = "[acme_at 5, acme_at 6, acme_at 7]"
  obtain oks r' where run: "allow_calls ?rl ?cs Map.empty = (oks, r')" by fastforce
  have doc: "redis_documented (rrl_client ?rl) demo_holds"
    using demo_redis_documented by (simp add: RedisRateLimiter_New_def)
  have empty: "\<forall>k u. demo_holds Map.empty k u = None" by (simp add: demo_holds_def)
  have ms: "whole_milliseconds ?rl" by (simp add: whole_milliseconds_def RedisRateLimiter_New_def Second_def)
  have sorted: "sorted (map call_at ?cs)" by simp
  have near: "sorted_wrt (within_window ?rl) ?cs"
    by (simp add: within_window_def call_length_def RedisRateLimiter_New_def Second_def)
  have "call_window ?rl (acme_at n) = (''acme'', Time_UnixNano (Time 0))" if "n \<in> {5, 6, 7}" for n
    using that by (auto simp: call_window_def call_length_def RedisRateLimiter_New_def Time_Truncate_def Second_def)
  then have "\<not> oks ! 2"
    using redis_fixed_window_quota [OF doc empty sorted ms near run, of 2]
    by (simp add: call_limit_def RedisRateLimiter_New_def)
  with run show ?thesis by simp
qed

section \<open>Counters that do not last as long as their window\<close>

text \<open>
  A window of less than a millisecond is no limit at all: \<^verbatim>\<open>window.Milliseconds()\<close> is 0 for it,
  and \<^verbatim>\<open>PEXPIRE\<close> with 0 deletes the counter that was just made.
\<close>

lemma redis_submillisecond_unlimited:
  assumes "redis_documented (rrl_client rl) holds" and "\<forall>t. Duration_Milliseconds (snd (rrl_limitFunc rl t)) \<le> 0"
    and "\<forall>t. 1 \<le> fst (rrl_limitFunc rl t)" and "\<forall>k. \<forall>u \<ge> a. holds r k u = None"
    and "sorted (a # map call_at cs)" and "allow_calls rl cs r = (oks, r')"
  shows "list_all (\<lambda>ok. ok) oks"
  using assms(4-6)
proof (induction cs arbitrary: r a oks)
  case (Cons c cs)
  obtain t now at where c: "c = (t, now, at)" by (metis surj_pair)
  obtain ok r1 where one: "RedisRateLimiter_Allow rl t now at r = (ok, r1)" by fastforce
  obtain oks' where rest: "allow_calls rl cs r1 = (oks', r')" and oks: "oks = ok # oks'"
    using Cons.prems(3) c one by (auto split: prod.splits)
  note eff = Allow_effect [OF assms(1) one]
  have at: "a \<le> at" "sorted (at # map call_at cs)" using Cons.prems(2) by (simp_all add: c)
  then have none: "holds r k u = None" if "at \<le> u" for k u using Cons.prems(1) that by (meson order_trans)
  have ms: "Duration_Milliseconds (call_length rl (t, now, at)) * 10 ^ 6 \<le> 0" using assms(2) by (simp add: call_length_def)
  have "holds r1 k u = None" if "at \<le> u" for k u
  proof (cases "k = call_key rl (t, now, at)")
    case True
    have "\<not> nanos u < nanos at + Duration_Milliseconds (call_length rl (t, now, at)) * 10 ^ 6"
      using ms that by (simp add: less_eq_Time_def)
    with eff(2) [OF that] none [OF that] True show ?thesis by simp
  qed (use eff(3) [OF that] none [OF that] in simp)
  with Cons.IH [OF _ at(2) rest] have "list_all (\<lambda>ok. ok) oks'" by blast
  moreover have "0 < fst (rrl_limitFunc rl t)" using assms(3) [rule_format, of t] by linarith
  ultimately show ?case using eff(1) none [of at] by (simp add: oks call_limit_def count_at_def)
qed simp

text \<open>
  A window that is not a whole number of milliseconds loses its counter before it ends: with one
  call allowed per 1.9 milliseconds, two calls of one window, 1.2 milliseconds apart, are both
  allowed.
\<close>

lemma redis_fractional_window_overrun:
  defines "rl \<equiv> RedisRateLimiter_New demo_redis (\<lambda>_. (1, 1900000)) []"
  shows "call_window rl (acme_at 100000) = call_window rl (acme_at 1300000)"
    and "fst (allow_calls rl [acme_at 100000, acme_at 1300000] Map.empty) = [True, True]"
  by (simp_all add: rl_def call_window_def call_length_def RedisRateLimiter_Allow_def RedisRateLimiter_New_def
      demo_redis_def demo_holds_def allowScript_def Let_def Time_Truncate_def Duration_Milliseconds_def
      signed_divide_int_def)

section \<open>Bursts across a window boundary\<close>

text \<open>Of elements that are chosen while fewer than a limit came before, at most the limit is chosen.\<close>

lemma chosen_at_most:
  assumes "length oks = length xs"
    and "\<forall>j < length xs. P (xs ! j) \<longrightarrow> (oks ! j \<longleftrightarrow> n + int (length (filter P (take j xs))) < limit)"
  shows "int (length (filter (\<lambda>(x, ok). ok \<and> P x) (zip xs oks))) \<le> max 0 (limit - n)"
  using assms
proof (induction xs arbitrary: oks n)
  case (Cons x xs)
  obtain ok oks' where oks: "oks = ok # oks'" and len: "length oks' = length xs" using Cons.prems(1) by (cases oks) auto
  let ?n = "if P x then n + 1 else n"
  have "\<forall>j < length xs. P (xs ! j) \<longrightarrow> (oks' ! j \<longleftrightarrow> ?n + int (length (filter P (take j xs))) < limit)"
  proof (intro allI impI)
    fix j assume "j < length xs" "P (xs ! j)"
    with Cons.prems(2) [rule_format, of "Suc j"] show "oks' ! j \<longleftrightarrow> ?n + int (length (filter P (take j xs))) < limit"
      by (simp add: oks algebra_simps split: if_splits)
  qed
  from Cons.IH [OF len this] Cons.prems(2) [rule_format, of 0] show ?case
    by (auto simp: oks max_def split: if_splits)
qed simp

text \<open>A span of one window's length meets two windows at most.\<close>

lemma length_filter_or:
  assumes "\<And>x. P x \<Longrightarrow> Q x \<or> R x"
  shows "length (filter P xs) \<le> length (filter Q xs) + length (filter R xs)"
proof (induction xs)
  case (Cons x xs)
  with assms [of x] show ?case by (cases "P x"; cases "Q x"; cases "R x") simp_all
qed simp

lemma Time_Truncate_div: "0 < sint d \<Longrightarrow> Time_Truncate t d = Time (sint d * (nanos t div sint d))"
  by (simp add: Time_Truncate_def minus_mod_eq_mult_div)

lemma truncate_span:
  assumes "0 < sint d" and "a \<le> nanos t" and "nanos t < a + sint d"
  shows "Time_Truncate t d = Time_Truncate (Time a) d \<or> Time_Truncate t d = Time_Truncate (Time (a + sint d)) d"
proof -
  let ?q = "nanos t div sint d"
  have "a div sint d \<le> ?q" and "?q \<le> (a + sint d) div sint d" using assms by (simp_all add: zdiv_mono1)
  moreover have "(a + sint d) div sint d = a div sint d + 1" using assms(1) by (simp add: div_add_self2)
  ultimately have "?q = a div sint d \<or> ?q = (a + sint d) div sint d" by linarith
  then show ?thesis unfolding Time_Truncate_div [OF assms(1)] by auto
qed

text \<open>
  What the code calls its known limitation, as a bound: in a span of one window's length, wherever
  it begins, at most twice the limit of a tenant's calls are allowed.
\<close>

lemma redis_burst_bound:
  assumes doc: "redis_documented (rrl_client rl) holds" and ms: "whole_milliseconds rl"
    and "counted rl holds [] r a" "sorted (a # map call_at cs)" "sorted_wrt (within_window rl) cs"
    and run: "allow_calls rl cs r = (oks, r')"
    and limit: "\<forall>t. tID t = i \<longrightarrow> rrl_limitFunc rl t = (limit, window)" and "0 \<le> limit" and "0 < sint window"
  shows "int (length (filter (\<lambda>((t, now, at), ok). ok \<and> tID t = i \<and> b \<le> nanos now \<and> nanos now < b + sint window) (zip cs oks)))
    \<le> 2 * limit"
proof -
  let ?t = "\<lparr>tID = i, tState = Active, tRoles = []\<rparr>"
  let ?span = "\<lambda>((t, now, at), ok). ok \<and> tID t = i \<and> b \<le> nanos now \<and> nanos now < b + sint window"
  let ?own = "\<lambda>b c. call_window rl c = call_window rl (?t, Time b, Time b)"
  let ?in = "\<lambda>b (c, ok). ok \<and> ?own b c"
  note quota = allow_calls_quota [OF doc ms assms(3,4) _ run]
  have one: "int (length (filter (?in b) (zip cs oks))) \<le> limit" for b
  proof -
    have "\<forall>j < length cs. ?own b (cs ! j) \<longrightarrow> (oks ! j \<longleftrightarrow> 0 + int (length (filter (?own b) (take j cs))) < limit)"
      using quota assms(5) limit by (auto simp: call_limit_def call_window_def)
    from chosen_at_most [OF _ this] quota assms(5,8) show ?thesis by simp
  qed
  have two: "?in b x \<or> ?in (b + sint window) x" if "?span x" for x
  proof -
    obtain t now at ok where x: "x = ((t, now, at), ok)" by (metis surj_pair)
    with that limit truncate_span [OF assms(9), of b now] show ?thesis by (auto simp: call_window_def call_length_def)
  qed
  have "length (filter ?span (zip cs oks)) \<le> length (filter (?in b) (zip cs oks)) + length (filter (?in (b + sint window)) (zip cs oks))"
    by (rule length_filter_or) (rule two)
  then show ?thesis using one [of b] one [of "b + sint window"] by linarith
qed

text \<open>The bound is met: with a limit of one, a call just before the boundary and one just after it.\<close>

lemma redis_burst_met:
  "fst (allow_calls (RedisRateLimiter_New demo_redis (\<lambda>_. (1, Second)) []) [acme_at 999999999, acme_at 1000000000] Map.empty) =
     [True, True]"
proof -
  have "window_key ''acme'' (Time 0) \<noteq> window_key ''acme'' (Time 1000000000)"
    by (simp add: window_key_inject Time_UnixNano_def unix_epoch_def signed_take_bit_int_eq_self)
  then show ?thesis
    by (simp add: RedisRateLimiter_Allow_def RedisRateLimiter_New_def demo_redis_def demo_holds_def allowScript_def Let_def
        Time_Truncate_def Second_def)
qed

end
