(* ===== verification/Metrics.thy ===== *)
theory Metrics
  imports Tenant "HOL-Library.Signed_Division"
begin

text \<open>
  The metrics collectors (\<^verbatim>\<open>src/metrics\<close>): counters in memory, 64-bit and atomic, and the adapter
  to Prometheus (\<^verbatim>\<open>src/metrics/prometheus\<close>). The interleavings of concurrent calls are in
  \<^verbatim>\<open>Metrics_Concurrent\<close>. The Prometheus client is an argument; what its
  documentation says of label values is a named hypothesis.
\<close>

section \<open>MemoryMetrics\<close>

record tenantMetrics =
  tm_requests :: int64
  tm_errors :: int64
  tm_latencySum :: int64
  tm_latencyCount :: int64

record MemoryMetrics =
  mm_tenants :: "TenantID \<rightharpoonup> tenantMetrics"

definition MemoryMetrics_New :: MemoryMetrics where
  "MemoryMetrics_New = \<lparr>mm_tenants = Map.empty\<rparr>"

text \<open>\<^verbatim>\<open>LoadOrStore\<close> of zero counters.\<close>

definition MemoryMetrics_getOrCreate :: "TenantID \<Rightarrow> MemoryMetrics \<Rightarrow> tenantMetrics \<times> MemoryMetrics" where
  "MemoryMetrics_getOrCreate i m =
     (case mm_tenants m i of
        Some tm \<Rightarrow> (tm, m)
      | None \<Rightarrow>
          (let tm = \<lparr>tm_requests = 0, tm_errors = 0, tm_latencySum = 0, tm_latencyCount = 0\<rparr>
           in (tm, m\<lparr>mm_tenants := (mm_tenants m)(i \<mapsto> tm)\<rparr>)))"

definition MemoryMetrics_IncRequests :: "TenantID \<Rightarrow> MemoryMetrics \<Rightarrow> MemoryMetrics" where
  "MemoryMetrics_IncRequests i m =
     (let (tm, m) = MemoryMetrics_getOrCreate i m
      in m\<lparr>mm_tenants := (mm_tenants m)(i \<mapsto> tm\<lparr>tm_requests := tm_requests tm + 1\<rparr>)\<rparr>)"

definition MemoryMetrics_IncErrors :: "TenantID \<Rightarrow> MemoryMetrics \<Rightarrow> MemoryMetrics" where
  "MemoryMetrics_IncErrors i m =
     (let (tm, m) = MemoryMetrics_getOrCreate i m
      in m\<lparr>mm_tenants := (mm_tenants m)(i \<mapsto> tm\<lparr>tm_errors := tm_errors tm + 1\<rparr>)\<rparr>)"

definition MemoryMetrics_ObserveLatency :: "TenantID \<Rightarrow> Duration \<Rightarrow> MemoryMetrics \<Rightarrow> MemoryMetrics" where
  "MemoryMetrics_ObserveLatency i d m =
     (let (tm, m) = MemoryMetrics_getOrCreate i m;
          tm = tm\<lparr>tm_latencySum := tm_latencySum tm + d\<rparr>;
          tm = tm\<lparr>tm_latencyCount := tm_latencyCount tm + 1\<rparr>
      in m\<lparr>mm_tenants := (mm_tenants m)(i \<mapsto> tm)\<rparr>)"

record Snapshot =
  sn_Requests :: int64
  sn_Errors :: int64
  sn_AverageLatency :: Duration

text \<open>Go's integer division truncates.\<close>

definition int64_div :: "int64 \<Rightarrow> int64 \<Rightarrow> int64" where
  "int64_div a b = word_of_int (sint a sdiv sint b)"

definition MemoryMetrics_Snapshot :: "TenantID \<Rightarrow> MemoryMetrics \<Rightarrow> Snapshot \<times> MemoryMetrics" where
  "MemoryMetrics_Snapshot i m =
     (let (tm, m) = MemoryMetrics_getOrCreate i m;
          count = tm_latencyCount tm;
          avg = (if sint count > 0 then int64_div (tm_latencySum tm) count else 0)
      in (\<lparr>sn_Requests = tm_requests tm, sn_Errors = tm_errors tm, sn_AverageLatency = avg\<rparr>, m))"

text \<open>Histories of calls, and the counters they should leave.\<close>

datatype metric_op = OpRequest TenantID | OpError TenantID | OpLatency TenantID Duration | OpSnapshot TenantID

fun metric_step :: "metric_op \<Rightarrow> MemoryMetrics \<Rightarrow> MemoryMetrics" where
  "metric_step (OpRequest i) m = MemoryMetrics_IncRequests i m"
| "metric_step (OpError i) m = MemoryMetrics_IncErrors i m"
| "metric_step (OpLatency i d) m = MemoryMetrics_ObserveLatency i d m"
| "metric_step (OpSnapshot i) m = snd (MemoryMetrics_Snapshot i m)"

fun latency_of :: "TenantID \<Rightarrow> metric_op \<Rightarrow> Duration list" where
  "latency_of i (OpLatency j d) = (if j = i then [d] else [])"
| "latency_of i x = []"

definition latencies :: "TenantID \<Rightarrow> metric_op list \<Rightarrow> Duration list" where
  "latencies i xs = concat (map (latency_of i) xs)"

definition counters :: "MemoryMetrics \<Rightarrow> TenantID \<Rightarrow> tenantMetrics" where
  "counters m i = fst (MemoryMetrics_getOrCreate i m)"

lemma counters_step:
  "counters (metric_step x m) i =
     \<lparr>tm_requests = tm_requests (counters m i) + of_bool (x = OpRequest i),
      tm_errors = tm_errors (counters m i) + of_bool (x = OpError i),
      tm_latencySum = tm_latencySum (counters m i) + sum_list (latency_of i x),
      tm_latencyCount = tm_latencyCount (counters m i) + of_nat (length (latency_of i x))\<rparr>"
  by (cases x) (auto simp: counters_def MemoryMetrics_IncRequests_def MemoryMetrics_IncErrors_def
    MemoryMetrics_ObserveLatency_def MemoryMetrics_Snapshot_def MemoryMetrics_getOrCreate_def Let_def split: option.splits)

lemma counters_run:
  "counters (fold metric_step xs MemoryMetrics_New) i =
     \<lparr>tm_requests = of_nat (count_list xs (OpRequest i)), tm_errors = of_nat (count_list xs (OpError i)),
      tm_latencySum = sum_list (latencies i xs), tm_latencyCount = of_nat (length (latencies i xs))\<rparr>"
proof (induction xs rule: rev_induct)
  case Nil
  then show ?case by (simp add: counters_def MemoryMetrics_New_def MemoryMetrics_getOrCreate_def latencies_def Let_def)
next
  case (snoc x xs)
  then show ?case by (simp add: counters_step latencies_def)
qed

lemma sum_list_word: "(sum_list ds :: int64) = word_of_int (sum_list (map sint ds))"
  by (induction ds) simp_all

text \<open>
  The snapshot of a tenant whose counters are those of a sequence of calls: the average is rounded
  towards zero, and 0 if there were no latencies.
\<close>

lemma snapshot_exact:
  assumes "counters m i = counters (fold metric_step xs MemoryMetrics_New) i" and "length (latencies i xs) < 2 ^ 63"
    and "- (2 ^ 63) < sum_list (map sint (latencies i xs))" and "sum_list (map sint (latencies i xs)) < 2 ^ 63"
  shows "fst (MemoryMetrics_Snapshot i m) =
    \<lparr>sn_Requests = of_nat (count_list xs (OpRequest i)), sn_Errors = of_nat (count_list xs (OpError i)),
     sn_AverageLatency = word_of_int (if int (length (latencies i xs)) = 0 then 0
       else sum_list (map sint (latencies i xs)) sdiv int (length (latencies i xs)))\<rparr>"
proof -
  let ?ds = "latencies i xs"
  have "sint (of_nat (length ?ds) :: int64) = int (length ?ds)"
    using assms(2) sint_word_of_int_64 [of "int (length ?ds)"] by simp
  moreover have "sint (sum_list ?ds :: int64) = sum_list (map sint ?ds)"
    using assms(3,4) sint_word_of_int_64 [of "sum_list (map sint ?ds)"] by (simp add: sum_list_word)
  ultimately show ?thesis
    using assms(1) counters_run [of xs i]
    by (auto simp: MemoryMetrics_Snapshot_def counters_def split_def Let_def int64_div_def)
qed

section \<open>PrometheusMetrics\<close>

text \<open>
  \<open>'v\<close> is a metric vector and \<open>'p\<close> the state of the registry and its series. A counter or
  histogram is addressed by label values; a wrong number of them panics.
\<close>

record ('v, 'p) prometheus_api =
  NewCounterVec :: "string \<Rightarrow> string \<Rightarrow> string list \<Rightarrow> 'v"
  NewHistogramVec :: "string \<Rightarrow> string \<Rightarrow> string list \<Rightarrow> 'v"
  MustRegister :: "'v list \<Rightarrow> 'p \<Rightarrow> panic + 'p"
  Vec_Inc :: "'v \<Rightarrow> string list \<Rightarrow> 'p \<Rightarrow> panic + 'p"
  Vec_Observe :: "'v \<Rightarrow> string list \<Rightarrow> Duration \<Rightarrow> 'p \<Rightarrow> panic + 'p"

record 'v PrometheusMetrics =
  pm_requests :: "'v option"
  pm_errors :: "'v option"
  pm_latency :: "'v option"
  pm_withTenantID :: bool

type_synonym 'v PrometheusOption = "'v PrometheusMetrics \<Rightarrow> 'v PrometheusMetrics"

definition WithTenantLabels :: "'v PrometheusOption" where
  "WithTenantLabels m = m\<lparr>pm_withTenantID := True\<rparr>"

definition PrometheusMetrics_New ::
  "('v, 'p) prometheus_api \<Rightarrow> 'v PrometheusOption list \<Rightarrow> 'p \<Rightarrow> panic + ('v PrometheusMetrics \<times> 'p)" where
  "PrometheusMetrics_New api opts p =
     (let m = foldl (\<lambda>m opt. opt m) \<lparr>pm_requests = None, pm_errors = None, pm_latency = None, pm_withTenantID = False\<rparr> opts;
          labels = (if pm_withTenantID m then [''tenant_id''] else []);
          requests = NewCounterVec api ''tenant_requests_total'' ''Total number of requests processed.'' labels;
          errors = NewCounterVec api ''tenant_errors_total'' ''Total number of errors encountered.'' labels;
          latency = NewHistogramVec api ''tenant_request_latency_seconds'' ''Request latency distribution, in seconds.'' labels
      in case MustRegister api [requests, errors, latency] p of
           Inl pan \<Rightarrow> Inl pan
         | Inr p' \<Rightarrow> Inr (m\<lparr>pm_requests := Some requests, pm_errors := Some errors, pm_latency := Some latency\<rparr>, p'))"

definition PrometheusMetrics_labelValues :: "'v PrometheusMetrics \<Rightarrow> TenantID \<Rightarrow> string list" where
  "PrometheusMetrics_labelValues m i = (if \<not> pm_withTenantID m then [] else [i])"

text \<open>
  The vectors are nil only in a value that \<^verbatim>\<open>New\<close> did not make; a call through one panics. The
  conversion of the duration to seconds is left to the client.
\<close>

definition nil_vec :: panic where
  "nil_vec = Panic ''invalid memory address or nil pointer dereference''"

definition PrometheusMetrics_IncRequests ::
  "('v, 'p) prometheus_api \<Rightarrow> 'v PrometheusMetrics \<Rightarrow> TenantID \<Rightarrow> 'p \<Rightarrow> panic + 'p" where
  "PrometheusMetrics_IncRequests api m i p =
     (case pm_requests m of None \<Rightarrow> Inl nil_vec | Some v \<Rightarrow> Vec_Inc api v (PrometheusMetrics_labelValues m i) p)"

definition PrometheusMetrics_IncErrors ::
  "('v, 'p) prometheus_api \<Rightarrow> 'v PrometheusMetrics \<Rightarrow> TenantID \<Rightarrow> 'p \<Rightarrow> panic + 'p" where
  "PrometheusMetrics_IncErrors api m i p =
     (case pm_errors m of None \<Rightarrow> Inl nil_vec | Some v \<Rightarrow> Vec_Inc api v (PrometheusMetrics_labelValues m i) p)"

definition PrometheusMetrics_ObserveLatency ::
  "('v, 'p) prometheus_api \<Rightarrow> 'v PrometheusMetrics \<Rightarrow> TenantID \<Rightarrow> Duration \<Rightarrow> 'p \<Rightarrow> panic + 'p" where
  "PrometheusMetrics_ObserveLatency api m i d p =
     (case pm_latency m of None \<Rightarrow> Inl nil_vec | Some v \<Rightarrow> Vec_Observe api v (PrometheusMetrics_labelValues m i) d p)"

text \<open>Documented: with as many values as the vector has labels, the calls do not panic.\<close>

definition prometheus_documented :: "('v, 'p) prometheus_api \<Rightarrow> bool" where
  "prometheus_documented api \<longleftrightarrow>
     (\<forall>n help ls vs p. length vs = length ls \<longrightarrow> (\<exists>p'. Vec_Inc api (NewCounterVec api n help ls) vs p = Inr p')) \<and>
     (\<forall>n help ls vs d p. length vs = length ls \<longrightarrow> (\<exists>p'. Vec_Observe api (NewHistogramVec api n help ls) vs d p = Inr p'))"

text \<open>The calls of a collector that \<^verbatim>\<open>New\<close> made never panic, with or without tenant labels.\<close>

lemma prometheus_calls_total:
  assumes "prometheus_documented api" and "PrometheusMetrics_New api opts p = Inr (m, p1)"
  shows "\<exists>p'. PrometheusMetrics_IncRequests api m i q = Inr p'"
    and "\<exists>p'. PrometheusMetrics_IncErrors api m i q = Inr p'"
    and "\<exists>p'. PrometheusMetrics_ObserveLatency api m i d q = Inr p'"
  using assms(1,2)
  by (auto simp: PrometheusMetrics_New_def PrometheusMetrics_IncRequests_def PrometheusMetrics_IncErrors_def
    PrometheusMetrics_ObserveLatency_def PrometheusMetrics_labelValues_def prometheus_documented_def Let_def
    split: sum.splits)

section \<open>The interface MetricsCollector\<close>

text \<open>\<^verbatim>\<open>src/metrics/metrics.go\<close>; \<open>'m\<close> is the state behind the collector. A call may panic.\<close>

record 'm MetricsCollector =
  mc_IncRequests :: "Context \<Rightarrow> TenantID \<Rightarrow> 'm \<Rightarrow> panic + 'm"
  mc_ObserveLatency :: "Context \<Rightarrow> TenantID \<Rightarrow> Duration \<Rightarrow> 'm \<Rightarrow> panic + 'm"
  mc_IncErrors :: "Context \<Rightarrow> TenantID \<Rightarrow> 'm \<Rightarrow> panic + 'm"

definition MemoryMetrics_MetricsCollector :: "MemoryMetrics MetricsCollector" where
  "MemoryMetrics_MetricsCollector = \<lparr>mc_IncRequests = (\<lambda>ctx i m. Inr (MemoryMetrics_IncRequests i m)),
     mc_ObserveLatency = (\<lambda>ctx i d m. Inr (MemoryMetrics_ObserveLatency i d m)),
     mc_IncErrors = (\<lambda>ctx i m. Inr (MemoryMetrics_IncErrors i m))\<rparr>"

definition PrometheusMetrics_MetricsCollector :: "('v, 'p) prometheus_api \<Rightarrow> 'v PrometheusMetrics \<Rightarrow> 'p MetricsCollector" where
  "PrometheusMetrics_MetricsCollector api m = \<lparr>mc_IncRequests = (\<lambda>ctx. PrometheusMetrics_IncRequests api m),
     mc_ObserveLatency = (\<lambda>ctx. PrometheusMetrics_ObserveLatency api m),
     mc_IncErrors = (\<lambda>ctx. PrometheusMetrics_IncErrors api m)\<rparr>"

text \<open>What an application does with a collector: the calls of one history, until one panics.\<close>

fun collect :: "'m MetricsCollector \<Rightarrow> Context \<Rightarrow> metric_op \<Rightarrow> 'm \<Rightarrow> panic + 'm" where
  "collect mc ctx (OpRequest i) m = mc_IncRequests mc ctx i m"
| "collect mc ctx (OpError i) m = mc_IncErrors mc ctx i m"
| "collect mc ctx (OpLatency i d) m = mc_ObserveLatency mc ctx i d m"
| "collect mc ctx (OpSnapshot i) m = Inr m"

fun collect_all :: "'m MetricsCollector \<Rightarrow> (Context \<times> metric_op) list \<Rightarrow> 'm \<Rightarrow> panic + 'm" where
  "collect_all mc [] m = Inr m"
| "collect_all mc ((ctx, x) # xs) m = (case collect mc ctx x m of Inl p \<Rightarrow> Inl p | Inr m \<Rightarrow> collect_all mc xs m)"

text \<open>The contract of the interface: in a good state no call panics, and it leaves a good state.\<close>

locale metrics_collector =
  fixes mc :: "'m MetricsCollector" and good :: "'m \<Rightarrow> bool"
  assumes requests: "good m \<Longrightarrow> \<exists>m'. mc_IncRequests mc ctx i m = Inr m' \<and> good m'"
    and latency: "good m \<Longrightarrow> \<exists>m'. mc_ObserveLatency mc ctx i d m = Inr m' \<and> good m'"
    and errors: "good m \<Longrightarrow> \<exists>m'. mc_IncErrors mc ctx i m = Inr m' \<and> good m'"
begin

lemma collect_good: "good m \<Longrightarrow> \<exists>m'. collect mc ctx x m = Inr m' \<and> good m'"
  using requests latency errors by (cases x) simp_all

lemma never_panics: "good m \<Longrightarrow> \<exists>m'. collect_all mc xs m = Inr m' \<and> good m'"
proof (induction mc \<equiv> mc xs m rule: collect_all.induct)
  case (2 ctx x xs m)
  from collect_good [OF 2(2), of ctx x] 2(1) show ?case by fastforce
qed simp

end

interpretation memory_collector: metrics_collector MemoryMetrics_MetricsCollector "\<lambda>_. True"
  by unfold_locales (simp_all add: MemoryMetrics_MetricsCollector_def)

lemma prometheus_collector:
  assumes "prometheus_documented api" and "PrometheusMetrics_New api opts p = Inr (m, p1)"
  shows "metrics_collector (PrometheusMetrics_MetricsCollector api m) (\<lambda>_. True)"
  using prometheus_calls_total [OF assms]
  by unfold_locales (simp_all add: PrometheusMetrics_MetricsCollector_def)

text \<open>The in-memory collector behind the interface is the one whose counters are characterised above.\<close>

lemma collect_all_memory:
  assumes "\<forall>(ctx, x) \<in> set xs. \<forall>i. x \<noteq> OpSnapshot i"
  shows "collect_all MemoryMetrics_MetricsCollector xs m = Inr (fold metric_step (map snd xs) m)"
  using assms
proof (induction xs arbitrary: m)
  case (Cons cx xs)
  obtain ctx x where "cx = (ctx, x)" by fastforce
  with Cons show ?case by (cases x) (simp_all add: MemoryMetrics_MetricsCollector_def)
qed simp

end
