(* ===== verification/Metrics_Concurrent.thy ===== *)
theory Metrics_Concurrent
  imports Metrics
begin

text \<open>
  Concurrent use of the in-memory metrics (\<^verbatim>\<open>src/metrics/memory.go\<close>). Any number of goroutines
  call the collector; every operation on the \<^verbatim>\<open>sync.Map\<close> and on an \<^verbatim>\<open>atomic.Int64\<close> is one step,
  so that the two additions of \<^verbatim>\<open>ObserveLatency\<close> and the loads of \<^verbatim>\<open>Snapshot\<close> interleave with
  the steps of others. The object of a tenant is stored once and never replaced, so a pointer
  to it is named by the tenant. Shown: no update is lost, and once every call has returned
  the counters are those of the same calls made one after the other.
\<close>

section \<open>The interleavings\<close>

text \<open>
  Where a call is: called, with its tenant's object, between the additions of
  \<^verbatim>\<open>ObserveLatency\<close>, between the loads of \<^verbatim>\<open>Snapshot\<close>, returned.
\<close>

datatype metric_call =
    Called metric_op
  | Holding metric_op
  | Summed TenantID Duration
  | Counted TenantID int64
  | Averaged TenantID Duration
  | Requested TenantID Duration int64
  | Returned metric_op "Snapshot option"

fun op_tenant :: "metric_op \<Rightarrow> TenantID" where
  "op_tenant (OpRequest i) = i"
| "op_tenant (OpError i) = i"
| "op_tenant (OpLatency i d) = i"
| "op_tenant (OpSnapshot i) = i"

text \<open>A change of the object that \<open>getOrCreate\<close> returned.\<close>

definition on_object :: "TenantID \<Rightarrow> (tenantMetrics \<Rightarrow> tenantMetrics) \<Rightarrow> MemoryMetrics \<Rightarrow> MemoryMetrics" where
  "on_object i f m = m\<lparr>mm_tenants := (mm_tenants m)(i := map_option f (mm_tenants m i))\<rparr>"

abbreviation object :: "MemoryMetrics \<Rightarrow> TenantID \<Rightarrow> tenantMetrics" where
  "object m i \<equiv> the (mm_tenants m i)"

inductive metrics_step ::
  "MemoryMetrics \<times> metric_call list \<Rightarrow> MemoryMetrics \<times> metric_call list \<Rightarrow> bool" where
  load: "n < length cs \<Longrightarrow> cs ! n = Called x \<Longrightarrow> MemoryMetrics_getOrCreate (op_tenant x) m = (tm, m') \<Longrightarrow>
    metrics_step (m, cs) (m', cs[n := Holding x])"
| add_request: "n < length cs \<Longrightarrow> cs ! n = Holding (OpRequest i) \<Longrightarrow>
    metrics_step (m, cs) (on_object i (\<lambda>tm. tm\<lparr>tm_requests := tm_requests tm + 1\<rparr>) m, cs[n := Returned (OpRequest i) None])"
| add_error: "n < length cs \<Longrightarrow> cs ! n = Holding (OpError i) \<Longrightarrow>
    metrics_step (m, cs) (on_object i (\<lambda>tm. tm\<lparr>tm_errors := tm_errors tm + 1\<rparr>) m, cs[n := Returned (OpError i) None])"
| add_sum: "n < length cs \<Longrightarrow> cs ! n = Holding (OpLatency i d) \<Longrightarrow>
    metrics_step (m, cs) (on_object i (\<lambda>tm. tm\<lparr>tm_latencySum := tm_latencySum tm + d\<rparr>) m, cs[n := Summed i d])"
| add_count: "n < length cs \<Longrightarrow> cs ! n = Summed i d \<Longrightarrow>
    metrics_step (m, cs) (on_object i (\<lambda>tm. tm\<lparr>tm_latencyCount := tm_latencyCount tm + 1\<rparr>) m, cs[n := Returned (OpLatency i d) None])"
| load_count: "n < length cs \<Longrightarrow> cs ! n = Holding (OpSnapshot i) \<Longrightarrow>
    metrics_step (m, cs) (m, cs[n := Counted i (tm_latencyCount (object m i))])"
| load_sum: "n < length cs \<Longrightarrow> cs ! n = Counted i count \<Longrightarrow>
    avg = (if sint count > 0 then int64_div (tm_latencySum (object m i)) count else 0) \<Longrightarrow>
    metrics_step (m, cs) (m, cs[n := Averaged i avg])"
| load_requests: "n < length cs \<Longrightarrow> cs ! n = Averaged i avg \<Longrightarrow>
    metrics_step (m, cs) (m, cs[n := Requested i avg (tm_requests (object m i))])"
| load_errors: "n < length cs \<Longrightarrow> cs ! n = Requested i avg reqs \<Longrightarrow>
    metrics_step (m, cs) (m, cs[n := Returned (OpSnapshot i)
      (Some \<lparr>sn_Requests = reqs, sn_Errors = tm_errors (object m i), sn_AverageLatency = avg\<rparr>)])"

section \<open>No update is lost\<close>

text \<open>What a call has contributed so far to the counters of a tenant.\<close>

fun added :: "TenantID \<Rightarrow> metric_call \<Rightarrow> tenantMetrics" where
  "added i (Returned x y) = \<lparr>tm_requests = of_bool (x = OpRequest i), tm_errors = of_bool (x = OpError i),
     tm_latencySum = sum_list (latency_of i x), tm_latencyCount = of_nat (length (latency_of i x))\<rparr>"
| "added i (Summed j d) = \<lparr>tm_requests = 0, tm_errors = 0, tm_latencySum = (if j = i then d else 0), tm_latencyCount = 0\<rparr>"
| "added i c = \<lparr>tm_requests = 0, tm_errors = 0, tm_latencySum = 0, tm_latencyCount = 0\<rparr>"

definition total_added :: "TenantID \<Rightarrow> metric_call list \<Rightarrow> tenantMetrics" where
  "total_added i cs = \<lparr>tm_requests = sum_list (map (tm_requests \<circ> added i) cs), tm_errors = sum_list (map (tm_errors \<circ> added i) cs),
     tm_latencySum = sum_list (map (tm_latencySum \<circ> added i) cs), tm_latencyCount = sum_list (map (tm_latencyCount \<circ> added i) cs)\<rparr>"

fun call_op :: "metric_call \<Rightarrow> metric_op" where
  "call_op (Called x) = x"
| "call_op (Holding x) = x"
| "call_op (Summed i d) = OpLatency i d"
| "call_op (Counted i n) = OpSnapshot i"
| "call_op (Averaged i a) = OpSnapshot i"
| "call_op (Requested i a r) = OpSnapshot i"
| "call_op (Returned x y) = x"

fun returned :: "metric_call \<Rightarrow> bool" where
  "returned (Returned x y) \<longleftrightarrow> True"
| "returned c \<longleftrightarrow> False"

lemma sum_list_map_update:
  fixes f :: "'a \<Rightarrow> 'b :: ab_group_add"
  shows "n < length xs \<Longrightarrow> sum_list (map f (xs[n := x])) = sum_list (map f xs) + (f x - f (xs ! n))"
proof (induction xs arbitrary: n)
  case (Cons y ys)
  then show ?case by (cases n) (simp_all add: algebra_simps)
qed simp

text \<open>A call that has its object finds it in the map.\<close>

fun has_object :: "metric_call \<Rightarrow> bool" where
  "has_object (Called x) \<longleftrightarrow> False"
| "has_object c \<longleftrightarrow> True"

definition metrics_inv :: "metric_op list \<Rightarrow> MemoryMetrics \<times> metric_call list \<Rightarrow> bool" where
  "metrics_inv xs = (\<lambda>(m, cs). map call_op cs = xs \<and> (\<forall>i. counters m i = total_added i cs) \<and>
     (\<forall>c \<in> set cs. has_object c \<longrightarrow> mm_tenants m (op_tenant (call_op c)) \<noteq> None))"

lemma counters_alt:
  "counters m i = (case mm_tenants m i of Some tm \<Rightarrow> tm
     | None \<Rightarrow> \<lparr>tm_requests = 0, tm_errors = 0, tm_latencySum = 0, tm_latencyCount = 0\<rparr>)"
  by (simp add: counters_def MemoryMetrics_getOrCreate_def Let_def split: option.splits)

lemma counters_on_object:
  assumes "mm_tenants m i \<noteq> None"
  shows "counters (on_object i f m) j = (if j = i then f (counters m i) else counters m j)"
  using assms by (cases "j = i") (auto simp: counters_alt on_object_def)

lemma counters_getOrCreate: "MemoryMetrics_getOrCreate i m = (tm, m') \<Longrightarrow> counters m' j = counters m j"
  by (cases "j = i") (auto simp: counters_alt MemoryMetrics_getOrCreate_def Let_def split: option.splits)

lemma objects_getOrCreate:
  "MemoryMetrics_getOrCreate i m = (tm, m') \<Longrightarrow> mm_tenants m' j = None \<longleftrightarrow> mm_tenants m j = None \<and> j \<noteq> i"
  by (auto simp: MemoryMetrics_getOrCreate_def Let_def split: option.splits if_splits)

lemma objects_on_object: "mm_tenants (on_object i f m) j = None \<longleftrightarrow> mm_tenants m j = None"
  by (simp add: on_object_def)

text \<open>A call that moves on adds what its new place has beyond the old one.\<close>

definition shift :: "tenantMetrics \<Rightarrow> tenantMetrics \<Rightarrow> tenantMetrics \<Rightarrow> tenantMetrics" where
  "shift t a b = \<lparr>tm_requests = tm_requests t + (tm_requests b - tm_requests a), tm_errors = tm_errors t + (tm_errors b - tm_errors a),
     tm_latencySum = tm_latencySum t + (tm_latencySum b - tm_latencySum a),
     tm_latencyCount = tm_latencyCount t + (tm_latencyCount b - tm_latencyCount a)\<rparr>"

lemma shift_same [simp]: "shift t a a = t"
  by (simp add: shift_def)

lemma total_added_update: "n < length cs \<Longrightarrow> total_added i (cs[n := c]) = shift (total_added i cs) (added i (cs ! n)) (added i c)"
  by (simp add: total_added_def shift_def sum_list_map_update)

lemma metrics_inv_update:
  assumes v: "metrics_inv xs (m, cs)" and n: "n < length cs" and same: "call_op c = call_op (cs ! n)"
    and obj: "mm_tenants m' (op_tenant (call_op c)) \<noteq> None"
    and keep: "\<And>i. mm_tenants m i \<noteq> None \<Longrightarrow> mm_tenants m' i \<noteq> None"
    and count: "\<And>i. counters m' i = shift (counters m i) (added i (cs ! n)) (added i c)"
  shows "metrics_inv xs (m', cs[n := c])"
proof -
  have "map call_op (cs[n := c]) = xs"
    using v n same by (auto simp: metrics_inv_def map_update nth_map [symmetric] simp del: nth_map)
  moreover have "counters m' i = total_added i (cs[n := c])" for i
    using v n count by (simp add: metrics_inv_def total_added_update)
  moreover have "mm_tenants m' (op_tenant (call_op c')) \<noteq> None"
    if "c' \<in> set (cs[n := c])" and "has_object c'" for c'
    using that v obj keep set_update_subset_insert [of cs n c] by (auto simp: metrics_inv_def)
  ultimately show ?thesis
    by (simp add: metrics_inv_def)
qed

lemma metrics_inv_object:
  "metrics_inv xs (m, cs) \<Longrightarrow> n < length cs \<Longrightarrow> has_object (cs ! n) \<Longrightarrow> mm_tenants m (op_tenant (call_op (cs ! n))) \<noteq> None"
  by (auto simp: metrics_inv_def)

lemma metrics_inv_step: "metrics_step s s' \<Longrightarrow> metrics_inv xs s \<Longrightarrow> metrics_inv xs s'"
proof (induction rule: metrics_step.induct)
  case (load n cs x m tm m')
  then show ?case
    by (intro metrics_inv_update [where m = m])
      (simp_all add: objects_getOrCreate [OF load(3)] counters_getOrCreate [OF load(3)])
next
  case (add_request n cs i m)
  then show ?case
    using metrics_inv_object [of xs m cs n]
    by (intro metrics_inv_update [where m = m]) (simp_all add: objects_on_object counters_on_object shift_def)
next
  case (add_error n cs i m)
  then show ?case
    using metrics_inv_object [of xs m cs n]
    by (intro metrics_inv_update [where m = m]) (simp_all add: objects_on_object counters_on_object shift_def)
next
  case (add_sum n cs i d m)
  then show ?case
    using metrics_inv_object [of xs m cs n]
    by (intro metrics_inv_update [where m = m]) (simp_all add: objects_on_object counters_on_object shift_def)
next
  case (add_count n cs i d m)
  then show ?case
    using metrics_inv_object [of xs m cs n]
    by (intro metrics_inv_update [where m = m]) (simp_all add: objects_on_object counters_on_object shift_def)
qed (rule metrics_inv_update; use metrics_inv_object in force)+

lemma metrics_inv_initial: "metrics_inv xs (MemoryMetrics_New, map Called xs)"
  by (simp add: metrics_inv_def MemoryMetrics_New_def counters_alt total_added_def comp_def)

lemma metrics_inv_reachable:
  "metrics_step\<^sup>*\<^sup>* (MemoryMetrics_New, map Called xs) s \<Longrightarrow> metrics_inv xs s"
  by (induction rule: rtranclp_induct) (auto intro: metrics_inv_initial metrics_inv_step)

lemma total_added_returned:
  "\<forall>c \<in> set cs. returned c \<Longrightarrow> total_added i cs = counters (fold metric_step (map call_op cs) MemoryMetrics_New) i"
proof -
  have "total_added i cs = \<lparr>tm_requests = of_nat (count_list (map call_op cs) (OpRequest i)),
      tm_errors = of_nat (count_list (map call_op cs) (OpError i)),
      tm_latencySum = sum_list (latencies i (map call_op cs)), tm_latencyCount = of_nat (length (latencies i (map call_op cs)))\<rparr>"
    if "\<forall>c \<in> set cs. returned c"
    using that
  proof (induction cs)
    case (Cons c cs)
    then show ?case by (cases c) (auto simp: total_added_def latencies_def)
  qed (simp add: total_added_def latencies_def)
  then show "\<forall>c \<in> set cs. returned c \<Longrightarrow> total_added i cs = counters (fold metric_step (map call_op cs) MemoryMetrics_New) i"
    by (simp add: counters_run)
qed

lemma metrics_progress:
  "n < length cs \<Longrightarrow> \<not> returned (cs ! n) \<Longrightarrow> \<exists>m' c. metrics_step (m, cs) (m', cs[n := c])"
proof (cases "cs ! n")
  case (Holding x)
  then show "n < length cs \<Longrightarrow> \<exists>m' c. metrics_step (m, cs) (m', cs[n := c])"
    by (cases x) (blast intro: metrics_step.intros)+
next
  case (Called x)
  then show "n < length cs \<Longrightarrow> \<exists>m' c. metrics_step (m, cs) (m', cs[n := c])"
    by (cases "MemoryMetrics_getOrCreate (op_tenant x) m") (blast intro: metrics_step.intros)
qed (blast intro: metrics_step.intros | simp)+

text \<open>
  C38. The snapshot of a tenant after any calls for any tenants, from any number of goroutines and
  in any interleaving of their atomic operations, once all have returned: the number of its
  requests and of its errors (modulo \<open>2^64\<close>), and the average of its latencies rounded
  towards zero, 0 if there were none, as long as their number and their sum fit in 64 bits. No
  update is lost, and calls for other tenants and other snapshots have no influence.
\<close>

theorem metrics_concurrent_exact:
  assumes "metrics_step\<^sup>*\<^sup>* (MemoryMetrics_New, map Called xs) (m, cs)" and "\<forall>c \<in> set cs. returned c"
    and "length (latencies i xs) < 2 ^ 63"
    and "- (2 ^ 63) < sum_list (map sint (latencies i xs))" and "sum_list (map sint (latencies i xs)) < 2 ^ 63"
  defines "n \<equiv> int (length (latencies i xs))"
  shows "fst (MemoryMetrics_Snapshot i m) =
    \<lparr>sn_Requests = of_nat (count_list xs (OpRequest i)), sn_Errors = of_nat (count_list xs (OpError i)),
     sn_AverageLatency = word_of_int (if n = 0 then 0 else sum_list (map sint (latencies i xs)) sdiv n)\<rparr>"
proof -
  have "metrics_inv xs (m, cs)"
    using assms(1) by (rule metrics_inv_reachable)
  then have "counters m i = counters (fold metric_step xs MemoryMetrics_New) i"
    using assms(2) by (auto simp: metrics_inv_def total_added_returned)
  then show ?thesis
    using assms(3-5) unfolding n_def by (rule snapshot_exact)
qed

theorem metrics_concurrent_exact_witness:
  "\<exists>m. metrics_step\<^sup>*\<^sup>* (MemoryMetrics_New, [Called (OpLatency ''tenant-A'' 10000000), Called (OpLatency ''tenant-A'' 20000000)])
      (m, [Returned (OpLatency ''tenant-A'' 10000000) None, Returned (OpLatency ''tenant-A'' 20000000) None]) \<and>
    sn_AverageLatency (fst (MemoryMetrics_Snapshot ''tenant-A'' m)) = 15 * Millisecond"
proof -
  let ?a = "''tenant-A''" and ?x = "OpLatency ''tenant-A'' 10000000" and ?y = "OpLatency ''tenant-A'' 20000000"
  obtain t1 m1 where m1: "MemoryMetrics_getOrCreate ?a MemoryMetrics_New = (t1, m1)" by fastforce
  obtain t2 m2 where m2: "MemoryMetrics_getOrCreate ?a m1 = (t2, m2)" by fastforce
  let ?sum = "\<lambda>d. on_object ?a (\<lambda>tm. tm\<lparr>tm_latencySum := tm_latencySum tm + d\<rparr>)"
  let ?count = "on_object ?a (\<lambda>tm. tm\<lparr>tm_latencyCount := tm_latencyCount tm + 1\<rparr>)"
  let ?m = "?count (?count (?sum 20000000 (?sum 10000000 m2)))"
  have "metrics_step\<^sup>*\<^sup>* (MemoryMetrics_New, [Called ?x, Called ?y]) (m1, [Holding ?x, Called ?y])"
    using metrics_step.load [of 0 "[Called ?x, Called ?y]" ?x MemoryMetrics_New] m1 by (simp add: r_into_rtranclp)
  also have "metrics_step \<dots> (m2, [Holding ?x, Holding ?y])"
    using metrics_step.load [of 1 "[Holding ?x, Called ?y]" ?y m1] m2 by simp
  also have "metrics_step \<dots> (?sum 10000000 m2, [Summed ?a 10000000, Holding ?y])"
    using metrics_step.add_sum [of 0 "[Holding ?x, Holding ?y]" ?a 10000000 m2] by simp
  also have "metrics_step \<dots> (?sum 20000000 (?sum 10000000 m2), [Summed ?a 10000000, Summed ?a 20000000])"
    using metrics_step.add_sum [of 1 "[Summed ?a 10000000, Holding ?y]" ?a 20000000] by simp
  also have "metrics_step \<dots> (?count (?sum 20000000 (?sum 10000000 m2)), [Summed ?a 10000000, Returned ?y None])"
    using metrics_step.add_count [of 1 "[Summed ?a 10000000, Summed ?a 20000000]" ?a 20000000] by simp
  also have "metrics_step \<dots> (?m, [Returned ?x None, Returned ?y None])"
    using metrics_step.add_count [of 0 "[Summed ?a 10000000, Returned ?y None]" ?a 10000000] by simp
  finally have run: "metrics_step\<^sup>*\<^sup>* (MemoryMetrics_New, [Called ?x, Called ?y]) (?m, [Returned ?x None, Returned ?y None])" .
  have "sn_AverageLatency (fst (MemoryMetrics_Snapshot ?a ?m)) = 15 * Millisecond"
    using metrics_concurrent_exact [of "[?x, ?y]" ?m "[Returned ?x None, Returned ?y None]" ?a] run
    by (simp add: latencies_def Millisecond_def signed_divide_int_def)
  then show ?thesis
    using run by blast
qed

end
