(* ===== verification/Broker_Bus.thy ===== *)
theory Broker_Bus
  imports Event_Bus
begin

text \<open>
  The event buses over Redis Pub/Sub and NATS (\<^verbatim>\<open>src/eventbus/redis/redis.go\<close>,
  \<^verbatim>\<open>src/eventbus/nats/nats.go\<close>). The clients, the brokers and the JSON encoding are arguments.
  What the two buses add is the bookkeeping of subscriptions against a concurrent \<^verbatim>\<open>Stop\<close>,
  which is a step relation here: any number of \<^verbatim>\<open>Subscribe\<close> calls, slow or failing brokers, and
  \<^verbatim>\<open>Stop\<close> at any moment, any number of times. The contract the proof needs of the bookkeeping is
  a locale, interpreted by each bus.
\<close>

section \<open>Operations\<close>

text \<open>Redis: the state under the mutex. A subscription is an address.\<close>

record RedisEventBus =
  rb_channel :: string
  rb_pubsubs :: "addr list"
  rb_stopped :: bool

definition RedisEventBus_ErrStopped :: go_error where
  "RedisEventBus_ErrStopped = ErrVar ''redis.ErrStopped'' ''eventbus/redis: bus is stopped''"

definition RedisEventBus_New :: "string \<Rightarrow> RedisEventBus" where
  "RedisEventBus_New channel = \<lparr>rb_channel = channel, rb_pubsubs = [], rb_stopped = False\<rparr>"

definition RedisEventBus_Publish ::
  "(TenantEvent \<Rightarrow> string result) \<Rightarrow> (Context \<Rightarrow> string \<Rightarrow> string \<Rightarrow> ('r, unit) call) \<Rightarrow>
     RedisEventBus \<Rightarrow> Context \<Rightarrow> TenantEvent \<Rightarrow> ('r, unit) call" where
  "RedisEventBus_Publish marshal publish b ctx event r =
     (case marshal event of
        Inl err \<Rightarrow> (Inl err, r)
      | Inr data \<Rightarrow> publish ctx (rb_channel b) data r)"

text \<open>The critical section of \<^verbatim>\<open>Subscribe\<close>: \<^term>\<open>Some\<close> error when the bus has been stopped.\<close>

definition RedisEventBus_register :: "addr \<Rightarrow> RedisEventBus \<Rightarrow> go_error option \<times> RedisEventBus" where
  "RedisEventBus_register pubsub b =
     (if rb_stopped b then (Some RedisEventBus_ErrStopped, b)
      else (None, b\<lparr>rb_pubsubs := rb_pubsubs b @ [pubsub]\<rparr>))"

text \<open>The subscriptions that \<^verbatim>\<open>Stop\<close> closes, and the state it leaves.\<close>

definition RedisEventBus_Stop :: "RedisEventBus \<Rightarrow> addr list \<times> RedisEventBus" where
  "RedisEventBus_Stop b = (rb_pubsubs b, b\<lparr>rb_stopped := True, rb_pubsubs := []\<rparr>)"

text \<open>
  One message of a subscription: a payload that cannot be decoded is logged and skipped, any
  other starts a goroutine with the handler.
\<close>

definition on_message ::
  "(string \<Rightarrow> TenantEvent result) \<Rightarrow> 'w EventHandler \<Rightarrow> string \<Rightarrow>
     ('w EventHandler \<times> TenantEvent) list \<Rightarrow> ('w EventHandler \<times> TenantEvent) list" where
  "on_message unmarshal handler payload goroutines =
     (case unmarshal payload of
        Inl err \<Rightarrow> goroutines
      | Inr event \<Rightarrow> goroutines @ [(handler, event)])"

definition RedisEventBus_safeCall :: "'w EventHandler \<Rightarrow> TenantEvent \<Rightarrow> 'w \<Rightarrow> 'w \<times> string list" where
  "RedisEventBus_safeCall handler event w =
     (case handler event w of
        (w', None) \<Rightarrow> (w', [])
      | (w', Some (Panic r)) \<Rightarrow> (w', [''eventbus/redis: handler panicked: '' @ r]))"

text \<open>NATS.\<close>

record NATSEventBus =
  nb_subject :: string
  nb_subs :: "addr list"
  nb_stopped :: bool

definition NATSEventBus_ErrStopped :: go_error where
  "NATSEventBus_ErrStopped = ErrVar ''nats.ErrStopped'' ''eventbus/nats: bus is stopped''"

definition NATSEventBus_New :: "string \<Rightarrow> NATSEventBus" where
  "NATSEventBus_New subject = \<lparr>nb_subject = subject, nb_subs = [], nb_stopped = False\<rparr>"

definition NATSEventBus_Publish ::
  "(TenantEvent \<Rightarrow> string result) \<Rightarrow> (string \<Rightarrow> string \<Rightarrow> ('r, unit) call) \<Rightarrow>
     NATSEventBus \<Rightarrow> Context \<Rightarrow> TenantEvent \<Rightarrow> ('r, unit) call" where
  "NATSEventBus_Publish marshal publish b ctx event r =
     (case marshal event of
        Inl err \<Rightarrow> (Inl err, r)
      | Inr data \<Rightarrow> publish (nb_subject b) data r)"

definition NATSEventBus_register :: "addr \<Rightarrow> NATSEventBus \<Rightarrow> go_error option \<times> NATSEventBus" where
  "NATSEventBus_register sub b =
     (if nb_stopped b then (Some NATSEventBus_ErrStopped, b)
      else (None, b\<lparr>nb_subs := nb_subs b @ [sub]\<rparr>))"

definition NATSEventBus_Stop :: "NATSEventBus \<Rightarrow> addr list \<times> NATSEventBus" where
  "NATSEventBus_Stop b = (nb_subs b, b\<lparr>nb_stopped := True, nb_subs := []\<rparr>)"

definition NATSEventBus_on_message ::
  "(string \<Rightarrow> TenantEvent result) \<Rightarrow> 'w EventHandler \<Rightarrow> string \<Rightarrow>
     ('w EventHandler \<times> TenantEvent) list \<Rightarrow> ('w EventHandler \<times> TenantEvent) list" where
  "NATSEventBus_on_message unmarshal handler data goroutines =
     (case unmarshal data of
        Inl err \<Rightarrow> goroutines
      | Inr event \<Rightarrow> goroutines @ [(handler, event)])"

definition NATSEventBus_safeCall :: "'w EventHandler \<Rightarrow> TenantEvent \<Rightarrow> 'w \<Rightarrow> 'w \<times> string list" where
  "NATSEventBus_safeCall handler event w =
     (case handler event w of
        (w', None) \<Rightarrow> (w', [])
      | (w', Some (Panic r)) \<Rightarrow> (w', [''eventbus/nats: handler panicked: '' @ r]))"

text \<open>
  A call of \<^verbatim>\<open>Subscribe\<close> that no other call interrupts. The client's operations act on its own
  state \<open>'r\<close>; what it does with a message is handed to it as a function. Redis: the goroutine
  that reads the channel is started last.
\<close>

type_synonym 'w on_message = "string \<Rightarrow> ('w EventHandler \<times> TenantEvent) list \<Rightarrow> ('w EventHandler \<times> TenantEvent) list"

record ('r, 'w) redis_client =
  rc_Subscribe :: "string \<Rightarrow> 'r \<Rightarrow> addr \<times> 'r"
  rc_Receive :: "addr \<Rightarrow> ('r, unit) call"
  rc_Close :: "addr \<Rightarrow> ('r, unit) call"
  rc_read :: "addr \<Rightarrow> 'w on_message \<Rightarrow> 'r \<Rightarrow> 'r"

definition RedisEventBus_Subscribe ::
  "('r, 'w) redis_client \<Rightarrow> (string \<Rightarrow> TenantEvent result) \<Rightarrow> 'w EventHandler \<Rightarrow> RedisEventBus \<Rightarrow> 'r \<Rightarrow>
     unit result \<times> RedisEventBus \<times> 'r" where
  "RedisEventBus_Subscribe client unmarshal handler b r =
     (let (pubsub, r) = rc_Subscribe client (rb_channel b) r in
      case rc_Receive client pubsub r of
        (Inl err, r) \<Rightarrow> (Inl err, b, snd (rc_Close client pubsub r))
      | (Inr _, r) \<Rightarrow>
          (case RedisEventBus_register pubsub b of
             (Some err, b) \<Rightarrow> (Inl err, b, snd (rc_Close client pubsub r))
           | (None, b) \<Rightarrow> (Inr (), b, rc_read client pubsub (on_message unmarshal handler) r)))"

record ('r, 'w) nats_client =
  nc_Subscribe :: "string \<Rightarrow> 'w on_message \<Rightarrow> ('r, addr) call"
  nc_Unsubscribe :: "addr \<Rightarrow> ('r, unit) call"

definition NATSEventBus_Subscribe ::
  "('r, 'w) nats_client \<Rightarrow> (string \<Rightarrow> TenantEvent result) \<Rightarrow> 'w EventHandler \<Rightarrow> NATSEventBus \<Rightarrow> 'r \<Rightarrow>
     unit result \<times> NATSEventBus \<times> 'r" where
  "NATSEventBus_Subscribe client unmarshal handler b r =
     (case nc_Subscribe client (nb_subject b) (NATSEventBus_on_message unmarshal handler) r of
        (Inl err, r) \<Rightarrow> (Inl err, b, r)
      | (Inr sub, r) \<Rightarrow>
          (case NATSEventBus_register sub b of
             (Some err, b) \<Rightarrow> (Inl err, b, snd (nc_Unsubscribe client sub r))
           | (None, b) \<Rightarrow> (Inr (), b, r)))"

section \<open>Subscribe beside Stop\<close>

text \<open>
  A call of \<^verbatim>\<open>Subscribe\<close>: waiting for the broker's confirmation (which may fail), confirmed,
  refused by the stopped bus and about to close its subscription, or back with its result.
  \<open>bs_open\<close> are the subscriptions that still deliver messages. Closing a subscription may
  report an error, which the buses log or ignore; such a subscription may stay open, and
  \<open>bs_errors\<close> records it.
\<close>

datatype subscribing = Awaiting addr | Confirmed addr | Closing addr go_error | Done "unit result"

record 'b bus_system =
  bs_bus :: 'b
  bs_open :: "addr set"
  bs_errors :: "addr set"
  bs_next :: addr
  bs_calls :: "subscribing list"

text \<open>Closing the subscriptions \<open>ps\<close>, those in \<open>es\<close> with an error.\<close>

definition close_subs :: "addr set \<Rightarrow> addr set \<Rightarrow> 'b bus_system \<Rightarrow> 'b bus_system" where
  "close_subs ps es s = s\<lparr>bs_open := bs_open s - (ps - es), bs_errors := bs_errors s \<union> (ps \<inter> es)\<rparr>"

inductive bus_sys_step ::
  "(addr \<Rightarrow> 'b \<Rightarrow> go_error option \<times> 'b) \<Rightarrow> ('b \<Rightarrow> addr list \<times> 'b) \<Rightarrow> 'b bus_system \<Rightarrow> 'b bus_system \<Rightarrow> bool"
  for register :: "addr \<Rightarrow> 'b \<Rightarrow> go_error option \<times> 'b" and stop :: "'b \<Rightarrow> addr list \<times> 'b" where
  subscribe: "bus_sys_step register stop s (s\<lparr>bs_open := insert (bs_next s) (bs_open s), bs_next := Suc (bs_next s),
    bs_calls := bs_calls s @ [Awaiting (bs_next s)]\<rparr>)"
| fail: "k < length (bs_calls s) \<Longrightarrow> bs_calls s ! k = Awaiting p \<Longrightarrow>
    bus_sys_step register stop s ((close_subs {p} es s)\<lparr>bs_calls := (bs_calls s)[k := Done (Inl err)]\<rparr>)"
| confirm: "k < length (bs_calls s) \<Longrightarrow> bs_calls s ! k = Awaiting p \<Longrightarrow>
    bus_sys_step register stop s (s\<lparr>bs_calls := (bs_calls s)[k := Confirmed p]\<rparr>)"
| accepted: "k < length (bs_calls s) \<Longrightarrow> bs_calls s ! k = Confirmed p \<Longrightarrow> register p (bs_bus s) = (None, b) \<Longrightarrow>
    bus_sys_step register stop s (s\<lparr>bs_bus := b, bs_calls := (bs_calls s)[k := Done (Inr ())]\<rparr>)"
| refused: "k < length (bs_calls s) \<Longrightarrow> bs_calls s ! k = Confirmed p \<Longrightarrow> register p (bs_bus s) = (Some err, b) \<Longrightarrow>
    bus_sys_step register stop s (s\<lparr>bs_bus := b, bs_calls := (bs_calls s)[k := Closing p err]\<rparr>)"
| closed: "k < length (bs_calls s) \<Longrightarrow> bs_calls s ! k = Closing p err \<Longrightarrow>
    bus_sys_step register stop s ((close_subs {p} es s)\<lparr>bs_calls := (bs_calls s)[k := Done (Inl err)]\<rparr>)"
| stop: "stop (bs_bus s) = (ps, b) \<Longrightarrow>
    bus_sys_step register stop s ((close_subs (set ps) es s)\<lparr>bs_bus := b\<rparr>)"

definition new_bus_system :: "'b \<Rightarrow> 'b bus_system" where
  "new_bus_system b = \<lparr>bs_bus = b, bs_open = {}, bs_errors = {}, bs_next = 0, bs_calls = []\<rparr>"

fun holds :: "subscribing \<Rightarrow> addr set" where
  "holds (Awaiting p) = {p}"
| "holds (Confirmed p) = {p}"
| "holds (Closing p err) = {p}"
| "holds (Done r) = {}"

definition in_flight :: "subscribing list \<Rightarrow> addr set" where
  "in_flight cs = (\<Union>c \<in> set cs. holds c)"

text \<open>The calls that have returned nil.\<close>

definition accepted_calls :: "'b bus_system \<Rightarrow> nat set" where
  "accepted_calls s = {k. k < length (bs_calls s) \<and> bs_calls s ! k = Done (Inr ())}"

lemma in_flight_update:
  assumes "k < length cs"
  shows "in_flight cs - holds (cs ! k) \<union> holds c \<subseteq> in_flight (cs[k := c])"
proof -
  have "holds c \<subseteq> in_flight (cs[k := c])"
    using assms set_update_memI [of k cs c] unfolding in_flight_def by blast
  moreover have "holds d \<subseteq> in_flight (cs[k := c])" if "d \<in> set cs" and "d \<noteq> cs ! k" for d
  proof -
    from that obtain j where "j < length cs" and "cs ! j = d" and "j \<noteq> k" by (metis in_set_conv_nth)
    then have "d \<in> set (cs[k := c])" by (metis length_list_update nth_list_update_neq nth_mem)
    then show ?thesis unfolding in_flight_def by blast
  qed
  ultimately show ?thesis unfolding in_flight_def by blast
qed

text \<open>
  The contract of the bookkeeping: \<open>subs\<close> are the registered subscriptions; a stopped bus
  refuses and stays stopped, any other registers; \<open>Stop\<close> hands over every registered one.
\<close>

locale stoppable_bus =
  fixes register :: "addr \<Rightarrow> 'b \<Rightarrow> go_error option \<times> 'b"
    and stop :: "'b \<Rightarrow> addr list \<times> 'b"
    and subs :: "'b \<Rightarrow> addr list"
    and stopped :: "'b \<Rightarrow> bool"
  assumes register_stopped: "stopped b \<Longrightarrow> \<exists>err. register p b = (Some err, b)"
    and register_running: "\<not> stopped b \<Longrightarrow> \<exists>b'. register p b = (None, b') \<and> subs b' = subs b @ [p] \<and> \<not> stopped b'"
    and stop_all: "stop b = (ps, b') \<Longrightarrow> ps = subs b \<and> subs b' = [] \<and> stopped b'"
begin

definition sys_inv :: "'b bus_system \<Rightarrow> bool" where
  "sys_inv s \<longleftrightarrow> bs_open s \<subseteq> set (subs (bs_bus s)) \<union> in_flight (bs_calls s) \<union> bs_errors s \<and>
     (stopped (bs_bus s) \<longrightarrow> subs (bs_bus s) = [])"

lemma sys_inv_step: "bus_sys_step register stop s s' \<Longrightarrow> sys_inv s \<Longrightarrow> sys_inv s'"
proof (induction rule: bus_sys_step.induct)
  case (subscribe s)
  then show ?case by (auto simp: sys_inv_def in_flight_def)
next
  case (fail k s p err es)
  from in_flight_update [OF fail(1), of "Done (Inl err)"] fail show ?case by (auto simp: sys_inv_def close_subs_def)
next
  case (confirm k s p)
  from in_flight_update [OF confirm(1), of "Confirmed p"] confirm show ?case by (auto simp: sys_inv_def close_subs_def)
next
  case (accepted k s p b)
  from in_flight_update [OF accepted(1), of "Done (Inr ())"] accepted
    register_stopped [of "bs_bus s" p] register_running [of "bs_bus s" p]
  show ?case by (cases "stopped (bs_bus s)") (auto simp: sys_inv_def)
next
  case (refused k s p err b)
  from in_flight_update [OF refused(1), of "Closing p err"] refused
    register_stopped [of "bs_bus s" p] register_running [of "bs_bus s" p]
  show ?case by (cases "stopped (bs_bus s)") (auto simp: sys_inv_def)
next
  case (closed k s p err es)
  from in_flight_update [OF closed(1), of "Done (Inl err)"] closed show ?case by (auto simp: sys_inv_def close_subs_def)
next
  case (stop s ps b es)
  from stop_all [OF stop(1)] stop(2) show ?case by (auto simp: sys_inv_def close_subs_def)
qed

lemma stopped_step: "bus_sys_step register stop s s' \<Longrightarrow> stopped (bs_bus s) \<Longrightarrow> stopped (bs_bus s')"
proof (induction rule: bus_sys_step.induct)
  case (accepted k s p b)
  with register_stopped [of "bs_bus s" p] show ?case by auto
next
  case (refused k s p err b)
  with register_stopped [of "bs_bus s" p] show ?case by auto
next
  case (stop s ps b es)
  with stop_all show ?case by auto
qed (auto simp: close_subs_def)

text \<open>After \<^verbatim>\<open>Stop\<close>, an open subscription belongs to a call that is still under way.\<close>

lemma stopped_closes_all:
  assumes "(bus_sys_step register stop)\<^sup>*\<^sup>* (new_bus_system b) s" and "subs b = []" and "stopped (bs_bus s)"
  shows "bs_open s \<subseteq> in_flight (bs_calls s) \<union> bs_errors s"
proof -
  have "sys_inv (new_bus_system b)" by (simp add: sys_inv_def new_bus_system_def assms(2))
  with assms(1) have "sys_inv s"
    by (induction rule: rtranclp_induct) (auto intro: sys_inv_step)
  with assms(3) show ?thesis by (auto simp: sys_inv_def)
qed

lemma stopped_forever:
  "(bus_sys_step register stop)\<^sup>*\<^sup>* s s' \<Longrightarrow> stopped (bs_bus s) \<Longrightarrow> stopped (bs_bus s')"
  by (induction rule: rtranclp_induct) (auto intro: stopped_step)

text \<open>A call under way on a stopped bus cannot return nil.\<close>

lemma stopped_step_accepts_none:
  "bus_sys_step register stop s s' \<Longrightarrow> stopped (bs_bus s) \<Longrightarrow> accepted_calls s' \<subseteq> accepted_calls s"
proof (induction rule: bus_sys_step.induct)
  case (accepted k s p b)
  with register_stopped [of "bs_bus s" p] show ?case by auto
qed (auto simp: accepted_calls_def close_subs_def nth_append nth_list_update split: if_splits)

lemma stopped_accepts_none:
  "(bus_sys_step register stop)\<^sup>*\<^sup>* s s' \<Longrightarrow> stopped (bs_bus s) \<Longrightarrow> accepted_calls s' \<subseteq> accepted_calls s"
  by (induction rule: rtranclp_induct) (use stopped_forever stopped_step_accepts_none in \<open>auto, blast\<close>)

end

interpretation redis_bus: stoppable_bus RedisEventBus_register RedisEventBus_Stop rb_pubsubs rb_stopped
  by unfold_locales (auto simp: RedisEventBus_register_def RedisEventBus_Stop_def)

interpretation nats_bus: stoppable_bus NATSEventBus_register NATSEventBus_Stop nb_subs nb_stopped
  by unfold_locales (auto simp: NATSEventBus_register_def NATSEventBus_Stop_def)

abbreviation redis_steps where
  "redis_steps \<equiv> (bus_sys_step RedisEventBus_register RedisEventBus_Stop)\<^sup>*\<^sup>*"

abbreviation nats_steps where
  "nats_steps \<equiv> (bus_sys_step NATSEventBus_register NATSEventBus_Stop)\<^sup>*\<^sup>*"

text \<open>
  C22. No subscription survives \<^verbatim>\<open>Stop\<close>, for the bus over Redis. In every interleaving of \<^verbatim>\<open>Subscribe\<close>
  calls, however slow the broker, with any number of \<^verbatim>\<open>Stop\<close> calls: once the bus is stopped,
  every subscription that is still open belongs to a \<^verbatim>\<open>Subscribe\<close> call that has not returned
  or is one whose closing reported an error, and from then on no call of \<^verbatim>\<open>Subscribe\<close> returns nil.
\<close>

theorem redis_stop_closes_all:
  assumes "redis_steps (new_bus_system (RedisEventBus_New channel)) s" and "rb_stopped (bs_bus s)"
    and "redis_steps s s'"
  shows "bs_open s' \<subseteq> in_flight (bs_calls s') \<union> bs_errors s' \<and> accepted_calls s' \<subseteq> accepted_calls s"
  using redis_bus.stopped_closes_all [OF rtranclp_trans [OF assms(1,3)]]
    redis_bus.stopped_forever [OF assms(3,2)] redis_bus.stopped_accepts_none [OF assms(3,2)]
  by (simp add: RedisEventBus_New_def)

text \<open>
  No subscription survives \<^verbatim>\<open>Stop\<close>, for the bus over NATS: in every interleaving of \<^verbatim>\<open>Subscribe\<close>
  and \<^verbatim>\<open>Stop\<close> calls, once the bus is stopped every subscription that is still open belongs to a
  \<^verbatim>\<open>Subscribe\<close> call that has not returned or is one whose \<^verbatim>\<open>Unsubscribe\<close> reported an error, and
  from then on no call of \<^verbatim>\<open>Subscribe\<close> returns nil.
\<close>

lemma nats_stop_closes_all:
  assumes "nats_steps (new_bus_system (NATSEventBus_New subject)) s" and "nb_stopped (bs_bus s)"
    and "nats_steps s s'"
  shows "bs_open s' \<subseteq> in_flight (bs_calls s') \<union> bs_errors s' \<and> accepted_calls s' \<subseteq> accepted_calls s"
  using nats_bus.stopped_closes_all [OF rtranclp_trans [OF assms(1,3)]]
    nats_bus.stopped_forever [OF assms(3,2)] nats_bus.stopped_accepts_none [OF assms(3,2)]
  by (simp add: NATSEventBus_New_def)

text \<open>A slow subscription that \<^verbatim>\<open>Stop\<close> overtakes.\<close>

lemma overtaken_subscription:
  assumes "stop b = ([], b')" and "register 0 b' = (Some err, b')"
  shows "\<exists>s s'. (bus_sys_step register stop)\<^sup>*\<^sup>* (new_bus_system b) s \<and> bs_bus s = b' \<and> bs_open s = {0} \<and>
    (bus_sys_step register stop)\<^sup>*\<^sup>* s s' \<and> bs_calls s' = [Done (Inl err)] \<and> bs_errors s' = {}"
proof -
  let ?step = "bus_sys_step register stop"
  let ?s0 = "new_bus_system b"
  let ?s1 = "\<lparr>bs_bus = b, bs_open = {0}, bs_errors = {}, bs_next = 1, bs_calls = [Awaiting 0]\<rparr>"
  let ?s2 = "\<lparr>bs_bus = b', bs_open = {0}, bs_errors = {}, bs_next = 1, bs_calls = [Awaiting 0]\<rparr>"
  let ?s3 = "\<lparr>bs_bus = b', bs_open = {0}, bs_errors = {}, bs_next = 1, bs_calls = [Confirmed 0]\<rparr>"
  let ?s4 = "\<lparr>bs_bus = b', bs_open = {0}, bs_errors = {}, bs_next = 1, bs_calls = [Closing 0 err]\<rparr>"
  let ?s5 = "\<lparr>bs_bus = b', bs_open = {}, bs_errors = {}, bs_next = 1, bs_calls = [Done (Inl err)]\<rparr>"
  have "?step ?s0 ?s1" using bus_sys_step.subscribe [of register stop ?s0] by (simp add: new_bus_system_def)
  moreover have "?step ?s1 ?s2" using bus_sys_step.stop [of stop ?s1 "[]" b' register "{}"] assms(1)
    by (simp add: close_subs_def)
  moreover have "?step ?s2 ?s3" using bus_sys_step.confirm [of 0 ?s2 0 register stop] by simp
  moreover have "?step ?s3 ?s4" using bus_sys_step.refused [of 0 ?s3 0 register err b' stop] assms(2) by simp
  moreover have "?step ?s4 ?s5" using bus_sys_step.closed [of 0 ?s4 0 err register stop "{}"]
    by (simp add: close_subs_def)
  ultimately have "?step\<^sup>*\<^sup>* ?s0 ?s2" and "?step\<^sup>*\<^sup>* ?s2 ?s5" by (meson rtranclp.rtrancl_refl rtranclp.rtrancl_into_rtrancl)+
  then show ?thesis by (intro exI [of _ ?s2] exI [of _ ?s5]) simp
qed

theorem redis_stop_closes_all_witness:
  "\<exists>s s'. redis_steps (new_bus_system (RedisEventBus_New ''events'')) s \<and> bs_open s = {0} \<and>
     redis_steps s s' \<and> bs_calls s' = [Done (Inl RedisEventBus_ErrStopped)] \<and> bs_open s' = {}"
proof -
  let ?b = "RedisEventBus_New ''events''"
  have "RedisEventBus_Stop ?b = ([], ?b\<lparr>rb_stopped := True\<rparr>)"
    and "RedisEventBus_register 0 (?b\<lparr>rb_stopped := True\<rparr>) = (Some RedisEventBus_ErrStopped, ?b\<lparr>rb_stopped := True\<rparr>)"
    by (simp_all add: RedisEventBus_Stop_def RedisEventBus_New_def RedisEventBus_register_def)
  from overtaken_subscription [where b = ?b and b' = "?b\<lparr>rb_stopped := True\<rparr>" and stop = RedisEventBus_Stop
      and register = RedisEventBus_register, OF this] obtain s s' where run: "redis_steps (new_bus_system ?b) s"
    "bs_bus s = ?b\<lparr>rb_stopped := True\<rparr>" "bs_open s = {0}" "redis_steps s s'"
    "bs_calls s' = [Done (Inl RedisEventBus_ErrStopped)]" "bs_errors s' = {}" by blast
  with redis_stop_closes_all [OF run(1) _ run(4)] show ?thesis by (auto simp: in_flight_def)
qed

text \<open>
  The uninterrupted calls are runs of the relation: with a client that only keeps track of the
  subscriptions, the call's result is the result of a finished call of the system.
\<close>

definition open_sub :: "'b bus_system \<Rightarrow> 'b bus_system" where
  "open_sub s = s\<lparr>bs_open := insert (bs_next s) (bs_open s), bs_next := Suc (bs_next s)\<rparr>"

definition tracking_redis :: "unit result \<Rightarrow> addr set \<Rightarrow> (RedisEventBus bus_system, 'w) redis_client" where
  "tracking_redis received es = \<lparr>rc_Subscribe = (\<lambda>ch s. (bs_next s, open_sub s)),
     rc_Receive = (\<lambda>p s. (received, s)), rc_Close = (\<lambda>p s. (Inr (), close_subs {p} es s)),
     rc_read = (\<lambda>p f s. s)\<rparr>"

definition tracking_nats :: "unit result \<Rightarrow> addr set \<Rightarrow> (NATSEventBus bus_system, 'w) nats_client" where
  "tracking_nats received es = \<lparr>nc_Subscribe = (\<lambda>subj f s.
       case received of Inl err \<Rightarrow> (Inl err, close_subs {bs_next s} {} (open_sub s)) | Inr _ \<Rightarrow> (Inr (bs_next s), open_sub s)),
     nc_Unsubscribe = (\<lambda>p s. (Inr (), close_subs {p} es s))\<rparr>"

text \<open>One whole call as steps of the system, given what the broker answers.\<close>

definition subscribe_outcome ::
  "(addr \<Rightarrow> 'b \<Rightarrow> go_error option \<times> 'b) \<Rightarrow> unit result \<Rightarrow> addr set \<Rightarrow> addr set \<Rightarrow> 'b bus_system \<Rightarrow>
     unit result \<times> 'b \<times> 'b bus_system" where
  "subscribe_outcome register received es0 es s =
     (let p = bs_next s; s' = open_sub s in
      case received of
        Inl err \<Rightarrow> (Inl err, bs_bus s, close_subs {p} es0 s')
      | Inr _ \<Rightarrow>
          (case register p (bs_bus s) of
             (Some err, b) \<Rightarrow> (Inl err, b, close_subs {p} es s')
           | (None, b) \<Rightarrow> (Inr (), b, s')))"

lemma subscribe_outcome_steps:
  assumes "subscribe_outcome register received es0 es s = (res, b, s')"
  shows "(bus_sys_step register stop)\<^sup>*\<^sup>* s (s'\<lparr>bs_bus := b, bs_calls := bs_calls s @ [Done res]\<rparr>)"
proof -
  let ?step = "bus_sys_step register stop" and ?k = "length (bs_calls s)" and ?p = "bs_next s"
  let ?call = "\<lambda>c. (open_sub s)\<lparr>bs_calls := bs_calls s @ [c]\<rparr>"
  have start: "?step s (?call (Awaiting ?p))"
    using bus_sys_step.subscribe [of register stop s] by (simp add: open_sub_def)
  have confirm: "?step (?call (Awaiting ?p)) (?call (Confirmed ?p))"
    using bus_sys_step.confirm [of ?k "?call (Awaiting ?p)" ?p register stop] by simp
  note go = converse_rtranclp_into_rtranclp [of ?step]
  note unfold = subscribe_outcome_def Let_def close_subs_def open_sub_def
  consider (fail) err where "received = Inl err"
    | (ok) u b1 where "received = Inr u" "register ?p (bs_bus s) = (None, b1)"
    | (stopped) u err b1 where "received = Inr u" "register ?p (bs_bus s) = (Some err, b1)"
    by (metis obj_sumE option.exhaust surj_pair)
  then show ?thesis
  proof cases
    case fail
    have "?step (?call (Awaiting ?p)) ((close_subs {?p} es0 (?call (Awaiting ?p)))\<lparr>bs_calls := bs_calls s @ [Done (Inl err)]\<rparr>)"
      using bus_sys_step.fail [of ?k "?call (Awaiting ?p)" ?p register stop err es0] by simp
    from go [OF start r_into_rtranclp, OF this] assms fail show ?thesis by (cases s) (auto simp: unfold)
  next
    case ok
    have "?step (?call (Confirmed ?p)) ((?call (Confirmed ?p))\<lparr>bs_bus := b1, bs_calls := bs_calls s @ [Done (Inr ())]\<rparr>)"
      using bus_sys_step.accepted [of ?k "?call (Confirmed ?p)" ?p register b1 stop] ok by (simp add: open_sub_def)
    from go [OF start go [OF confirm r_into_rtranclp], OF this] assms ok show ?thesis by (simp add: unfold)
  next
    case stopped
    let ?c = "(open_sub s)\<lparr>bs_bus := b1, bs_calls := bs_calls s @ [Closing ?p err]\<rparr>"
    have "?step (?call (Confirmed ?p)) ?c"
      using bus_sys_step.refused [of ?k "?call (Confirmed ?p)" ?p register err b1 stop] stopped
      by (simp add: open_sub_def)
    moreover have "?step ?c ((close_subs {?p} es ?c)\<lparr>bs_calls := bs_calls s @ [Done (Inl err)]\<rparr>)"
      using bus_sys_step.closed [of ?k ?c ?p err register stop es] by simp
    ultimately have "?step\<^sup>*\<^sup>* (?call (Confirmed ?p)) ((close_subs {?p} es ?c)\<lparr>bs_calls := bs_calls s @ [Done (Inl err)]\<rparr>)"
      by auto
    from go [OF start go [OF confirm], OF this] assms stopped show ?thesis by (cases s) (auto simp: unfold)
  qed
qed

lemma redis_subscribe_uninterrupted:
  assumes "RedisEventBus_Subscribe (tracking_redis received es) unmarshal handler (bs_bus s) s = (res, b, s')"
  shows "redis_steps s (s'\<lparr>bs_bus := b, bs_calls := bs_calls s @ [Done res]\<rparr>)"
  using assms
  by (intro subscribe_outcome_steps [of _ received es es])
    (auto simp: RedisEventBus_Subscribe_def tracking_redis_def subscribe_outcome_def Let_def
      split: sum.splits option.splits prod.splits)

lemma nats_subscribe_uninterrupted:
  assumes "NATSEventBus_Subscribe (tracking_nats received es) unmarshal handler (bs_bus s) s = (res, b, s')"
  shows "nats_steps s (s'\<lparr>bs_bus := b, bs_calls := bs_calls s @ [Done res]\<rparr>)"
  using assms
  by (intro subscribe_outcome_steps [of _ received "{}" es])
    (auto simp: NATSEventBus_Subscribe_def tracking_nats_def subscribe_outcome_def Let_def
      split: sum.splits option.splits prod.splits)

end
