(* ===== verification/Broker_Instances.thy ===== *)
theory Broker_Instances
  imports Broker_Bus Ban_Threads
begin

text \<open>
  Several instances behind a broker: each has a ban checker that follows the bus over Redis or
  NATS (\<^verbatim>\<open>src/eventbus/redis/redis.go\<close>, \<^verbatim>\<open>src/eventbus/nats/nats.go\<close>,
  \<^verbatim>\<open>src/banchecker/banchecker.go\<close>). Instances subscribe at any time, events are published by any of
  them, a publication that failed may have reached some instances and not others, messages
  arrive when they arrive, or are lost, and the goroutines of the handlers overlap in any way,
  with the \<^verbatim>\<open>Load\<close> and the \<^verbatim>\<open>Store\<close> of every \<^verbatim>\<open>apply\<close> as separate steps. The broker and the JSON
  encoding are arguments, their documented behaviour named hypotheses. Shown: an instance to
  which no message was lost knows the newest event since it subscribed of each tenant for which
  no update of \<^verbatim>\<open>apply\<close> was lost.
\<close>

section \<open>The broker\<close>

text \<open>
  Publishing to a channel, a confirmed subscription, the next message of a subscription, if
  there is one, and what a broken connection does to one.
\<close>

record 'r broker_api =
  br_publish :: "string \<Rightarrow> string \<Rightarrow> ('r, unit) call"
  br_subscribe :: "string \<Rightarrow> ('r, addr) call"
  br_receive :: "addr \<Rightarrow> 'r \<Rightarrow> (string \<times> 'r) option"
  br_drop :: "addr \<Rightarrow> 'r \<Rightarrow> 'r"

definition append_message :: "string \<Rightarrow> string list option \<Rightarrow> string list option" where
  "append_message data = map_option (\<lambda>msgs. msgs @ [data])"

text \<open>
  Both brokers deliver at most once. \<open>inbox\<close> has the messages on their way to each subscription
  of the channel, in the client's buffer, at the broker or on the wire, and \<open>dropped\<close> tells
  whether a message to a subscription has been lost. A subscription is left alone, or a message is
  sent to it, if it stays, what was lost stays lost, and unless something is lost its inbox stays as
  it was, or has the message too.
\<close>

definition left_alone :: "('r \<Rightarrow> addr \<rightharpoonup> string list) \<Rightarrow> ('r \<Rightarrow> addr \<Rightarrow> bool) \<Rightarrow> 'r \<Rightarrow> 'r \<Rightarrow> addr \<Rightarrow> bool" where
  "left_alone inbox dropped r r' p \<longleftrightarrow> (inbox r' p = None \<longleftrightarrow> inbox r p = None) \<and> (dropped r p \<longrightarrow> dropped r' p) \<and>
     (dropped r' p \<or> inbox r' p = inbox r p)"

definition sent_to :: "string \<Rightarrow> ('r \<Rightarrow> addr \<rightharpoonup> string list) \<Rightarrow> ('r \<Rightarrow> addr \<Rightarrow> bool) \<Rightarrow> 'r \<Rightarrow> 'r \<Rightarrow> addr \<Rightarrow> bool" where
  "sent_to data inbox dropped r r' p \<longleftrightarrow> (inbox r' p = None \<longleftrightarrow> inbox r p = None) \<and> (dropped r p \<longrightarrow> dropped r' p) \<and>
     (dropped r' p \<or> inbox r' p = append_message data (inbox r p))"

text \<open>
  Documented: a publication that returns nil sends the message to every subscription, which may
  still lose it; one that returns an error may have sent it to any of them; a new subscription
  starts empty; a received message was on its way and is so no more, and the order of arrival is
  not promised; a broken connection loses messages of its own subscription. Each of these may
  lose messages of other subscriptions, and nothing arrives twice.
\<close>

definition broker_documented ::
  "'r broker_api \<Rightarrow> string \<Rightarrow> ('r \<Rightarrow> addr \<rightharpoonup> string list) \<Rightarrow> ('r \<Rightarrow> addr \<Rightarrow> bool) \<Rightarrow> bool" where
  "broker_documented api channel inbox dropped \<longleftrightarrow>
     (\<forall>data r u r'. br_publish api channel data r = (Inr u, r') \<longrightarrow> (\<forall>p. sent_to data inbox dropped r r' p)) \<and>
     (\<forall>data r err r'. br_publish api channel data r = (Inl err, r') \<longrightarrow>
        (\<forall>p. left_alone inbox dropped r r' p \<or> sent_to data inbox dropped r r' p)) \<and>
     (\<forall>r p r'. br_subscribe api channel r = (Inr p, r') \<longrightarrow>
        inbox r p = None \<and> inbox r' p = Some [] \<and> (\<forall>q. q \<noteq> p \<longrightarrow> left_alone inbox dropped r r' q)) \<and>
     (\<forall>r err r'. br_subscribe api channel r = (Inl err, r') \<longrightarrow> (\<forall>q. left_alone inbox dropped r r' q)) \<and>
     (\<forall>r p data r'. br_receive api p r = Some (data, r') \<longrightarrow>
        (\<exists>msgs ns. inbox r p = Some (msgs @ data # ns) \<and> inbox r' p = Some (msgs @ ns)) \<and> (dropped r p \<longrightarrow> dropped r' p) \<and>
        (\<forall>q. q \<noteq> p \<longrightarrow> left_alone inbox dropped r r' q)) \<and>
     (\<forall>r p. (inbox r p \<noteq> None \<longrightarrow> inbox (br_drop api p r) p \<noteq> None \<and> dropped (br_drop api p r) p) \<and>
        (\<forall>q. q \<noteq> p \<longrightarrow> left_alone inbox dropped r (br_drop api p r) q))"

lemma broker_documentedD:
  assumes "broker_documented api channel inbox dropped"
  shows "br_publish api channel data r = (Inr u, r') \<Longrightarrow> sent_to data inbox dropped r r' p"
    and "br_publish api channel data r = (Inl err, r') \<Longrightarrow> left_alone inbox dropped r r' p \<or> sent_to data inbox dropped r r' p"
    and "br_subscribe api channel r = (Inr p, r') \<Longrightarrow> inbox r p = None \<and> inbox r' p = Some []"
    and "br_subscribe api channel r = (Inr p, r') \<Longrightarrow> q \<noteq> p \<Longrightarrow> left_alone inbox dropped r r' q"
    and "br_subscribe api channel r = (Inl err, r') \<Longrightarrow> left_alone inbox dropped r r' q"
    and "br_receive api p r = Some (data, r') \<Longrightarrow> \<exists>msgs ns. inbox r p = Some (msgs @ data # ns) \<and> inbox r' p = Some (msgs @ ns)"
    and "br_receive api p r = Some (data, r') \<Longrightarrow> dropped r p \<Longrightarrow> dropped r' p"
    and "br_receive api p r = Some (data, r') \<Longrightarrow> q \<noteq> p \<Longrightarrow> left_alone inbox dropped r r' q"
    and "inbox r p \<noteq> None \<Longrightarrow> inbox (br_drop api p r) p \<noteq> None \<and> dropped (br_drop api p r) p"
    and "q \<noteq> p \<Longrightarrow> left_alone inbox dropped r (br_drop api p r) q"
  using assms unfolding broker_documented_def by metis+

text \<open>The bus of the instances, over either broker, and what its code makes of the broker.\<close>

datatype broker_bus = OverRedis RedisEventBus | OverNATS NATSEventBus

fun bus_channel :: "broker_bus \<Rightarrow> string" where
  "bus_channel (OverRedis b) = rb_channel b"
| "bus_channel (OverNATS b) = nb_subject b"

fun bus_publish ::
  "'r broker_api \<Rightarrow> (TenantEvent \<Rightarrow> string result) \<Rightarrow> broker_bus \<Rightarrow> Context \<Rightarrow> TenantEvent \<Rightarrow> ('r, unit) call" where
  "bus_publish api marshal (OverRedis b) ctx e = RedisEventBus_Publish marshal (\<lambda>ctx. br_publish api) b ctx e"
| "bus_publish api marshal (OverNATS b) ctx e = NATSEventBus_Publish marshal (br_publish api) b ctx e"

fun bus_on_message :: "(string \<Rightarrow> TenantEvent result) \<Rightarrow> broker_bus \<Rightarrow> 'w EventHandler \<Rightarrow> 'w on_message" where
  "bus_on_message unmarshal (OverRedis b) h = on_message unmarshal h"
| "bus_on_message unmarshal (OverNATS b) h = NATSEventBus_on_message unmarshal h"

fun bus_safeCall :: "broker_bus \<Rightarrow> 'w EventHandler \<Rightarrow> TenantEvent \<Rightarrow> 'w \<Rightarrow> 'w \<times> string list" where
  "bus_safeCall (OverRedis b) h e w = RedisEventBus_safeCall h e w"
| "bus_safeCall (OverNATS b) h e w = NATSEventBus_safeCall h e w"

lemma bus_safeCall_state: "fst (bus_safeCall bus h e w) = fst (h e w)"
  by (cases bus) (simp_all add: RedisEventBus_safeCall_def NATSEventBus_safeCall_def split: prod.splits option.splits panic.splits)

lemma bus_publish_eq:
  "bus_publish api marshal bus ctx e r =
     (case marshal e of Inl err \<Rightarrow> (Inl err, r) | Inr data \<Rightarrow> br_publish api (bus_channel bus) data r)"
  by (cases bus) (simp_all add: RedisEventBus_Publish_def NATSEventBus_Publish_def split: sum.splits)

lemma bus_on_message_eq:
  "bus_on_message unmarshal bus h data gs = (case unmarshal data of Inl err \<Rightarrow> gs | Inr e \<Rightarrow> gs @ [(h, e)])"
  by (cases bus) (simp_all add: on_message_def NATSEventBus_on_message_def)

section \<open>The instances\<close>

text \<open>
  The calls of \<^verbatim>\<open>apply\<close> in progress are part of \<open>in_checks\<close>; \<open>in_running\<close> are the goroutines that
  have been started and have not entered the handler. \<open>in_since\<close> and \<open>in_maybe\<close> record the events
  published since the subscription, with success and without, and \<open>in_loaded\<close> the answers loaded
  at the start, each as an event with the time of the snapshot; nothing reads them.
\<close>

record server_instance =
  in_sub :: addr
  in_checks :: checker_state
  in_running :: "(BanChecker EventHandler \<times> TenantEvent) list"
  in_since :: "TenantEvent list"
  in_maybe :: "TenantEvent list"
  in_loaded :: "TenantEvent list"

abbreviation in_checker :: "server_instance \<Rightarrow> BanChecker" where
  "in_checker x \<equiv> ck_checker (in_checks x)"

text \<open>\<^verbatim>\<open>New\<close> of the ban checker, whose handler the subscription is for.\<close>

definition new_instance :: "addr \<Rightarrow> server_instance" where
  "new_instance p = \<lparr>in_sub = p, in_checks = idle_checker \<lparr>bc_banned = Map.empty\<rparr>, in_running = [], in_since = [],
     in_maybe = [], in_loaded = []\<rparr>"

record 'r fleet =
  fl_broker :: 'r
  fl_instances :: "server_instance list"

abbreviation at_instance :: "'r fleet \<Rightarrow> nat \<Rightarrow> server_instance \<Rightarrow> bool" where
  "at_instance s k x \<equiv> k < length (fl_instances s) \<and> fl_instances s ! k = x"

text \<open>A publication by any of them.\<close>

definition fleet_publish ::
  "'r broker_api \<Rightarrow> (TenantEvent \<Rightarrow> string result) \<Rightarrow> broker_bus \<Rightarrow> Context \<Rightarrow> TenantEvent \<Rightarrow> ('r fleet, unit) call" where
  "fleet_publish api marshal bus ctx e s =
     (case bus_publish api marshal bus ctx e (fl_broker s) of
        (Inr u, r) \<Rightarrow> (Inr u, \<lparr>fl_broker = r, fl_instances = map (\<lambda>x. x\<lparr>in_since := in_since x @ [e]\<rparr>) (fl_instances s)\<rparr>)
      | (Inl err, r) \<Rightarrow> (Inl err, \<lparr>fl_broker = r, fl_instances = map (\<lambda>x. x\<lparr>in_maybe := in_maybe x @ [e]\<rparr>) (fl_instances s)\<rparr>))"

definition loaded_answer :: "TenantID \<Rightarrow> bool \<Rightarrow> Time \<Rightarrow> TenantEvent" where
  "loaded_answer i banned at =
     \<lparr>ev_TenantID = i, ev_State = (if banned then Banned else Active), ev_Timestamp = at\<rparr>"

lemma loaded_answer_sel [simp]:
  "ev_TenantID (loaded_answer i banned at) = i" "ev_Timestamp (loaded_answer i banned at) = at"
  "ev_State (loaded_answer i banned at) = Banned \<longleftrightarrow> banned"
  "report (loaded_answer i banned at) = \<lparr>be_banned = banned, be_updatedAt = at\<rparr>"
  by (simp_all add: loaded_answer_def report_def Banned_def Active_def)

text \<open>
  What happens on the side of the instances: a message starts a goroutine, a goroutine enters the
  handler, and a call of \<^verbatim>\<open>apply\<close> does its \<^verbatim>\<open>Load\<close> or its \<^verbatim>\<open>Store\<close>. In \<open>load\<close> the loop of
  \<^verbatim>\<open>LoadInitialBannedList\<close> enters \<^verbatim>\<open>apply\<close>, with whatever answer the instance's source gave.
\<close>

inductive fleet_move ::
  "'r broker_api \<Rightarrow> (string \<Rightarrow> TenantEvent result) \<Rightarrow> broker_bus \<Rightarrow> 'r fleet \<Rightarrow> 'r fleet \<Rightarrow> bool"
  for api :: "'r broker_api" and unmarshal :: "string \<Rightarrow> TenantEvent result" and bus :: broker_bus where
  join: "br_subscribe api (bus_channel bus) (fl_broker s) = (Inr p, r) \<Longrightarrow>
    fleet_move api unmarshal bus s \<lparr>fl_broker = r, fl_instances = fl_instances s @ [new_instance p]\<rparr>"
| join_fails: "br_subscribe api (bus_channel bus) (fl_broker s) = (Inl err, r) \<Longrightarrow>
    fleet_move api unmarshal bus s (s\<lparr>fl_broker := r\<rparr>)"
| receive: "at_instance s k x \<Longrightarrow> br_receive api (in_sub x) (fl_broker s) = Some (data, r) \<Longrightarrow>
    fleet_move api unmarshal bus s \<lparr>fl_broker = r, fl_instances = (fl_instances s)
      [k := x\<lparr>in_running := bus_on_message unmarshal bus ban_handler data (in_running x)\<rparr>]\<rparr>"
| run: "at_instance s k x \<Longrightarrow> j < length (in_running x) \<Longrightarrow> in_running x ! j = (h, e) \<Longrightarrow>
    fleet_move api unmarshal bus s (s\<lparr>fl_instances := (fl_instances s)
      [k := x\<lparr>in_running := delete_at j (in_running x), in_checks := begin_handleEvent e (in_checks x)\<rparr>]\<rparr>)"
| operate: "at_instance s k x \<Longrightarrow> j < length (ck_threads (in_checks x)) \<Longrightarrow>
    fleet_move api unmarshal bus s (s\<lparr>fl_instances := (fl_instances s)
      [k := x\<lparr>in_checks := advance_apply j (in_checks x)\<rparr>]\<rparr>)"
| load: "at_instance s k x \<Longrightarrow>
    fleet_move api unmarshal bus s (s\<lparr>fl_instances := (fl_instances s)
      [k := x\<lparr>in_checks := begin_apply i banned at (in_checks x),
        in_loaded := in_loaded x @ [loaded_answer i banned at]\<rparr>]\<rparr>)"
| disconnect: "at_instance s k x \<Longrightarrow>
    fleet_move api unmarshal bus s (s\<lparr>fl_broker := br_drop api (in_sub x) (fl_broker s)\<rparr>)"

text \<open>A goroutine of the checker's handler that is not interrupted is the call that the bus makes.\<close>

lemma run_uninterrupted:
  "ck_checker (advance_apply (length (ck_threads c)) (advance_apply (length (ck_threads c)) (begin_handleEvent e c))) =
     fst (bus_safeCall bus ban_handler e (ck_checker c))"
  by (simp add: handleEvent_uninterrupted bus_safeCall_state ban_handler_def)

inductive fleet_step ::
  "'r broker_api \<Rightarrow> (TenantEvent \<Rightarrow> string result) \<Rightarrow> (string \<Rightarrow> TenantEvent result) \<Rightarrow> broker_bus \<Rightarrow>
     'r fleet \<Rightarrow> 'r fleet \<Rightarrow> bool"
  for api :: "'r broker_api" and marshal :: "TenantEvent \<Rightarrow> string result"
    and unmarshal :: "string \<Rightarrow> TenantEvent result" and bus :: broker_bus where
  move: "fleet_move api unmarshal bus s s' \<Longrightarrow> fleet_step api marshal unmarshal bus s s'"
| publish: "fleet_publish api marshal bus ctx e s = (res, s') \<Longrightarrow> fleet_step api marshal unmarshal bus s s'"

definition no_instances :: "'r \<Rightarrow> 'r fleet" where
  "no_instances r = \<lparr>fl_broker = r, fl_instances = []\<rparr>"

section \<open>What an instance has heard\<close>

text \<open>What arrives for published events, and what the messages of an inbox will start.\<close>

definition arriving :: "(TenantEvent \<Rightarrow> string result) \<Rightarrow> (string \<Rightarrow> TenantEvent result) \<Rightarrow> TenantEvent list \<Rightarrow> TenantEvent set" where
  "arriving marshal unmarshal es = {e'. \<exists>e \<in> set es. \<exists>data. marshal e = Inr data \<and> unmarshal data = Inr e'}"

definition decoded :: "(string \<Rightarrow> TenantEvent result) \<Rightarrow> string list \<Rightarrow> TenantEvent set" where
  "decoded unmarshal msgs = {e. \<exists>data \<in> set msgs. unmarshal data = Inr e}"

text \<open>What has reached an instance with the messages on their way, what had to, and what could.\<close>

definition told :: "(string \<Rightarrow> TenantEvent result) \<Rightarrow> string list \<Rightarrow> server_instance \<Rightarrow> TenantID \<Rightarrow> banEntry set" where
  "told unmarshal msgs x i = facts (in_checks x) i \<union> reports (snd ` set (in_running x) \<union> decoded unmarshal msgs) i"

definition promised :: "(TenantEvent \<Rightarrow> string result) \<Rightarrow> (string \<Rightarrow> TenantEvent result) \<Rightarrow> server_instance \<Rightarrow> TenantEvent set" where
  "promised marshal unmarshal x = arriving marshal unmarshal (in_since x) \<union> set (in_loaded x)"

definition possible :: "(TenantEvent \<Rightarrow> string result) \<Rightarrow> (string \<Rightarrow> TenantEvent result) \<Rightarrow> server_instance \<Rightarrow> TenantEvent set" where
  "possible marshal unmarshal x = promised marshal unmarshal x \<union> arriving marshal unmarshal (in_maybe x)"

definition hears ::
  "(TenantEvent \<Rightarrow> string result) \<Rightarrow> (string \<Rightarrow> TenantEvent result) \<Rightarrow> string list \<Rightarrow> server_instance \<Rightarrow> bool" where
  "hears marshal unmarshal msgs x \<longleftrightarrow> (\<forall>i. i \<notin> ck_raced (in_checks x) \<longrightarrow>
     told unmarshal msgs x i \<subseteq> reports (possible marshal unmarshal x) i \<and>
     dominates (told unmarshal msgs x i) (reports (promised marshal unmarshal x) i))"

definition instance_inv ::
  "(TenantEvent \<Rightarrow> string result) \<Rightarrow> (string \<Rightarrow> TenantEvent result) \<Rightarrow> bool \<Rightarrow> string list option \<Rightarrow> server_instance \<Rightarrow> bool" where
  "instance_inv marshal unmarshal lost box x \<longleftrightarrow> (\<forall>e \<in> set (in_since x). \<exists>data. marshal e = Inr data) \<and>
     tracks (in_checks x) \<and> (\<exists>msgs. box = Some msgs \<and> (lost \<or> hears marshal unmarshal msgs x))"

definition fleet_inv ::
  "(TenantEvent \<Rightarrow> string result) \<Rightarrow> (string \<Rightarrow> TenantEvent result) \<Rightarrow> ('r \<Rightarrow> addr \<rightharpoonup> string list) \<Rightarrow>
     ('r \<Rightarrow> addr \<Rightarrow> bool) \<Rightarrow> 'r fleet \<Rightarrow> bool" where
  "fleet_inv marshal unmarshal inbox dropped s \<longleftrightarrow> distinct (map in_sub (fl_instances s)) \<and>
     (\<forall>x \<in> set (fl_instances s).
        instance_inv marshal unmarshal (dropped (fl_broker s) (in_sub x)) (inbox (fl_broker s) (in_sub x)) x)"

lemma arriving_append: "arriving marshal unmarshal (es @ fs) = arriving marshal unmarshal es \<union> arriving marshal unmarshal fs"
  by (auto simp: arriving_def)

lemma decoded_append: "decoded unmarshal (ms @ ns) = decoded unmarshal ms \<union> decoded unmarshal ns"
  by (auto simp: decoded_def)

lemma arriving_one: "marshal e = Inr data \<Longrightarrow> arriving marshal unmarshal [e] = decoded unmarshal [data]"
  by (auto simp: arriving_def decoded_def)

lemma decoded_Cons: "decoded unmarshal (data # ms) = decoded unmarshal [data] \<union> decoded unmarshal ms"
  by (auto simp: decoded_def)

lemmas hearing = told_def promised_def possible_def arriving_append decoded_append arriving_one

text \<open>New information \<open>N\<close>, possibly none, reaches an instance, and nothing newest is forgotten.\<close>

lemma hears_change:
  assumes hears: "hears marshal unmarshal msgs x" and raced: "ck_raced (in_checks x) \<subseteq> ck_raced (in_checks x')"
    and told: "\<And>i. i \<notin> ck_raced (in_checks x') \<Longrightarrow> covers (told unmarshal msgs' x' i) (told unmarshal msgs x i \<union> reports N i)"
    and new: "promised marshal unmarshal x' \<subseteq> promised marshal unmarshal x \<union> N"
      "possible marshal unmarshal x \<union> N \<subseteq> possible marshal unmarshal x'"
  shows "hears marshal unmarshal msgs' x'"
  unfolding hears_def
proof (intro allI impI conjI)
  fix i assume i: "i \<notin> ck_raced (in_checks x')"
  with raced hears have old: "told unmarshal msgs x i \<subseteq> reports (possible marshal unmarshal x) i"
    "dominates (told unmarshal msgs x i) (reports (promised marshal unmarshal x) i)" by (auto simp: hears_def)
  from told [OF i] have sub: "told unmarshal msgs' x' i \<subseteq> told unmarshal msgs x i \<union> reports N i"
    and dom: "dominates (told unmarshal msgs' x' i) (told unmarshal msgs x i \<union> reports N i)" by (simp_all add: covers_dominates)
  show "told unmarshal msgs' x' i \<subseteq> reports (possible marshal unmarshal x') i"
    using sub old(1) reports_mono [OF new(2), of i] by auto
  have "dominates (told unmarshal msgs x i \<union> reports N i) (reports (promised marshal unmarshal x) i \<union> reports N i)"
    using old(2) by (auto simp: dominates_def)
  from dominates_trans [OF dom this] show "dominates (told unmarshal msgs' x' i) (reports (promised marshal unmarshal x') i)"
    by (rule dominates_subset) (use reports_mono [OF new(1), of i] in simp)
qed

section \<open>Every step keeps it\<close>

lemma instance_inv_new: "instance_inv marshal unmarshal lost (Some []) (new_instance p)"
  by (simp add: instance_inv_def hears_def hearing new_instance_def arriving_def decoded_def dominates_def)

text \<open>What another instance's dealings with the broker do to this one.\<close>

lemma instance_inv_left_alone:
  assumes "instance_inv marshal unmarshal (dropped r p) (inbox r p) x" and "left_alone inbox dropped r r' p"
  shows "instance_inv marshal unmarshal (dropped r' p) (inbox r' p) x"
  using assms by (auto simp: instance_inv_def left_alone_def)

lemma instance_inv_sent:
  assumes "instance_inv marshal unmarshal (dropped r p) (inbox r p) x" and "sent_to data inbox dropped r r' p"
    and "in_since x' = in_since x @ es" and "\<forall>e \<in> set es. marshal e = Inr data" and "in_checks x' = in_checks x"
    and "\<And>msgs. hears marshal unmarshal msgs x \<Longrightarrow> hears marshal unmarshal (msgs @ [data]) x'"
  shows "instance_inv marshal unmarshal (dropped r' p) (inbox r' p) x'"
proof -
  from assms(1) obtain msgs where box: "inbox r p = Some msgs" "dropped r p \<or> hears marshal unmarshal msgs x"
    by (auto simp: instance_inv_def)
  with assms(2,6) have "\<exists>msgs'. inbox r' p = Some msgs' \<and> (dropped r' p \<or> hears marshal unmarshal msgs' x')"
    by (auto simp: sent_to_def append_message_def)
  with assms(1,3-5) show ?thesis by (auto simp: instance_inv_def)
qed

lemma instance_inv_since:
  assumes "instance_inv marshal unmarshal (dropped r p) (inbox r p) x" and "marshal e = Inr data"
    and "sent_to data inbox dropped r r' p"
  shows "instance_inv marshal unmarshal (dropped r' p) (inbox r' p) (x\<lparr>in_since := in_since x @ [e]\<rparr>)" (is "instance_inv _ _ _ _ ?x")
proof (rule instance_inv_sent [OF assms(1,3), where es = "[e]"])
  show "hears marshal unmarshal (msgs @ [data]) ?x" if "hears marshal unmarshal msgs x" for msgs
    using that by (rule hears_change [where N = "decoded unmarshal [data]"]) (auto simp: hearing assms(2) Un_ac)
qed (use assms(2) in simp_all)

lemma instance_inv_maybe:
  assumes inv: "instance_inv marshal unmarshal (dropped r p) (inbox r p) x"
    and "left_alone inbox dropped r r' p \<or> (\<exists>data. marshal e = Inr data \<and> sent_to data inbox dropped r r' p)"
  shows "instance_inv marshal unmarshal (dropped r' p) (inbox r' p) (x\<lparr>in_maybe := in_maybe x @ [e]\<rparr>)" (is "instance_inv _ _ _ _ ?x")
  using assms(2)
proof (elim disjE exE conjE)
  assume alone: "left_alone inbox dropped r r' p"
  have "hears marshal unmarshal msgs ?x" if "hears marshal unmarshal msgs x" for msgs
    using that by (rule hears_change [where N = "{}"]) (auto simp: hearing)
  with inv have "instance_inv marshal unmarshal (dropped r p) (inbox r p) ?x" by (auto simp: instance_inv_def)
  from instance_inv_left_alone [OF this alone] show ?thesis .
next
  fix data assume data: "marshal e = Inr data" and sent: "sent_to data inbox dropped r r' p"
  show ?thesis
  proof (rule instance_inv_sent [OF inv sent, where es = "[]"])
    show "hears marshal unmarshal (msgs @ [data]) ?x" if "hears marshal unmarshal msgs x" for msgs
      using that by (rule hears_change [where N = "decoded unmarshal [data]"]) (auto simp: hearing data Un_ac)
  qed simp_all
qed

text \<open>A step of the instance itself.\<close>

lemma instance_inv_change:
  assumes "instance_inv marshal unmarshal lost (Some msgs) x" and "in_since x' = in_since x" and "tracks (in_checks x')"
    and "hears marshal unmarshal msgs x \<Longrightarrow> hears marshal unmarshal msgs' x'" and "lost \<Longrightarrow> lost'"
  shows "instance_inv marshal unmarshal lost' (Some msgs') x'"
  using assms by (auto simp: instance_inv_def)

lemma instance_inv_receive:
  assumes "instance_inv marshal unmarshal lost (Some (msgs @ data # ns)) x" and "lost \<Longrightarrow> lost'"
  shows "instance_inv marshal unmarshal lost' (Some (msgs @ ns))
    (x\<lparr>in_running := bus_on_message unmarshal bus ban_handler data (in_running x)\<rparr>)" (is "instance_inv _ _ _ _ ?x")
proof (rule instance_inv_change [OF assms(1) _ _ _ assms(2)])
  have "told unmarshal (msgs @ ns) ?x i = told unmarshal (msgs @ data # ns) x i" for i
    unfolding told_def decoded_append decoded_Cons [of _ data ns]
    by (cases "unmarshal data") (auto simp: bus_on_message_eq decoded_def [of _ "[data]"])
  then show "hears marshal unmarshal (msgs @ ns) ?x" if "hears marshal unmarshal (msgs @ data # ns) x"
    using that by (simp add: hears_def promised_def possible_def)
qed (use assms(1) in \<open>simp_all add: instance_inv_def\<close>)

lemma instance_inv_run:
  assumes "instance_inv marshal unmarshal lost (Some msgs) x" and "j < length (in_running x)" and "in_running x ! j = (h, e)"
  shows "instance_inv marshal unmarshal lost (Some msgs)
    (x\<lparr>in_running := delete_at j (in_running x), in_checks := begin_handleEvent e (in_checks x)\<rparr>)" (is "instance_inv _ _ _ _ ?x")
proof (rule instance_inv_change [OF assms(1)])
  have "set (in_running x) = insert (h, e) (set (delete_at j (in_running x)))"
    using set_delete_at [OF assms(2)] assms(3) by simp
  then have "told unmarshal msgs ?x i = told unmarshal msgs x i" for i by (auto simp: told_def)
  then show "hears marshal unmarshal msgs ?x" if "hears marshal unmarshal msgs x"
    using that by (simp add: hears_def promised_def possible_def)
qed (use assms(1) in \<open>simp_all add: instance_inv_def\<close>)

lemma instance_inv_operate:
  assumes "instance_inv marshal unmarshal lost (Some msgs) x"
  shows "instance_inv marshal unmarshal lost (Some msgs) (x\<lparr>in_checks := advance_apply j (in_checks x)\<rparr>)" (is "instance_inv _ _ _ _ ?x")
proof (rule instance_inv_change [OF assms])
  from assms have tracks: "tracks (in_checks x)" by (simp add: instance_inv_def)
  then show "tracks (in_checks ?x)" by (simp add: advance_tracks)
  show "hears marshal unmarshal msgs ?x" if "hears marshal unmarshal msgs x"
    using that
  proof (rule hears_change [where N = "{}"])
    show "covers (told unmarshal msgs ?x i) (told unmarshal msgs x i \<union> reports {} i)" if "i \<notin> ck_raced (in_checks ?x)" for i
      using covers_union [OF advance_covers [OF tracks] covers_refl, of i j] that by (simp add: told_def)
  qed (simp_all add: raced_mono promised_def possible_def)
qed simp_all

lemma instance_inv_load:
  assumes "instance_inv marshal unmarshal lost (Some msgs) x"
  shows "instance_inv marshal unmarshal lost (Some msgs) (x\<lparr>in_checks := begin_apply i banned at (in_checks x),
    in_loaded := in_loaded x @ [loaded_answer i banned at]\<rparr>)" (is "instance_inv _ _ _ _ ?x")
proof (rule instance_inv_change [OF assms])
  show "hears marshal unmarshal msgs ?x" if "hears marshal unmarshal msgs x"
    using that by (rule hears_change [where N = "{loaded_answer i banned at}"]) (auto simp: hearing insert_commute)
qed (use assms in \<open>simp_all add: instance_inv_def\<close>)

lemma fleet_inv_update:
  assumes inv: "fleet_inv marshal unmarshal inbox dropped s" and k: "at_instance s k x" and sub: "in_sub x' = in_sub x"
    and here: "instance_inv marshal unmarshal (dropped r (in_sub x)) (inbox r (in_sub x)) x'"
    and others: "\<And>q. q \<noteq> in_sub x \<Longrightarrow> left_alone inbox dropped (fl_broker s) r q"
  shows "fleet_inv marshal unmarshal inbox dropped \<lparr>fl_broker = r, fl_instances = (fl_instances s)[k := x']\<rparr>"
proof -
  have subs: "map in_sub ((fl_instances s)[k := x']) = map in_sub (fl_instances s)"
    using k sub by (auto simp: map_update nth_map [symmetric] simp del: nth_map)
  have "instance_inv marshal unmarshal (dropped r (in_sub y)) (inbox r (in_sub y)) y" if y: "y \<in> set ((fl_instances s)[k := x'])" for y
  proof -
    from y obtain j where j: "j < length (fl_instances s)" "y = (fl_instances s)[k := x'] ! j"
      by (auto simp: in_set_conv_nth)
    show ?thesis
    proof (cases "j = k")
      case True
      with j here sub show ?thesis by simp
    next
      case False
      with j have yj: "y = fl_instances s ! j" by simp
      with False k j inv have "in_sub y \<noteq> in_sub x"
        by (auto simp: fleet_inv_def distinct_conv_nth)
      from others [OF this] yj j(1) inv instance_inv_left_alone show ?thesis by (fastforce simp: fleet_inv_def)
    qed
  qed
  with inv subs show ?thesis by (simp add: fleet_inv_def)
qed

text \<open>A step that leaves the broker alone.\<close>

lemma fleet_inv_local:
  assumes inv: "fleet_inv marshal unmarshal inbox dropped s" and k: "at_instance s k x" and sub: "in_sub x' = in_sub x"
    and here: "\<And>lost msgs. instance_inv marshal unmarshal lost (Some msgs) x \<Longrightarrow> instance_inv marshal unmarshal lost (Some msgs) x'"
  shows "fleet_inv marshal unmarshal inbox dropped (s\<lparr>fl_instances := (fl_instances s)[k := x']\<rparr>)"
proof -
  have "instance_inv marshal unmarshal (dropped (fl_broker s) (in_sub x)) (inbox (fl_broker s) (in_sub x)) x"
    using inv k by (auto simp: fleet_inv_def)
  moreover from this obtain msgs where "inbox (fl_broker s) (in_sub x) = Some msgs" by (auto simp: instance_inv_def)
  ultimately have "instance_inv marshal unmarshal (dropped (fl_broker s) (in_sub x)) (inbox (fl_broker s) (in_sub x)) x'"
    using here by simp
  from fleet_inv_update [OF inv k sub this] show ?thesis by (cases s) (simp add: left_alone_def)
qed

lemma fleet_inv_at: "fleet_inv marshal unmarshal inbox dropped s \<Longrightarrow> at_instance s k x \<Longrightarrow>
    instance_inv marshal unmarshal (dropped (fl_broker s) (in_sub x)) (inbox (fl_broker s) (in_sub x)) x"
  by (auto simp: fleet_inv_def)

lemma fleet_inv_published:
  assumes "fleet_inv marshal unmarshal inbox dropped s" and "\<And>x. in_sub (f x) = in_sub x"
    and "\<And>x. instance_inv marshal unmarshal (dropped (fl_broker s) (in_sub x)) (inbox (fl_broker s) (in_sub x)) x \<Longrightarrow>
      instance_inv marshal unmarshal (dropped r (in_sub x)) (inbox r (in_sub x)) (f x)"
  shows "fleet_inv marshal unmarshal inbox dropped \<lparr>fl_broker = r, fl_instances = map f (fl_instances s)\<rparr>"
  using assms by (auto simp: fleet_inv_def comp_def)

lemma fleet_inv_publish:
  assumes doc: "broker_documented api (bus_channel bus) inbox dropped" and inv: "fleet_inv marshal unmarshal inbox dropped s"
    and run: "fleet_publish api marshal bus ctx e s = (res, s')"
  shows "fleet_inv marshal unmarshal inbox dropped s'"
proof -
  obtain res1 r where pub: "bus_publish api marshal bus ctx e (fl_broker s) = (res1, r)" by fastforce
  show ?thesis
  proof (cases res1)
    case (Inr u)
    with pub obtain data where data: "marshal e = Inr data" "br_publish api (bus_channel bus) data (fl_broker s) = (Inr u, r)"
      by (auto simp: bus_publish_eq split: sum.splits)
    have "fleet_inv marshal unmarshal inbox dropped \<lparr>fl_broker = r, fl_instances = map (\<lambda>x. x\<lparr>in_since := in_since x @ [e]\<rparr>) (fl_instances s)\<rparr>"
      by (intro fleet_inv_published [OF inv] instance_inv_since [where marshal = marshal and e = e, OF _ data(1) broker_documentedD(1) [OF doc data(2)]]) simp_all
    with run pub Inr show ?thesis by (simp add: fleet_publish_def)
  next
    case (Inl err)
    have box: "left_alone inbox dropped (fl_broker s) r p \<or> (\<exists>data. marshal e = Inr data \<and> sent_to data inbox dropped (fl_broker s) r p)" for p
      using pub Inl broker_documentedD(2) [OF doc] by (auto simp: bus_publish_eq left_alone_def split: sum.splits)
    have "fleet_inv marshal unmarshal inbox dropped \<lparr>fl_broker = r, fl_instances = map (\<lambda>x. x\<lparr>in_maybe := in_maybe x @ [e]\<rparr>) (fl_instances s)\<rparr>"
      by (intro fleet_inv_published [OF inv] instance_inv_maybe [where marshal = marshal and e = e, OF _ box]) simp_all
    with run pub Inl show ?thesis by (simp add: fleet_publish_def)
  qed
qed

lemma fleet_inv_join:
  assumes inv: "fleet_inv marshal unmarshal inbox dropped s" and box: "inbox (fl_broker s) p = None" "inbox r p = Some []"
    and others: "\<And>q. q \<noteq> p \<Longrightarrow> left_alone inbox dropped (fl_broker s) r q"
  shows "fleet_inv marshal unmarshal inbox dropped \<lparr>fl_broker = r, fl_instances = fl_instances s @ [new_instance p]\<rparr>"
proof -
  have old: "instance_inv marshal unmarshal (dropped (fl_broker s) (in_sub x)) (inbox (fl_broker s) (in_sub x)) x"
    if "x \<in> set (fl_instances s)" for x using inv that by (simp add: fleet_inv_def)
  have new: "in_sub x \<noteq> p" if "x \<in> set (fl_instances s)" for x
    using old [OF that] box(1) by (auto simp: instance_inv_def)
  have "instance_inv marshal unmarshal (dropped r (in_sub x)) (inbox r (in_sub x)) x" if "x \<in> set (fl_instances s)" for x
    using instance_inv_left_alone [OF old [OF that] others [OF new [OF that]]] .
  moreover have "in_sub (new_instance p) = p" by (simp add: new_instance_def)
  ultimately show ?thesis
    using inv new instance_inv_new [of marshal unmarshal "dropped r p" p] box(2) by (auto simp: fleet_inv_def)
qed

lemma fleet_inv_move:
  assumes doc: "broker_documented api (bus_channel bus) inbox dropped"
  shows "fleet_move api unmarshal bus s s' \<Longrightarrow> fleet_inv marshal unmarshal inbox dropped s \<Longrightarrow>
    fleet_inv marshal unmarshal inbox dropped s'"
proof (induction rule: fleet_move.induct)
  case (join s p r)
  from broker_documentedD(3) [OF doc join(1)] broker_documentedD(4) [OF doc join(1)] show ?case
    by (intro fleet_inv_join [OF join(2)]) simp_all
next
  case (join_fails s err r)
  with broker_documentedD(5) [OF doc join_fails(1)] instance_inv_left_alone show ?case
    by (fastforce simp: fleet_inv_def)
next
  case (receive s k x data r)
  from broker_documentedD(6) [OF doc receive(2)] obtain msgs ns where
    msgs: "inbox (fl_broker s) (in_sub x) = Some (msgs @ data # ns)" "inbox r (in_sub x) = Some (msgs @ ns)" by blast
  note here = instance_inv_receive [OF fleet_inv_at [OF receive(3,1), unfolded msgs] broker_documentedD(7) [OF doc receive(2)]]
  show ?case
    by (rule fleet_inv_update [OF receive(3,1)])
      (use here msgs broker_documentedD(8) [OF doc receive(2)] in simp_all)
next
  case (run s k x j h e)
  show ?case by (rule fleet_inv_local [OF run(4,1)]) (use run(2,3) instance_inv_run in simp_all)
next
  case (operate s k x j)
  show ?case by (rule fleet_inv_local [OF operate(3,1)]) (use instance_inv_operate in simp_all)
next
  case (load s k x i banned at)
  show ?case by (rule fleet_inv_local [OF load(2,1)]) (use instance_inv_load in simp_all)
next
  case (disconnect s k x)
  let ?r = "br_drop api (in_sub x) (fl_broker s)"
  note old = fleet_inv_at [OF disconnect(2,1)]
  then have "inbox (fl_broker s) (in_sub x) \<noteq> None" by (auto simp: instance_inv_def)
  with old broker_documentedD(9) [OF doc, of "fl_broker s" "in_sub x"]
  have "instance_inv marshal unmarshal (dropped ?r (in_sub x)) (inbox ?r (in_sub x)) x" by (auto simp: instance_inv_def)
  from fleet_inv_update [OF disconnect(2,1) _ this] broker_documentedD(10) [OF doc] disconnect(1) show ?case
    by (cases s) auto
qed

lemma fleet_inv_step:
  assumes "broker_documented api (bus_channel bus) inbox dropped"
  shows "fleet_step api marshal unmarshal bus s s' \<Longrightarrow> fleet_inv marshal unmarshal inbox dropped s \<Longrightarrow>
    fleet_inv marshal unmarshal inbox dropped s'"
  by (induction rule: fleet_step.induct) (auto intro: fleet_inv_move [OF assms] fleet_inv_publish [OF assms])

lemma fleet_inv_reachable:
  assumes "broker_documented api (bus_channel bus) inbox dropped"
    and "(fleet_step api marshal unmarshal bus)\<^sup>*\<^sup>* (no_instances r) s"
  shows "fleet_inv marshal unmarshal inbox dropped s"
  using assms(2)
  by (induction rule: rtranclp_induct) (auto intro: fleet_inv_step [OF assms(1)], simp add: fleet_inv_def no_instances_def)

section \<open>All instances agree\<close>

text \<open>The encoding gives an event back.\<close>

definition json_documented :: "(TenantEvent \<Rightarrow> string result) \<Rightarrow> (string \<Rightarrow> TenantEvent result) \<Rightarrow> TenantEvent list \<Rightarrow> bool" where
  "json_documented marshal unmarshal es \<longleftrightarrow> (\<forall>e \<in> set es. \<forall>data. marshal e = Inr data \<longrightarrow> unmarshal data = Inr e)"

text \<open>An instance with nothing on its way to it and nothing in progress.\<close>

definition at_rest :: "('r \<Rightarrow> addr \<rightharpoonup> string list) \<Rightarrow> ('r \<Rightarrow> addr \<Rightarrow> bool) \<Rightarrow> 'r \<Rightarrow> server_instance \<Rightarrow> bool" where
  "at_rest inbox dropped r x \<longleftrightarrow> \<not> dropped r (in_sub x) \<and> inbox r (in_sub x) = Some [] \<and> in_running x = [] \<and> finished (in_checks x)"

lemma heard_all:
  assumes "instance_inv marshal unmarshal (dropped r (in_sub x)) (inbox r (in_sub x)) x" and "at_rest inbox dropped r x"
    and "json_documented marshal unmarshal (in_since x)" and "set (in_maybe x) \<subseteq> set (in_since x)" and "i \<notin> ck_raced (in_checks x)"
  shows "covers (set_option (bc_banned (in_checker x) i)) (reports (set (in_since x) \<union> set (in_loaded x)) i)"
proof -
  from assms(1,2) have hears: "hears marshal unmarshal [] x"
    and encoded: "\<forall>e \<in> set (in_since x). \<exists>data. marshal e = Inr data" by (auto simp: instance_inv_def at_rest_def)
  have "arriving marshal unmarshal (in_since x) = set (in_since x)"
    using assms(3) encoded unfolding arriving_def json_documented_def by fastforce
  moreover have "arriving marshal unmarshal (in_maybe x) \<subseteq> set (in_since x)"
    using assms(3,4) unfolding arriving_def json_documented_def by fastforce
  ultimately have E: "promised marshal unmarshal x = set (in_since x) \<union> set (in_loaded x)"
    "possible marshal unmarshal x = set (in_since x) \<union> set (in_loaded x)" by (auto simp: promised_def possible_def)
  have "told unmarshal [] x i = set_option (bc_banned (in_checker x) i)"
    using assms(2) by (simp add: told_def at_rest_def facts_finished decoded_def)
  with hears assms(5) show ?thesis unfolding hears_def E covers_dominates by metis
qed

text \<open>A checker that holds a newest of some reports: what it says, when none contradict each other.\<close>

lemma covers_IsBanned:
  assumes "covers (set_option (bc_banned bc i)) (reports E i)"
    and "\<forall>e \<in> E. \<forall>e' \<in> E. ev_TenantID e = ev_TenantID e' \<and> ev_Timestamp e = ev_Timestamp e' \<longrightarrow>
      (ev_State e = Banned \<longleftrightarrow> ev_State e' = Banned)"
  shows "BanChecker_IsBanned bc i \<longleftrightarrow>
    (\<exists>e \<in> E. ev_TenantID e = i \<and> ev_State e = Banned \<and> (\<forall>e' \<in> E. ev_TenantID e' = i \<longrightarrow> ev_Timestamp e' \<le> ev_Timestamp e))"
proof (cases "bc_banned bc i")
  case None
  then have "\<forall>e \<in> E. ev_TenantID e \<noteq> i" using assms(1) by (auto simp: covers_def reports_def)
  with None show ?thesis by (auto simp: BanChecker_IsBanned_def)
next
  case (Some v)
  with assms(1) obtain e where e: "e \<in> E" "ev_TenantID e = i" "v = report e"
    "\<forall>e' \<in> E. ev_TenantID e' = i \<longrightarrow> ev_Timestamp e' \<le> ev_Timestamp e"
    by (auto simp: covers_def reports_def report_def)
  then have "BanChecker_IsBanned bc i \<longleftrightarrow> ev_State e = Banned" using Some by (simp add: BanChecker_IsBanned_def report_def)
  with e(1,2,4) assms(2) show ?thesis by (metis order_antisym)
qed

text \<open>
  Instances behind a broker agree. For the bus over Redis and over NATS, with instances that
  subscribe at any time, publications by anyone, some of which fail after having reached some
  of the instances, messages that arrive late and handlers that overlap in any way: an instance
  to which no message was lost and that has nothing left to receive and to run reports a
  tenant, for which no update of \<^verbatim>\<open>apply\<close> was lost, as banned exactly if a newest event for it, of
  those published since the instance subscribed and of the answers it loaded, is a ban. It is
  enough that every failed publication was repeated with success, as the retry queue does;
  repetitions do no harm. Contradicting events at one instant are excluded.
\<close>

lemma instances_agree:
  assumes "broker_documented api (bus_channel bus) inbox dropped"
    and "(fleet_step api marshal unmarshal bus)\<^sup>*\<^sup>* (no_instances r) s"
    and "x \<in> set (fl_instances s)" and "at_rest inbox dropped (fl_broker s) x" and "i \<notin> ck_raced (in_checks x)"
    and "json_documented marshal unmarshal (in_since x)" and "set (in_maybe x) \<subseteq> set (in_since x)"
    and "no_conflict (in_since x @ in_loaded x)"
  defines "E \<equiv> set (in_since x) \<union> set (in_loaded x)"
  shows "BanChecker_IsBanned (in_checker x) i \<longleftrightarrow>
    (\<exists>e \<in> E. ev_TenantID e = i \<and> ev_State e = Banned \<and> (\<forall>e' \<in> E. ev_TenantID e' = i \<longrightarrow> ev_Timestamp e' \<le> ev_Timestamp e))"
proof -
  have "instance_inv marshal unmarshal (dropped (fl_broker s) (in_sub x)) (inbox (fl_broker s) (in_sub x)) x"
    using fleet_inv_reachable [OF assms(1,2)] assms(3) by (simp add: fleet_inv_def)
  from heard_all [OF this assms(4,6,7,5)] have "covers (set_option (bc_banned (in_checker x) i)) (reports E i)" unfolding E_def .
  moreover have "\<forall>e \<in> E. \<forall>e' \<in> E. ev_TenantID e = ev_TenantID e' \<and> ev_Timestamp e = ev_Timestamp e' \<longrightarrow>
      (ev_State e = Banned \<longleftrightarrow> ev_State e' = Banned)"
    using assms(8) unfolding no_conflict_def set_append E_def .
  ultimately show ?thesis by (rule covers_IsBanned)
qed


text \<open>A broker in memory; the next publication fails after reaching the first subscription only.\<close>

definition demo_broker :: "(bool \<times> (string list \<times> bool) list) broker_api" where
  "demo_broker = \<lparr>br_publish = (\<lambda>channel data (fails, boxes).
       if fails then (Inl (ErrVar ''net.OpError'' ''broken pipe''),
         (False, (case boxes of [] \<Rightarrow> [] | (box, lost) # rest \<Rightarrow> (box @ [data], lost) # rest)))
       else (Inr (), (False, map (\<lambda>(box, lost). (box @ [data], lost)) boxes))),
     br_subscribe = (\<lambda>channel (fails, boxes). (Inr (length boxes), (fails, boxes @ [([], False)]))),
     br_receive = (\<lambda>p (fails, boxes).
       if p < length boxes \<and> fst (boxes ! p) \<noteq> []
       then Some (hd (fst (boxes ! p)), (fails, boxes[p := (tl (fst (boxes ! p)), snd (boxes ! p))])) else None),
     br_drop = (\<lambda>p (fails, boxes). (fails, boxes[p := ([], True)]))\<rparr>"

definition demo_inbox :: "bool \<times> (string list \<times> bool) list \<Rightarrow> addr \<Rightarrow> string list option" where
  "demo_inbox r p = (if p < length (snd r) then Some (fst (snd r ! p)) else None)"

definition demo_dropped :: "bool \<times> (string list \<times> bool) list \<Rightarrow> addr \<Rightarrow> bool" where
  "demo_dropped r p = (p < length (snd r) \<and> snd (snd r ! p))"

lemma demo_broker_documented: "broker_documented demo_broker channel demo_inbox demo_dropped"
  unfolding broker_documented_def
proof (intro conjI allI impI)
  fix r p data r' assume "br_receive demo_broker p r = Some (data, r')"
  then have p: "p < length (snd r)" "fst (snd r ! p) \<noteq> []" "data = hd (fst (snd r ! p))"
    "r' = (fst r, (snd r)[p := (tl (fst (snd r ! p)), snd (snd r ! p))])"
    by (cases r, auto simp: demo_broker_def split: if_splits)+
  then show "\<exists>msgs ns. demo_inbox r p = Some (msgs @ data # ns) \<and> demo_inbox r' p = Some (msgs @ ns)"
    by (intro exI [of _ "[]"] exI [of _ "tl (fst (snd r ! p))"]) (simp add: demo_inbox_def)
qed (auto simp: demo_broker_def demo_inbox_def demo_dropped_def append_message_def left_alone_def sent_to_def nth_Cons' nth_append
    nth_list_update split: if_splits list.splits prod.splits)

definition demo_ban :: TenantEvent where
  "demo_ban = \<lparr>ev_TenantID = ''acme'', ev_State = Banned, ev_Timestamp = Time 1\<rparr>"

definition demo_marshal :: "TenantEvent \<Rightarrow> string result" where
  "demo_marshal e = Inr (ev_TenantID e)"

definition demo_unmarshal :: "string \<Rightarrow> TenantEvent result" where
  "demo_unmarshal data = Inr \<lparr>ev_TenantID = data, ev_State = Banned, ev_Timestamp = Time 1\<rparr>"

end
