(* ===== verification/Retry_Worker.thy ===== *)
theory Retry_Worker
  imports Retry_Queue
begin

text \<open>
  The worker goroutine of the publish retry queue (\<^verbatim>\<open>Start\<close>, \<^verbatim>\<open>run\<close>, \<^verbatim>\<open>Stop\<close> and the body of
  \<^verbatim>\<open>retryDue\<close> in \<^verbatim>\<open>src/admin/retry_queue.go\<close>) beside callers of \<^verbatim>\<open>Enqueue\<close>, as a step relation.
  One step is one critical section or one call of the bus: the clock reading that opens a
  round, the collection under the mutex, each \<^verbatim>\<open>bus.Publish\<close> outside it, the loop that applies
  the outcomes under it. \<open>ws_calls\<close> records the calls of the worker and nothing reads it.
\<close>

datatype worker =
    NotStarted
  | Waiting
  | Collecting Time
  | Publishing "(addr \<times> unit result) list" "addr list"
  | Exited

record 'b worker_system =
  ws_queue :: PublishRetryQueue
  ws_clock :: Clock
  ws_bus :: 'b
  ws_worker :: worker
  ws_stopCh :: bool
  ws_doneCh :: bool
  ws_ctxDone :: bool
  ws_calls :: "(addr \<times> unit result) list"

definition start_system :: "PublishRetryQueue \<Rightarrow> Clock \<Rightarrow> 'b \<Rightarrow> 'b worker_system" where
  "start_system q c b = \<lparr>ws_queue = q, ws_clock = c, ws_bus = b, ws_worker = NotStarted,
     ws_stopCh = False, ws_doneCh = False, ws_ctxDone = False, ws_calls = []\<rparr>"

text \<open>Closing a closed channel panics: \<^verbatim>\<open>Stop\<close> twice.\<close>

definition PublishRetryQueue_Stop :: "'b worker_system \<Rightarrow> panic + 'b worker_system" where
  "PublishRetryQueue_Stop s =
     (if ws_stopCh s then Inl (Panic ''close of closed channel'') else Inr (s\<lparr>ws_stopCh := True\<rparr>))"

definition PublishRetryQueue_Start :: "'b worker_system \<Rightarrow> 'b worker_system" where
  "PublishRetryQueue_Start s = s\<lparr>ws_worker := Waiting\<rparr>"

inductive worker_step ::
  "(TenantEvent \<Rightarrow> ('b, unit) call) \<Rightarrow> 'b worker_system \<Rightarrow> 'b worker_system \<Rightarrow> bool"
  for publish :: "TenantEvent \<Rightarrow> ('b, unit) call" where
  enqueue: "PublishRetryQueue_Enqueue e (ws_queue s, ws_clock s) = Inr (q, c) \<Longrightarrow>
    worker_step publish s (s\<lparr>ws_queue := q, ws_clock := c\<rparr>)"
| bus_moves: "worker_step publish s (s\<lparr>ws_bus := b\<rparr>)"
| cancel: "worker_step publish s (s\<lparr>ws_ctxDone := True\<rparr>)"
| stop: "PublishRetryQueue_Stop s = Inr s' \<Longrightarrow> worker_step publish s s'"
| start: "ws_worker s = NotStarted \<Longrightarrow> worker_step publish s (PublishRetryQueue_Start s)"
| exit: "ws_worker s = Waiting \<Longrightarrow> ws_ctxDone s \<or> ws_stopCh s \<Longrightarrow>
    worker_step publish s (s\<lparr>ws_worker := Exited, ws_doneCh := True\<rparr>)"
| tick: "ws_worker s = Waiting \<Longrightarrow> time_Now (ws_clock s) = (now, c) \<Longrightarrow>
    worker_step publish s (s\<lparr>ws_worker := Collecting now, ws_clock := c\<rparr>)"
| collect: "ws_worker s = Collecting now \<Longrightarrow> due = collect_due now (ws_queue s) \<Longrightarrow>
    worker_step publish s (s\<lparr>ws_worker := (if due = [] then Waiting else Publishing [] due)\<rparr>)"
| publish_one: "ws_worker s = Publishing sent (pe # todo) \<Longrightarrow>
    publish (pe_event (q_objects (ws_queue s) pe)) (ws_bus s) = (err, b) \<Longrightarrow>
    worker_step publish s (s\<lparr>ws_worker := Publishing (sent @ [(pe, err)]) todo, ws_bus := b,
      ws_calls := ws_calls s @ [(pe, err)]\<rparr>)"
| finish: "ws_worker s = Publishing sent [] \<Longrightarrow>
    apply_results sent (ws_queue s, ws_clock s) = (q, c) \<Longrightarrow>
    worker_step publish s (s\<lparr>ws_worker := Waiting, ws_queue := q, ws_clock := c\<rparr>)"

inductive_cases worker_stepE: "worker_step publish s s'"

abbreviation worker_steps where
  "worker_steps publish \<equiv> (worker_step publish)\<^sup>*\<^sup>*"

section \<open>Invariant\<close>

definition calls_for :: "(addr \<times> unit result) list \<Rightarrow> addr \<Rightarrow> int" where
  "calls_for cs a = int (length (filter (\<lambda>r. fst r = a) cs))"

lemma calls_for_simps [simp]:
  "calls_for [] a = 0"
  "calls_for (cs @ [(b, e)]) a = calls_for cs a + (if b = a then 1 else 0)"
  by (simp_all add: calls_for_def)

fun batch_done :: "worker \<Rightarrow> (addr \<times> unit result) list" where
  "batch_done (Publishing sent todo) = sent"
| "batch_done w = []"

fun batch_todo :: "worker \<Rightarrow> addr list" where
  "batch_todo (Publishing sent todo) = todo"
| "batch_todo w = []"

text \<open>The batch in hand, and how often each event has been published.\<close>

definition batch_ok :: "'b worker_system \<Rightarrow> bool" where
  "batch_ok s \<longleftrightarrow> (let q = ws_queue s; w = ws_worker s in
     distinct (map fst (batch_done w) @ batch_todo w) \<and>
     fst ` set (batch_done w) \<union> set (batch_todo w) \<subseteq> {..<q_next_addr q} \<and>
     set (batch_done w) \<subseteq> set (ws_calls s) \<and>
     fst ` set (ws_calls s) \<subseteq> {..<q_next_addr q})"

definition attempts_ok :: "'b worker_system \<Rightarrow> bool" where
  "attempts_ok s \<longleftrightarrow> (let q = ws_queue s; w = ws_worker s in
     \<forall>a < q_next_addr q.
       0 \<le> pe_attempts (q_objects q a) \<and> pe_attempts (q_objects q a) \<le> q_maxRetries q \<and>
       calls_for (ws_calls s) a \<le> pe_attempts (q_objects q a) + 1 \<and>
       (a \<in> set (q_pending q) \<union> set (batch_todo w) \<longrightarrow> a \<notin> fst ` set (batch_done w) \<longrightarrow>
          calls_for (ws_calls s) a \<le> pe_attempts (q_objects q a)))"

text \<open>
  Where every enqueued event is: in the queue, in the log of lost events, or among \<open>ds\<close>,
  events that were published and removed.
\<close>

fun lost_event :: "queue_log \<Rightarrow> TenantEvent" where
  "lost_event (LogFull n e k) = e"
| "lost_event (LogExhausted e k err) = e"

definition event_at :: "PublishRetryQueue \<Rightarrow> addr \<Rightarrow> TenantEvent" where
  "event_at q a = pe_event (q_objects q a)"

definition accounted :: "PublishRetryQueue \<Rightarrow> (addr \<times> unit result) list \<Rightarrow> addr list \<Rightarrow> bool" where
  "accounted q calls ds \<longleftrightarrow> distinct ds \<and> set ds \<inter> set (q_pending q) = {} \<and>
     (\<forall>a \<in> set ds. (a, Inr ()) \<in> set calls) \<and> set ds \<subseteq> {..<q_next_addr q} \<and>
     mset (map (event_at q) [0..<q_next_addr q]) =
       mset (events_of q) + mset (map lost_event (q_log q)) + mset (map (event_at q) ds)"

definition worker_inv :: "'b worker_system \<Rightarrow> bool" where
  "worker_inv s \<longleftrightarrow> queue_inv (ws_queue s) \<and> batch_ok s \<and> attempts_ok s \<and>
     (\<exists>ds. accounted (ws_queue s) (ws_calls s) ds) \<and> (ws_doneCh s \<longleftrightarrow> ws_worker s = Exited)"

definition fresh_queue :: "PublishRetryQueue \<Rightarrow> bool" where
  "fresh_queue q \<longleftrightarrow> queue_inv q \<and> q_pending q = [] \<and> q_next_addr q = 0 \<and> q_log q = []"

lemma fresh_queue_New: "fresh_queue NewPublishRetryQueue"
  using queue_inv_new by (simp add: fresh_queue_def NewPublishRetryQueue_def)

lemma worker_inv_start: "fresh_queue q \<Longrightarrow> worker_inv (start_system q c b)"
  by (simp add: worker_inv_def fresh_queue_def start_system_def batch_ok_def attempts_ok_def
    accounted_def events_of_def exI [of _ "[]"])

subsection \<open>Accounting through one outcome and through the loop\<close>

lemma mset_events_remove:
  assumes "distinct ps" and "p \<in> set ps"
  shows "mset (map f ps) = add_mset (f p) (mset (map f (filter (\<lambda>x. x \<noteq> p) ps)))"
proof -
  have "filter (\<lambda>x. x \<noteq> p) ps = remove1 p ps"
    using assms(1) by (auto simp: distinct_remove1_removeAll removeAll_filter_not_eq intro!: filter_cong)
  with assms(2) have "mset ps = add_mset p (mset (filter (\<lambda>x. x \<noteq> p) ps))"
    by simp
  then show ?thesis by (metis image_mset_add_mset mset_map)
qed

lemma event_at_apply_result [simp]: "event_at (fst (apply_result pe err (q, c))) = event_at q"
  by (rule ext) (simp add: event_at_def apply_result_object)

lemma events_of_event_at: "events_of q = map (event_at q) (q_pending q)"
  by (simp add: events_of_def event_at_def)

lemma accounted_apply_result:
  assumes dist: "distinct (q_pending q)" and low: "set (q_pending q) \<subseteq> {..<q_next_addr q}"
    and acc: "accounted q calls ds" and call: "(pe, err) \<in> set calls"
  shows "\<exists>ds. accounted (fst (apply_result pe err (q, c))) calls ds"
proof -
  obtain q1 c1 where one: "apply_result pe err (q, c) = (q1, c1)" by fastforce
  note step = apply_result_pending [OF dist, of pe err c, unfolded one fst_conv]
    apply_result_frame(5) [of pe err q c, unfolded one fst_conv]
    apply_result_log [of pe err q c, unfolded one fst_conv]
    event_at_apply_result [of pe err q c, unfolded one fst_conv] events_of_event_at
  have "\<exists>ds. accounted q1 calls ds"
  proof (cases "pe \<in> set (q_pending q) \<and> \<not> keeps q pe err")
    case False
    then have "q_pending q1 = q_pending q" and "q_log q1 = q_log q"
      by (auto simp: step lost_by_def keeps_def split: sum.split intro!: filter_True)
    with acc have "accounted q1 calls ds" by (auto simp: accounted_def step(2,4,5))
    then show ?thesis ..
  next
    case True
    then have pend: "q_pending q1 = filter (\<lambda>p. p \<noteq> pe) (q_pending q)"
      by (auto simp: step intro!: filter_cong)
    have gone: "mset (events_of q) = add_mset (event_at q pe) (mset (events_of q1))"
      using mset_events_remove [OF dist, of pe "event_at q"] True by (simp add: step(4,5) pend)
    show ?thesis
    proof (cases err)
      case (Inr u)
      with True acc call low gone have "accounted q1 calls (pe # ds)"
        by (auto simp: accounted_def step(2,3,4) pend lost_by_def)
      then show ?thesis ..
    next
      case (Inl e)
      with True acc gone have "accounted q1 calls ds"
        by (auto simp: accounted_def step(2,3,4) pend lost_by_def event_at_def [of q pe])
      then show ?thesis ..
    qed
  qed
  then show ?thesis by (simp add: one)
qed

lemma accounted_apply_results:
  assumes "distinct (q_pending q)" and "set (q_pending q) \<subseteq> {..<q_next_addr q}"
    and "\<exists>ds. accounted q calls ds" and "set rs \<subseteq> set calls"
  shows "\<exists>ds. accounted (fst (apply_results rs (q, c))) calls ds"
  using assms
proof (induction rs arbitrary: q c)
  case (Cons r rs)
  obtain pe err where r: "r = (pe, err)" by fastforce
  obtain q1 c1 where one: "apply_result pe err (q, c) = (q1, c1)" by fastforce
  then have q1: "q1 = fst (apply_result pe err (q, c))" by simp
  have "\<exists>ds. accounted q1 calls ds"
    unfolding q1 using Cons.prems r by (auto intro: accounted_apply_result)
  moreover have "distinct (q_pending q1)" and "set (q_pending q1) \<subseteq> {..<q_next_addr q1}"
    using Cons.prems(1,2) by (auto simp: q1 apply_result_pending apply_result_frame)
  ultimately show ?case
    using Cons.IH [of q1 c1] Cons.prems(4) by (simp add: r one)
qed simp

lemma events_frame:
  assumes "\<forall>a < n. event_at q' a = event_at q a"
  shows "set xs \<subseteq> {..<n} \<Longrightarrow> image_mset (event_at q') (mset xs) = image_mset (event_at q) (mset xs)"
    and "image_mset (event_at q') (mset_set {0..<n}) = image_mset (event_at q) (mset_set {0..<n})"
  using assms by (auto intro!: image_mset_cong)

lemma accounted_Enqueue:
  assumes inv: "queue_inv q" and run: "PublishRetryQueue_Enqueue e (q, c) = Inr (q', c')"
    and acc: "accounted q calls ds"
  shows "accounted q' calls ds"
proof (rule Enqueue_cases [OF inv, of e c])
  fix q''
  assume run': "PublishRetryQueue_Enqueue e (q, c) = Inr (q'', \<lambda>n. c (Suc n))"
    and pend: "q_pending q'' = (if int (length (q_pending q)) = q_maxSize q then tl (q_pending q)
      else q_pending q) @ [q_next_addr q]"
    and objs: "q_objects q'' = (q_objects q)(q_next_addr q :=
      \<lparr>pe_event = e, pe_attempts = 0, pe_nextAttemptAt = c 0\<rparr>)"
    and nxt: "q_next_addr q'' = Suc (q_next_addr q)"
    and log: "q_log q'' = q_log q @ (if int (length (q_pending q)) = q_maxSize q
      then [LogFull (q_maxSize q) (pe_event (q_objects q (hd (q_pending q))))
        (pe_attempts (q_objects q (hd (q_pending q))))] else [])"
  have q'': "q'' = q'" using run run' by simp
  have old: "\<forall>a < q_next_addr q. event_at q' a = event_at q a" by (simp add: event_at_def objs flip: q'')
  have new: "event_at q' (q_next_addr q) = e" by (simp add: event_at_def objs flip: q'')
  have low: "set (q_pending q) \<subseteq> {..<q_next_addr q}" using inv by (auto simp: queue_inv_def)
  have ds: "set ds \<subseteq> {..<q_next_addr q}" using acc by (simp add: accounted_def)
  note part = events_frame(1) [OF old]
  note same = part [OF ds] part [OF low] events_frame(2) [OF old]
  show ?thesis
  proof (cases "int (length (q_pending q)) = q_maxSize q")
    case True
    with inv obtain d rest where p: "q_pending q = d # rest"
      by (cases "q_pending q") (auto simp: queue_inv_def)
    have "image_mset (event_at q') (mset rest) = image_mset (event_at q) (mset rest)"
      using part low p by simp
    with acc ds True p same(1,3) new show ?thesis
      by (auto simp: accounted_def pend [unfolded q''] nxt [unfolded q''] log [unfolded q'']
        events_of_event_at event_at_def [of q d])
  next
    case False
    with acc ds low same new show ?thesis
      by (auto simp: accounted_def pend [unfolded q''] nxt [unfolded q''] log [unfolded q'']
        events_of_event_at)
  qed
qed

subsection \<open>Every step keeps the invariant\<close>

lemma worker_inv_enqueue:
  assumes inv: "worker_inv s" and run: "PublishRetryQueue_Enqueue e (ws_queue s, ws_clock s) = Inr (q', c')"
  shows "worker_inv (s\<lparr>ws_queue := q', ws_clock := c'\<rparr>)"
proof -
  let ?q = "ws_queue s"
  have qi: "queue_inv ?q" using inv by (simp add: worker_inv_def)
  obtain q'' where "PublishRetryQueue_Enqueue e (?q, ws_clock s) = Inr (q'', \<lambda>n. ws_clock s (Suc n))"
    and qi': "queue_inv q''" and max: "q_maxRetries q'' = q_maxRetries ?q"
    and pend: "q_pending q'' = (if int (length (q_pending ?q)) = q_maxSize ?q then tl (q_pending ?q)
      else q_pending ?q) @ [q_next_addr ?q]"
    and objs: "q_objects q'' = (q_objects ?q)(q_next_addr ?q :=
      \<lparr>pe_event = e, pe_attempts = 0, pe_nextAttemptAt = ws_clock s 0\<rparr>)"
    and nxt: "q_next_addr q'' = Suc (q_next_addr ?q)"
    by (rule Enqueue_cases [OF qi])
  then have q'': "q'' = q'" using run by simp
  have b: "batch_ok s" and a: "attempts_ok s" using inv by (simp_all add: worker_inv_def)
  have "q_next_addr ?q \<notin> fst ` set (ws_calls s)" using b by (auto simp: batch_ok_def Let_def)
  then have "calls_for (ws_calls s) (q_next_addr ?q) = 0"
    by (force simp: calls_for_def filter_empty_conv)
  moreover have "set (q_pending q'') \<subseteq> insert (q_next_addr ?q) (set (q_pending ?q))"
    by (cases "q_pending ?q") (auto simp: pend)
  moreover have "0 \<le> q_maxRetries ?q" using qi by (simp add: queue_inv_def)
  ultimately have "attempts_ok (s\<lparr>ws_queue := q'', ws_clock := c'\<rparr>)"
    using a by (auto simp: attempts_ok_def Let_def objs nxt max less_Suc_eq)
  moreover have "batch_ok (s\<lparr>ws_queue := q'', ws_clock := c'\<rparr>)"
    using b by (fastforce simp: batch_ok_def Let_def nxt)
  moreover have "\<exists>ds. accounted q' (ws_calls s) ds"
    using inv accounted_Enqueue [OF qi run] by (auto simp: worker_inv_def)
  ultimately show ?thesis using inv qi' by (simp add: worker_inv_def q'')
qed

lemma worker_inv_publish_one:
  assumes inv: "worker_inv s" and w: "ws_worker s = Publishing sent (pe # todo)"
  shows "worker_inv (s\<lparr>ws_worker := Publishing (sent @ [(pe, err)]) todo, ws_bus := b,
      ws_calls := ws_calls s @ [(pe, err)]\<rparr>)"
proof -
  from inv w have "batch_ok (s\<lparr>ws_worker := Publishing (sent @ [(pe, err)]) todo, ws_bus := b,
      ws_calls := ws_calls s @ [(pe, err)]\<rparr>)"
    by (auto simp: worker_inv_def batch_ok_def Let_def)
  moreover from inv w have "attempts_ok (s\<lparr>ws_worker := Publishing (sent @ [(pe, err)]) todo, ws_bus := b,
      ws_calls := ws_calls s @ [(pe, err)]\<rparr>)"
    by (auto simp: worker_inv_def batch_ok_def attempts_ok_def Let_def)
  moreover from inv have "\<exists>ds. accounted (ws_queue s) (ws_calls s @ [(pe, err)]) ds"
    by (auto simp: worker_inv_def accounted_def)
  ultimately show ?thesis using inv w by (simp add: worker_inv_def)
qed

lemma worker_inv_finish:
  assumes inv: "worker_inv s" and w: "ws_worker s = Publishing sent []"
    and run: "apply_results sent (ws_queue s, ws_clock s) = (q', c')"
  shows "worker_inv (s\<lparr>ws_worker := Waiting, ws_queue := q', ws_clock := c'\<rparr>)"
proof -
  let ?q = "ws_queue s"
  have qi: "queue_inv ?q" and b: "batch_ok s" and a: "attempts_ok s"
    using inv by (simp_all add: worker_inv_def)
  have dist: "distinct (q_pending ?q)" and low: "set (q_pending ?q) \<subseteq> {..<q_next_addr ?q}"
    using qi by (auto simp: queue_inv_def)
  have batch: "distinct (map fst sent)" and calls: "set sent \<subseteq> set (ws_calls s)"
    using b w by (auto simp: batch_ok_def Let_def)
  have q': "q' = fst (apply_results sent (?q, ws_clock s))" using run by simp
  note eff = apply_results_effect [OF batch dist, of "ws_clock s"] apply_results_frame
  have again: "retried ?q sent p"
    if "p \<in> set (q_pending ?q)" and "survives ?q sent p" and "p \<in> fst ` set sent" for p
  proof -
    from that(3) obtain err where "map_of sent p = Some err"
      by (metis map_of_eq_None_iff not_None_eq)
    with that(1,2) show ?thesis by (simp add: retried_def survives_def)
  qed
  have lim: "pe_attempts (q_objects ?q p) < q_maxRetries ?q" if "retried ?q sent p" for p
    using that by (auto simp: retried_def dest: keepsD)
  have "attempts_ok (s\<lparr>ws_worker := Waiting, ws_queue := q', ws_clock := c'\<rparr>)"
    using a w by (fastforce simp: attempts_ok_def Let_def q' eff dest: again lim)
  moreover have "batch_ok (s\<lparr>ws_worker := Waiting, ws_queue := q', ws_clock := c'\<rparr>)"
    using b by (simp add: batch_ok_def Let_def q' eff)
  moreover have "queue_inv q'" unfolding q' by (rule apply_results_inv [OF qi batch])
  moreover have "\<exists>ds. accounted q' (ws_calls s) ds"
    unfolding q' using inv accounted_apply_results [OF dist low _ calls] by (simp add: worker_inv_def)
  ultimately show ?thesis using inv w by (simp add: worker_inv_def)
qed

lemma worker_inv_step: "worker_step publish s s' \<Longrightarrow> worker_inv s \<Longrightarrow> worker_inv s'"
proof (induction rule: worker_step.induct)
  case (enqueue e s q c)
  then show ?case by (rule worker_inv_enqueue [rotated])
next
  case (publish_one s sent pe todo err b)
  then show ?case by (simp add: worker_inv_publish_one)
next
  case (finish s sent q c)
  then show ?case by (simp add: worker_inv_finish)
next
  case (stop s s')
  then show ?case
    by (auto simp: PublishRetryQueue_Stop_def worker_inv_def batch_ok_def attempts_ok_def split: if_splits)
next
  case (collect s now due)
  then show ?case
    using collect_due_subset [of now "ws_queue s"]
    by (auto simp: worker_inv_def batch_ok_def attempts_ok_def Let_def queue_inv_def collect_due_distinct)
qed (auto simp: worker_inv_def batch_ok_def attempts_ok_def PublishRetryQueue_Start_def Let_def)

lemma worker_inv_reachable:
  assumes "worker_steps publish (start_system q c b) s" and "fresh_queue q"
  shows "worker_inv s"
  using assms(1)
  by (induction rule: rtranclp_induct) (auto intro: worker_inv_step worker_inv_start [OF assms(2)])

lemma worker_step_params:
  "worker_step publish s s' \<Longrightarrow> worker_inv s \<Longrightarrow> q_maxRetries (ws_queue s') = q_maxRetries (ws_queue s) \<and>
     q_maxSize (ws_queue s') = q_maxSize (ws_queue s)"
proof (induction rule: worker_step.induct)
  case (enqueue e s q c)
  then have "queue_inv (ws_queue s)" by (simp add: worker_inv_def)
  from enqueue show ?case by (auto intro: Enqueue_cases [OF \<open>queue_inv (ws_queue s)\<close>, of e "ws_clock s"])
next
  case (finish s sent q c)
  then show ?case
    using apply_results_frame [of sent "(ws_queue s, ws_clock s)"] by simp
qed (auto simp: PublishRetryQueue_Stop_def PublishRetryQueue_Start_def split: if_splits)

lemma worker_params_reachable:
  assumes "worker_steps publish (start_system q c b) s" and "fresh_queue q"
  shows "q_maxRetries (ws_queue s) = q_maxRetries q \<and> q_maxSize (ws_queue s) = q_maxSize q"
  using assms(1)
proof (induction rule: rtranclp_induct)
  case (step s s')
  with worker_step_params [OF step(2)] worker_inv_reachable [OF step(1) assms(2)] show ?case by simp
qed (simp add: start_system_def)

section \<open>Properties of every interleaving\<close>

text \<open>
  C6. No event disappears silently. In every state that any interleaving of \<^verbatim>\<open>Enqueue\<close> calls,
  the worker, the bus and \<^verbatim>\<open>Stop\<close> can reach, the events enqueued so far are, as a multiset,
  the events pending, the events named by a critical line of the log, and events for which
  the worker's \<^verbatim>\<open>bus.Publish\<close> returned nil (distinct queue entries, none of them pending).
  The queue never holds more than \<open>maxSize\<close> events.
\<close>

theorem retry_no_silent_loss:
  assumes "worker_steps publish (start_system q c b) s" and "fresh_queue q"
  shows "PublishRetryQueue_PendingCount (ws_queue s) \<le> q_maxSize q \<and>
    (\<exists>ds. distinct ds \<and> set ds \<inter> set (q_pending (ws_queue s)) = {} \<and>
      (\<forall>a \<in> set ds. (a, Inr ()) \<in> set (ws_calls s)) \<and>
      mset (map (event_at (ws_queue s)) [0..<q_next_addr (ws_queue s)]) =
        mset (events_of (ws_queue s)) + mset (map lost_event (q_log (ws_queue s))) +
        mset (map (event_at (ws_queue s)) ds))"
proof -
  from worker_inv_reachable [OF assms] obtain ds where inv: "queue_inv (ws_queue s)"
    and acc: "accounted (ws_queue s) (ws_calls s) ds" by (auto simp: worker_inv_def)
  from inv worker_params_reachable [OF assms]
  have "PublishRetryQueue_PendingCount (ws_queue s) \<le> q_maxSize q"
    by (simp add: queue_inv_def PublishRetryQueue_PendingCount_def)
  with acc show ?thesis unfolding accounted_def by blast
qed

text \<open>
  C26. Bounded retries: in every reachable state the worker has called \<^verbatim>\<open>bus.Publish\<close> at most
  \<open>maxRetries + 1\<close> times for any one enqueued event, also when \<^verbatim>\<open>Enqueue\<close> drops entries of the
  batch being published.
\<close>

theorem retry_attempts_bounded:
  assumes "worker_steps publish (start_system q c b) s" and "fresh_queue q"
  shows "int (length (filter (\<lambda>r. fst r = a) (ws_calls s))) \<le> q_maxRetries q + 1"
proof -
  from worker_inv_reachable [OF assms] have b: "batch_ok s" and at: "attempts_ok s"
    by (simp_all add: worker_inv_def)
  have "0 \<le> q_maxRetries q" using assms(2) by (simp add: fresh_queue_def queue_inv_def)
  show ?thesis
  proof (cases "a < q_next_addr (ws_queue s)")
    case True
    with at worker_params_reachable [OF assms] show ?thesis
      unfolding attempts_ok_def Let_def calls_for_def by force
  next
    case False
    with b have "filter (\<lambda>r. fst r = a) (ws_calls s) = []"
      by (fastforce simp: batch_ok_def Let_def filter_empty_conv)
    with \<open>0 \<le> q_maxRetries q\<close> show ?thesis by simp
  qed
qed

subsection \<open>Stopping\<close>

lemma worker_steps_trans:
  "worker_step publish s s' \<Longrightarrow> worker_steps publish s' s'' \<Longrightarrow> worker_steps publish s s''"
  by (rule converse_rtranclp_into_rtranclp)

lemma waiting_can_exit:
  assumes "ws_worker s = Waiting" and "ws_stopCh s"
  shows "\<exists>s'. worker_steps publish s s' \<and> ws_doneCh s'"
  using worker_step.exit [of s publish] assms by (auto intro!: exI r_into_rtranclp)

lemma publishing_can_exit:
  "ws_worker s = Publishing sent todo \<Longrightarrow> ws_stopCh s \<Longrightarrow>
     \<exists>s'. worker_steps publish s s' \<and> ws_doneCh s'"
proof (induction todo arbitrary: s sent)
  case Nil
  obtain q c where "apply_results sent (ws_queue s, ws_clock s) = (q, c)" by fastforce
  from worker_step.finish [where publish = publish, OF Nil(1) this] Nil(2) show ?case
    using waiting_can_exit [of "s\<lparr>ws_worker := Waiting, ws_queue := q, ws_clock := c\<rparr>" publish]
    by (auto intro: worker_steps_trans)
next
  case (Cons pe todo)
  obtain err b where "publish (pe_event (q_objects (ws_queue s) pe)) (ws_bus s) = (err, b)" by fastforce
  from worker_step.publish_one [where publish = publish, OF Cons.prems(1) this] Cons.prems(2)
  show ?case
    using Cons.IH [of "s\<lparr>ws_worker := Publishing (sent @ [(pe, err)]) todo, ws_bus := b,
      ws_calls := ws_calls s @ [(pe, err)]\<rparr>"] by (auto intro: worker_steps_trans)
qed

lemma collecting_can_exit:
  assumes "ws_worker s = Collecting now" and "ws_stopCh s"
  shows "\<exists>s'. worker_steps publish s s' \<and> ws_doneCh s'"
proof -
  let ?due = "collect_due now (ws_queue s)"
  let ?s = "s\<lparr>ws_worker := if ?due = [] then Waiting else Publishing [] ?due\<rparr>"
  have "\<exists>s'. worker_steps publish ?s s' \<and> ws_doneCh s'"
    using waiting_can_exit [of ?s publish] publishing_can_exit [of ?s "[]" ?due publish] assms(2) by auto
  moreover have "worker_step publish s ?s"
    by (rule worker_step.collect [OF assms(1) refl])
  ultimately show ?thesis by (blast intro: worker_steps_trans)
qed

lemma exited_is_final:
  "worker_steps publish s s' \<Longrightarrow> ws_worker s = Exited \<Longrightarrow> ws_worker s' = Exited \<and> ws_calls s' = ws_calls s"
proof (induction rule: rtranclp_induct)
  case (step s1 s2)
  from step(2) have "ws_worker s1 = Exited \<Longrightarrow> ws_worker s2 = Exited \<and> ws_calls s2 = ws_calls s1"
    by (cases rule: worker_step.cases) (auto simp: PublishRetryQueue_Stop_def split: if_splits)
  with step show ?case by simp
qed simp

text \<open>
  C27. Stopping the worker. From every reachable state in which the worker has been started and
  \<^verbatim>\<open>stopCh\<close> is closed, the worker can run to its exit, whatever it was doing and whatever the
  bus answers, so that the receive from \<^verbatim>\<open>doneCh\<close> in \<^verbatim>\<open>Stop\<close> is not blocked for ever by a state
  without a way out; and once \<^verbatim>\<open>doneCh\<close> is closed the worker never publishes again.
\<close>

theorem retry_stop_completes:
  assumes "worker_steps publish (start_system q c b) s" and "fresh_queue q"
    and "ws_worker s \<noteq> NotStarted" and "ws_stopCh s"
  shows "\<exists>s'. worker_steps publish s s' \<and> ws_doneCh s' \<and>
    (\<forall>s''. worker_steps publish s' s'' \<longrightarrow> ws_calls s'' = ws_calls s')"
proof -
  have "\<exists>s'. worker_steps publish s s' \<and> ws_doneCh s'"
  proof (cases "ws_worker s")
    case Exited
    with worker_inv_reachable [OF assms(1,2)] show ?thesis by (auto simp: worker_inv_def)
  qed (use assms(3,4) in \<open>auto intro: waiting_can_exit publishing_can_exit collecting_can_exit\<close>)
  then obtain s' where run: "worker_steps publish s s'" and "ws_doneCh s'" by blast
  have "worker_inv s'"
    by (rule worker_inv_reachable [OF rtranclp_trans [OF assms(1) run] assms(2)])
  with \<open>ws_doneCh s'\<close> have "ws_worker s' = Exited" by (simp add: worker_inv_def)
  with run \<open>ws_doneCh s'\<close> exited_is_final show ?thesis by blast
qed

section \<open>A run in which \<^verbatim>\<open>Enqueue\<close> overtakes the worker\<close>

definition accepting_bus :: "TenantEvent \<Rightarrow> (TenantEvent list, unit) call" where
  "accepting_bus e b = (Inr (), b @ [e])"

definition small_queue :: PublishRetryQueue where
  "small_queue = NewPublishRetryQueue\<lparr>q_maxSize := 1\<rparr>"

lemma small_queue_fresh: "fresh_queue small_queue"
  by (simp add: fresh_queue_def small_queue_def NewPublishRetryQueue_def queue_inv_def defaultMaxRetries_def)

abbreviation acme_banned :: TenantEvent where "acme_banned \<equiv> demo_event ''acme'' Banned"
abbreviation acme_active :: TenantEvent where "acme_active \<equiv> demo_event ''acme'' Active"

lemma overtaken_run:
  "\<exists>s. worker_steps accepting_bus (start_system small_queue retry_clock []) s \<and>
     ws_worker s = Publishing [(0, Inr ())] [] \<and> ws_stopCh s \<and>
     ws_calls s = [(0, Inr ())] \<and> ws_bus s = [acme_banned] \<and>
     events_of (ws_queue s) = [acme_active] \<and> q_pending (ws_queue s) = [1] \<and>
     q_next_addr (ws_queue s) = 2 \<and> q_log (ws_queue s) = [LogFull 1 acme_banned 0]"
proof -
  let ?step = "worker_step accepting_bus"
  let ?s0 = "start_system small_queue retry_clock ([] :: TenantEvent list)"
  obtain q1 c1 where e1: "PublishRetryQueue_Enqueue acme_banned (ws_queue ?s0, ws_clock ?s0) = Inr (q1, c1)"
    and q1: "q_pending q1 = [0]" "q_maxSize q1 = 1" "q_log q1 = []" "q_next_addr q1 = 1" "c1 = (\<lambda>n. retry_clock (Suc n))"
      "q_objects q1 0 = \<lparr>pe_event = acme_banned, pe_attempts = 0, pe_nextAttemptAt = retry_clock 0\<rparr>"
    by (simp add: PublishRetryQueue_Enqueue_def drop_oldest_def start_system_def small_queue_def
      NewPublishRetryQueue_def time_Now_def)
  let ?s1 = "?s0\<lparr>ws_queue := q1, ws_clock := c1\<rparr>"
  let ?s2 = "PublishRetryQueue_Start ?s1"
  let ?s3 = "?s2\<lparr>ws_worker := Collecting (retry_clock 1), ws_clock := \<lambda>n. retry_clock (Suc (Suc n))\<rparr>"
  let ?s4 = "?s3\<lparr>ws_worker := Publishing [] [0]\<rparr>"
  have s1: "?step ?s0 ?s1" by (rule worker_step.enqueue [OF e1])
  have s2: "?step ?s1 ?s2" by (rule worker_step.start) (simp add: start_system_def)
  have s3: "?step ?s2 ?s3"
    by (rule worker_step.tick) (simp_all add: PublishRetryQueue_Start_def time_Now_def q1)
  have "collect_due (retry_clock 1) q1 = [0]"
    by (simp add: collect_due_def q1 retry_clock_def less_Time_def)
  with worker_step.collect [of ?s3 "retry_clock 1" "[0]" accepting_bus] have s4: "?step ?s3 ?s4"
    by (simp add: PublishRetryQueue_Start_def)
  obtain q2 c2 where e2: "PublishRetryQueue_Enqueue acme_active (ws_queue ?s4, ws_clock ?s4) = Inr (q2, c2)"
    and q2: "q_pending q2 = [1]" "q_log q2 = [LogFull 1 acme_banned 0]" "q_next_addr q2 = 2" "events_of q2 = [acme_active]"
      "q_objects q2 0 = q_objects q1 0"
    by (simp add: PublishRetryQueue_Enqueue_def drop_oldest_def PublishRetryQueue_Start_def q1
      time_Now_def events_of_def)
  let ?s5 = "?s4\<lparr>ws_queue := q2, ws_clock := c2\<rparr>"
  let ?s6 = "?s5\<lparr>ws_worker := Publishing [(0, Inr ())] [], ws_bus := [acme_banned], ws_calls := [(0, Inr ())]\<rparr>"
  let ?s7 = "?s6\<lparr>ws_stopCh := True\<rparr>"
  have s5: "?step ?s4 ?s5" by (rule worker_step.enqueue [OF e2])
  have s6: "?step ?s5 ?s6"
    using worker_step.publish_one [where publish = accepting_bus and s = ?s5 and sent = "[]" and pe = 0 and todo = "[]"]
    by (simp add: PublishRetryQueue_Start_def q2 q1 accepting_bus_def start_system_def)
  have s7: "?step ?s6 ?s7"
    by (rule worker_step.stop) (simp add: PublishRetryQueue_Stop_def PublishRetryQueue_Start_def start_system_def)
  have "worker_steps accepting_bus ?s0 ?s7"
    using s1 s2 s3 s4 s5 s6 s7 by (meson converse_rtranclp_into_rtranclp rtranclp.rtrancl_refl)
  then show ?thesis using q2 by (intro exI [of _ ?s7]) simp
qed

text \<open>
  \<^verbatim>\<open>Enqueue\<close> can overtake the worker. There is an interleaving in which the worker has
  collected an event and, before its publication, \<^verbatim>\<open>Enqueue\<close> on the full queue drops that very
  event: afterwards \<^verbatim>\<open>indexOf\<close> does not find it any more, the log reports it as lost, and yet
  the bus has accepted it. So entries of a batch do move and do leave the queue while it is
  published, and the search by pointer identity in \<^verbatim>\<open>retryDue\<close> is needed.
\<close>

lemma retry_enqueue_overtakes_worker:
  "\<exists>s. worker_steps accepting_bus (start_system small_queue retry_clock []) s \<and>
     ws_worker s = Publishing [(0, Inr ())] [] \<and> ws_bus s = [acme_banned] \<and>
     PublishRetryQueue_indexOf (ws_queue s) 0 = None \<and>
     q_log (ws_queue s) = [LogFull 1 acme_banned 0]"
  using overtaken_run by (auto simp: PublishRetryQueue_indexOf_def)

theorem retry_no_silent_loss_witness:
  "\<exists>s. worker_steps accepting_bus (start_system small_queue retry_clock []) s \<and>
     PublishRetryQueue_PendingCount (ws_queue s) \<le> 1 \<and> q_next_addr (ws_queue s) = 2"
proof -
  from overtaken_run obtain s where
    s: "worker_steps accepting_bus (start_system small_queue retry_clock []) s" and "q_next_addr (ws_queue s) = 2"
    by blast
  moreover have "PublishRetryQueue_PendingCount (ws_queue s) \<le> 1"
    using retry_no_silent_loss [OF s small_queue_fresh] by (simp add: small_queue_def)
  ultimately show ?thesis by blast
qed

theorem retry_attempts_bounded_witness:
  "\<exists>s. worker_steps accepting_bus (start_system small_queue retry_clock []) s \<and>
     ws_calls s = [(0, Inr ())] \<and> int (length (filter (\<lambda>r. fst r = 0) (ws_calls s))) \<le> 6"
proof -
  from overtaken_run obtain s where
    s: "worker_steps accepting_bus (start_system small_queue retry_clock []) s" and "ws_calls s = [(0, Inr ())]"
    by blast
  moreover have "int (length (filter (\<lambda>r. fst r = 0) (ws_calls s))) \<le> 6"
    using retry_attempts_bounded [OF s small_queue_fresh, of 0]
    by (simp add: small_queue_def NewPublishRetryQueue_def defaultMaxRetries_def)
  ultimately show ?thesis by blast
qed

theorem retry_stop_completes_witness:
  "\<exists>s s'. worker_steps accepting_bus (start_system small_queue retry_clock []) s \<and>
     ws_worker s = Publishing [(0, Inr ())] [] \<and> ws_stopCh s \<and>
     worker_steps accepting_bus s s' \<and> ws_doneCh s'"
proof -
  from overtaken_run obtain s where
    s: "worker_steps accepting_bus (start_system small_queue retry_clock []) s"
    and w: "ws_worker s = Publishing [(0, Inr ())] []" and st: "ws_stopCh s" by blast
  from w have "ws_worker s \<noteq> NotStarted" by simp
  from retry_stop_completes [OF s small_queue_fresh this st] s w st show ?thesis by blast
qed

end
