(* ===== verification/Broker_Delivery.thy ===== *)
theory Broker_Delivery
  imports Broker_Instances Retry_Worker
begin

text \<open>
  The administration service with its retry queue (\<^verbatim>\<open>src/admin/admin.go\<close>,
  \<^verbatim>\<open>src/admin/retry_queue.go\<close>) on a bus over a broker, and the instances behind it. A call
  publishes its event; when that fails it enqueues the event, later, and the worker publishes
  it again. The steps of the worker and of the instances are those of \<open>Retry_Worker\<close> and of
  \<open>Broker_Instances\<close>. Shown: once the queue is empty without a critical line of the log, every
  instance to which no message was lost knows the newest event that anyone tried to publish since
  it subscribed, however often a publication failed, of each tenant for which no update of
  \<^verbatim>\<open>apply\<close> was lost.
\<close>

section \<open>The system\<close>

text \<open>The second component: the events of calls between a failed publication and \<^verbatim>\<open>Enqueue\<close>.\<close>

type_synonym 'r delivery = "'r fleet worker_system \<times> TenantEvent list"

inductive delivery_step ::
  "'r broker_api \<Rightarrow> (TenantEvent \<Rightarrow> string result) \<Rightarrow> (string \<Rightarrow> TenantEvent result) \<Rightarrow> broker_bus \<Rightarrow>
     'r delivery \<Rightarrow> 'r delivery \<Rightarrow> bool"
  for api :: "'r broker_api" and marshal :: "TenantEvent \<Rightarrow> string result"
    and unmarshal :: "string \<Rightarrow> TenantEvent result" and bus :: broker_bus where
  instances: "fleet_move api unmarshal bus (ws_bus s) f \<Longrightarrow>
    delivery_step api marshal unmarshal bus (s, es) (s\<lparr>ws_bus := f\<rparr>, es)"
| published: "fleet_publish api marshal bus ctx e (ws_bus s) = (Inr u, f) \<Longrightarrow>
    delivery_step api marshal unmarshal bus (s, es) (s\<lparr>ws_bus := f\<rparr>, es)"
| failed: "fleet_publish api marshal bus ctx e (ws_bus s) = (Inl err, f) \<Longrightarrow>
    delivery_step api marshal unmarshal bus (s, es) (s\<lparr>ws_bus := f\<rparr>, es @ [e])"
| enqueue: "k < length es \<Longrightarrow> PublishRetryQueue_Enqueue (es ! k) (ws_queue s, ws_clock s) = Inr (q, c) \<Longrightarrow>
    delivery_step api marshal unmarshal bus (s, es) (s\<lparr>ws_queue := q, ws_clock := c\<rparr>, delete_at k es)"
| worker: "worker_step (fleet_publish api marshal bus ctx) s s' \<Longrightarrow> ws_worker s' \<noteq> ws_worker s \<Longrightarrow>
    delivery_step api marshal unmarshal bus (s, es) (s', es)"
| clock_read: "time_Now (ws_clock s) = (now, c) \<Longrightarrow>
    delivery_step api marshal unmarshal bus (s, es) (s\<lparr>ws_clock := c\<rparr>, es)"
| control: "worker_step (fleet_publish api marshal bus ctx) s s' \<Longrightarrow>
    ws_worker s' = ws_worker s \<Longrightarrow> ws_queue s' = ws_queue s \<Longrightarrow> ws_bus s' = ws_bus s \<Longrightarrow>
    delivery_step api marshal unmarshal bus (s, es) (s', es)"

section \<open>A failed event is not forgotten\<close>

text \<open>
  Where the event of a failed publication is until it has been published: with a call that
  is about to enqueue it, in the queue, unless the worker has published it in this round, or
  in the log of lost events.
\<close>

definition awaits :: "PublishRetryQueue \<Rightarrow> worker \<Rightarrow> TenantEvent list \<Rightarrow> TenantEvent \<Rightarrow> bool" where
  "awaits q w es e \<longleftrightarrow> e \<in> set es \<or> e \<in> lost_event ` set (q_log q) \<or>
     (\<exists>a \<in> set (q_pending q). event_at q a = e \<and> (a, Inr ()) \<notin> set (batch_done w))"

definition covered :: "'r delivery \<Rightarrow> bool" where
  "covered = (\<lambda>(s, es). \<forall>x \<in> set (fl_instances (ws_bus s)). \<forall>e \<in> set (in_maybe x).
     e \<in> set (in_since x) \<or> awaits (ws_queue s) (ws_worker s) es e)"

text \<open>What the worker is about to publish is in the queue, or its loss is in the log.\<close>

definition todo_known :: "'b worker_system \<Rightarrow> bool" where
  "todo_known s \<longleftrightarrow> (\<forall>a \<in> set (batch_todo (ws_worker s)).
     a \<in> set (q_pending (ws_queue s)) \<or> event_at (ws_queue s) a \<in> lost_event ` set (q_log (ws_queue s)))"

text \<open>\<^verbatim>\<open>Enqueue\<close>: an entry stays or its event is logged; the new one is at a new address.\<close>

lemma Enqueue_keeps:
  assumes inv: "queue_inv q" and run: "PublishRetryQueue_Enqueue e (q, c) = Inr (q', c')"
  shows "a \<in> set (q_pending q) \<Longrightarrow> a \<in> set (q_pending q') \<or> event_at q a \<in> lost_event ` set (q_log q')"
    and "set (q_log q) \<subseteq> set (q_log q')"
    and "a < q_next_addr q \<Longrightarrow> event_at q' a = event_at q a"
    and "q_next_addr q \<in> set (q_pending q') \<and> event_at q' (q_next_addr q) = e"
proof -
  obtain q'' where q'': "PublishRetryQueue_Enqueue e (q, c) = Inr (q'', \<lambda>n. c (Suc n))"
    and pend: "q_pending q'' = (if int (length (q_pending q)) = q_maxSize q then tl (q_pending q)
      else q_pending q) @ [q_next_addr q]"
    and objs: "q_objects q'' = (q_objects q)(q_next_addr q :=
      \<lparr>pe_event = e, pe_attempts = 0, pe_nextAttemptAt = c 0\<rparr>)"
    and log: "q_log q'' = q_log q @ (if int (length (q_pending q)) = q_maxSize q
      then [LogFull (q_maxSize q) (pe_event (q_objects q (hd (q_pending q))))
        (pe_attempts (q_objects q (hd (q_pending q))))] else [])"
    by (rule Enqueue_cases [OF inv])
  have eq: "q' = q''" using run q'' by simp
  show "set (q_log q) \<subseteq> set (q_log q')" "a < q_next_addr q \<Longrightarrow> event_at q' a = event_at q a"
    "q_next_addr q \<in> set (q_pending q') \<and> event_at q' (q_next_addr q) = e"
    by (auto simp: eq log objs pend event_at_def)
  show "a \<in> set (q_pending q) \<Longrightarrow> a \<in> set (q_pending q') \<or> event_at q a \<in> lost_event ` set (q_log q')"
    by (cases "q_pending q") (auto simp: eq log pend event_at_def)
qed

text \<open>The end of a round: an entry that was not published stays or its event is logged.\<close>

lemma finish_keeps:
  assumes inv: "queue_inv q" and batch: "distinct (map fst sent)"
    and run: "apply_results sent (q, c) = (q', c')"
  shows "a \<in> set (q_pending q) \<Longrightarrow> (a, Inr ()) \<notin> set sent \<Longrightarrow>
      a \<in> set (q_pending q') \<or> event_at q a \<in> lost_event ` set (q_log q')"
    and "set (q_log q) \<subseteq> set (q_log q')" and "event_at q' a = event_at q a"
proof -
  have dist: "distinct (q_pending q)" using inv by (simp add: queue_inv_def)
  have q': "q' = fst (apply_results sent (q, c))" using run by simp
  note eff = apply_results_effect [OF batch dist, of c]
  show "set (q_log q) \<subseteq> set (q_log q')" "event_at q' a = event_at q a"
    by (auto simp: q' eff event_at_def apply_results_event)
  assume a: "a \<in> set (q_pending q)" "(a, Inr ()) \<notin> set sent"
  show "a \<in> set (q_pending q') \<or> event_at q a \<in> lost_event ` set (q_log q')"
  proof (cases "survives q sent a")
    case True
    with a show ?thesis by (simp add: q' eff)
  next
    case False
    then obtain err where err: "map_of sent a = Some err" "\<not> keeps q a err"
      by (auto simp: survives_def split: option.splits)
    with a(2) obtain e where e: "err = Inl e" by (cases err) (auto dest: map_of_SomeD)
    with err a(1) have "LogExhausted (event_at q a) (pe_attempts (q_objects q a)) e \<in> set (lost_by q (a, err))"
      by (simp add: lost_by_def event_at_def)
    with err(1) have "LogExhausted (event_at q a) (pe_attempts (q_objects q a)) e \<in> set (q_log q')"
      by (auto simp: q' eff dest: map_of_SomeD)
    then show ?thesis by force
  qed
qed


text \<open>What a step makes of the records of publications.\<close>

lemma fleet_move_history:
  "fleet_move api unmarshal bus f f' \<Longrightarrow> x' \<in> set (fl_instances f') \<Longrightarrow>
     in_maybe x' = [] \<or> (\<exists>x \<in> set (fl_instances f). in_since x' = in_since x \<and> in_maybe x' = in_maybe x)"
proof (induction rule: fleet_move.induct)
  case (receive s k x data r)
  then show ?case by (fastforce dest!: subsetD [OF set_update_subset_insert])
next
  case (run s k x j h e)
  then show ?case by (fastforce dest!: subsetD [OF set_update_subset_insert])
next
  case (operate s k x j)
  then show ?case by (fastforce dest!: subsetD [OF set_update_subset_insert])
next
  case (load s k x i banned at)
  then show ?case by (fastforce dest!: subsetD [OF set_update_subset_insert])
qed (auto simp: new_instance_def)

lemma fleet_publish_history:
  "fleet_publish api marshal bus ctx e f = (Inr u, f') \<Longrightarrow>
     fl_instances f' = map (\<lambda>x. x\<lparr>in_since := in_since x @ [e]\<rparr>) (fl_instances f)"
  "fleet_publish api marshal bus ctx e f = (Inl err, f') \<Longrightarrow>
     fl_instances f' = map (\<lambda>x. x\<lparr>in_maybe := in_maybe x @ [e]\<rparr>) (fl_instances f)"
  by (auto simp: fleet_publish_def split: prod.splits sum.splits)

lemma covered_mono:
  assumes "covered (s, es)" and "ws_bus s' = ws_bus s"
    and "\<And>e. awaits (ws_queue s) (ws_worker s) es e \<Longrightarrow> awaits (ws_queue s') (ws_worker s') es' e"
  shows "covered (s', es')"
  using assms by (auto simp: covered_def)

lemma covered_published:
  assumes "covered (s, es)" and "fleet_publish api marshal bus ctx e (ws_bus s) = (Inr u, f)" and "ws_bus s' = f"
    and "\<And>e'. e' \<noteq> e \<Longrightarrow> awaits (ws_queue s) (ws_worker s) es e' \<Longrightarrow> awaits (ws_queue s') (ws_worker s') es' e'"
  shows "covered (s', es')"
proof -
  have "e' \<in> set (in_since x @ [e]) \<or> awaits (ws_queue s') (ws_worker s') es' e'"
    if "x \<in> set (fl_instances (ws_bus s))" and "e' \<in> set (in_maybe x)" for x e'
    using assms(1) that assms(4) [of e'] by (cases "e' = e") (auto simp: covered_def)
  then show ?thesis by (simp add: covered_def assms(3) fleet_publish_history(1) [OF assms(2)])
qed

lemma covered_failed:
  assumes "covered (s, es)" and "fleet_publish api marshal bus ctx e (ws_bus s) = (Inl err, f)" and "ws_bus s' = f"
    and "awaits (ws_queue s') (ws_worker s') es' e"
    and "\<And>e'. awaits (ws_queue s) (ws_worker s) es e' \<Longrightarrow> awaits (ws_queue s') (ws_worker s') es' e'"
  shows "covered (s', es')"
proof -
  have "e' \<in> set (in_since x) \<or> awaits (ws_queue s') (ws_worker s') es' e'"
    if "x \<in> set (fl_instances (ws_bus s))" and "e' \<in> set (in_maybe x @ [e])" for x e'
    using assms(1) that assms(4) assms(5) [of e'] by (cases "e' = e") (auto simp: covered_def)
  then show ?thesis by (simp add: covered_def assms(3) fleet_publish_history(2) [OF assms(2)])
qed

lemma batch_done_low: "batch_ok s \<Longrightarrow> (a, r) \<in> set (batch_done (ws_worker s)) \<Longrightarrow> a < q_next_addr (ws_queue s)"
  by (force simp: batch_ok_def Let_def)

lemma batch_todo_low: "batch_ok s \<Longrightarrow> a \<in> set (batch_todo (ws_worker s)) \<Longrightarrow> a < q_next_addr (ws_queue s)"
  by (auto simp: batch_ok_def Let_def)

lemma awaits_enqueue:
  assumes inv: "worker_inv s" and k: "k < length es"
    and run: "PublishRetryQueue_Enqueue (es ! k) (ws_queue s, ws_clock s) = Inr (q, c)"
    and e: "awaits (ws_queue s) (ws_worker s) es e"
  shows "awaits q (ws_worker s) (delete_at k es) e"
proof -
  have qi: "queue_inv (ws_queue s)" and batch: "batch_ok s" using inv by (simp_all add: worker_inv_def)
  have low: "a \<in> set (q_pending (ws_queue s)) \<Longrightarrow> a < q_next_addr (ws_queue s)" for a
    using qi by (simp add: queue_inv_def)
  have new: "(q_next_addr (ws_queue s), r) \<notin> set (batch_done (ws_worker s))" for r
    using batch_done_low [OF batch] by blast
  note keep = Enqueue_keeps [OF qi run]
  from set_delete_at [OF k] e consider "e = es ! k" | "e \<in> set (delete_at k es)" | "e \<in> lost_event ` set (q_log (ws_queue s))"
    | a where "a \<in> set (q_pending (ws_queue s))" "event_at (ws_queue s) a = e" "(a, Inr ()) \<notin> set (batch_done (ws_worker s))"
    by (auto simp: awaits_def)
  then show ?thesis
  proof cases
    case 1
    with keep(4) new [of "Inr ()"] show ?thesis unfolding awaits_def by blast
  next
    case (4 a)
    with keep(1) [of a] keep(3) [OF low] show ?thesis by (auto simp: awaits_def)
  qed (use keep(2) in \<open>auto simp: awaits_def\<close>)
qed

lemma awaits_finish:
  assumes inv: "worker_inv s" and w: "ws_worker s = Publishing rs []"
    and run: "apply_results rs (ws_queue s, ws_clock s) = (q, c)" and e: "awaits (ws_queue s) (ws_worker s) es e"
  shows "awaits q Waiting es e"
proof -
  have qi: "queue_inv (ws_queue s)" and batch: "distinct (map fst rs)"
    using inv w by (auto simp: worker_inv_def batch_ok_def Let_def)
  note keep = finish_keeps [OF qi batch run]
  from e w keep(2) show ?thesis
    unfolding awaits_def using keep(1,3) by fastforce
qed

section \<open>The invariant\<close>

lemma worker_inv_delivery:
  "delivery_step api marshal unmarshal bus s s' \<Longrightarrow> worker_inv (fst s) \<Longrightarrow> worker_inv (fst s')"
proof (induction rule: delivery_step.induct)
  case (enqueue k es s q c)
  then show ?case by (simp add: worker_inv_enqueue)
next
  case (clock_read s now c es)
  then show ?case by (simp add: worker_inv_def batch_ok_def attempts_ok_def)
qed (auto intro: worker_inv_step worker_step.bus_moves)

lemma todo_known_delivery:
  "delivery_step api marshal unmarshal bus s s' \<Longrightarrow> worker_inv (fst s) \<Longrightarrow> todo_known (fst s) \<Longrightarrow> todo_known (fst s')"
proof (induction rule: delivery_step.induct)
  case (enqueue k es s q c)
  have qi: "queue_inv (ws_queue s)" and batch: "batch_ok s" using enqueue(3) by (simp_all add: worker_inv_def)
  note low = batch_todo_low [OF batch]
  note keep = Enqueue_keeps [OF qi enqueue(2)]
  show ?case
    using enqueue(4) low keep(2) keep(1,3) unfolding todo_known_def by fastforce
next
  case (worker ctx s s' es)
  from worker(1) worker(2-4) show ?case
    by (cases rule: worker_step.cases)
      (auto simp: todo_known_def PublishRetryQueue_Start_def PublishRetryQueue_Stop_def collect_due_def split: if_splits)
qed (auto simp: todo_known_def)


lemma covered_publish_one:
  assumes inv: "worker_inv s" "todo_known s" "covered (s, es)" and w: "ws_worker s = Publishing rs (pe # todo)"
    and run: "fleet_publish api marshal bus ctx (event_at (ws_queue s) pe) (ws_bus s) = (res, f)"
    and s': "ws_queue s' = ws_queue s" "ws_worker s' = Publishing (rs @ [(pe, res)]) todo" "ws_bus s' = f"
  shows "covered (s', es)"
proof (cases res)
  case (Inr u)
  show ?thesis
    by (rule covered_published [OF inv(3) run [unfolded Inr] s'(3)]) (auto simp: awaits_def s' w)
next
  case (Inl err)
  have "(pe, Inr ()) \<notin> set rs"
    using inv(1) w by (force simp: worker_inv_def batch_ok_def Let_def)
  then have "awaits (ws_queue s') (ws_worker s') es (event_at (ws_queue s) pe)"
    using inv(2) w by (auto simp: todo_known_def awaits_def s' Inl)
  then show ?thesis
    by (rule covered_failed [OF inv(3) run [unfolded Inl] s'(3)]) (auto simp: awaits_def s' w Inl)
qed

lemma covered_delivery:
  "delivery_step api marshal unmarshal bus s s' \<Longrightarrow> worker_inv (fst s) \<Longrightarrow> todo_known (fst s) \<Longrightarrow> covered s \<Longrightarrow> covered s'"
proof (induction rule: delivery_step.induct)
  case (instances s f es)
  from fleet_move_history [OF instances(1)] instances(4) show ?case by (fastforce simp: covered_def)
next
  case (published ctx e s u f es)
  from published(4,1) show ?case by (rule covered_published) simp_all
next
  case (failed ctx e s err f es)
  from failed(4,1) show ?case by (rule covered_failed) (auto simp: awaits_def)
next
  case (enqueue k es s q c)
  from enqueue(5) show ?case
    by (rule covered_mono) (use enqueue awaits_enqueue in simp_all)
next
  case (worker ctx s s' es)
  have inv: "worker_inv s" "todo_known s" using worker(3,4) by simp_all
  from worker(1,2,5) show ?case
  proof (cases rule: worker_step.cases)
    case (publish_one rs pe todo res b)
    from inv worker(5) publish_one(2) show ?thesis
      by (rule covered_publish_one) (use publish_one in \<open>simp_all add: event_at_def\<close>)
  next
    case (finish rs q c)
    from worker(5) show ?thesis
      by (rule covered_mono) (use finish awaits_finish [OF inv(1) finish(2,3)] in simp_all)
  qed (auto simp: covered_def awaits_def PublishRetryQueue_Start_def PublishRetryQueue_Stop_def split: if_splits)
next
  case (clock_read s now c es)
  from clock_read(4) show ?case by (rule covered_mono) simp_all
next
  case (control ctx s s' es)
  from control(7) show ?case by (rule covered_mono) (use control in simp_all)
qed


lemma fleet_of_delivery:
  "delivery_step api marshal unmarshal bus s s' \<Longrightarrow>
     (fleet_step api marshal unmarshal bus)\<^sup>*\<^sup>* (ws_bus (fst s)) (ws_bus (fst s'))"
proof (induction rule: delivery_step.induct)
  case (worker ctx s s' es)
  from worker(1,2) show ?case
    by (cases rule: worker_step.cases)
      (auto intro: fleet_step.publish simp: PublishRetryQueue_Start_def PublishRetryQueue_Stop_def split: if_splits)
qed (auto intro: fleet_step.intros)

definition delivery_begin :: "PublishRetryQueue \<Rightarrow> Clock \<Rightarrow> 'r \<Rightarrow> 'r delivery" where
  "delivery_begin q c r = (start_system q c (no_instances r), [])"

lemma delivery_reachable:
  assumes "(delivery_step api marshal unmarshal bus)\<^sup>*\<^sup>* (delivery_begin q c r) s" and "fresh_queue q"
  shows "worker_inv (fst s) \<and> todo_known (fst s) \<and> covered s \<and>
    (fleet_step api marshal unmarshal bus)\<^sup>*\<^sup>* (no_instances r) (ws_bus (fst s))"
  using assms(1)
proof (induction rule: rtranclp_induct)
  case base
  show ?case
    using worker_inv_start [OF assms(2)]
    by (simp add: delivery_begin_def todo_known_def covered_def start_system_def no_instances_def)
next
  case (step s s')
  then show ?case
    using worker_inv_delivery [OF step(2)] todo_known_delivery [OF step(2)] covered_delivery [OF step(2)]
      rtranclp_trans [OF _ fleet_of_delivery [OF step(2)]] by simp
qed

section \<open>Every event reaches every instance\<close>

text \<open>With an empty queue and no loss in its log, whatever was tried was published in the end.\<close>

lemma attempted_since:
  assumes "fresh_queue q" and "(delivery_step api marshal unmarshal bus)\<^sup>*\<^sup>* (delivery_begin q c r) (s, [])"
    and "q_pending (ws_queue s) = []" and "q_log (ws_queue s) = []" and "x \<in> set (fl_instances (ws_bus s))"
  shows "set (in_maybe x) \<subseteq> set (in_since x)"
proof
  fix e assume "e \<in> set (in_maybe x)"
  with delivery_reachable [OF assms(2,1)] assms(5) have "e \<in> set (in_since x) \<or> awaits (ws_queue s) (ws_worker s) [] e"
    by (simp add: covered_def)
  then show "e \<in> set (in_since x)" by (simp add: awaits_def assms(3,4))
qed

text \<open>
  C10. A ban reaches all instances, with the retry queue behind the administration service. For
  the bus over Redis and over NATS, which deliver at most once, with instances that subscribe at
  any time and may load a snapshot from anywhere, calls of the service one after the other or
  overlapping, publications that fail, some after having reached some of the instances, the worker
  in any interleaving with the calls, messages that arrive late and in any order, and handlers that
  overlap in any way, the \<^verbatim>\<open>Load\<close> and the \<^verbatim>\<open>Store\<close> of every \<^verbatim>\<open>apply\<close> being separate steps. Once the
  queue is empty and no critical line is in its log, an instance to which no message was lost and
  that has nothing left to receive and to run reports a tenant as banned exactly if a newest
  report for it, of the events that anyone tried to publish since the instance subscribed and of
  the answers it loaded, is a ban, provided no call of \<^verbatim>\<open>apply\<close> of that instance for that tenant
  stored over an entry that another one had written since its own \<^verbatim>\<open>Load\<close>. Repeated deliveries do
  no harm. Contradicting reports of one instant are excluded.
\<close>

theorem attempted_events_reach_instances:
  assumes "broker_documented api (bus_channel bus) inbox dropped" and "fresh_queue q"
    and "(delivery_step api marshal unmarshal bus)\<^sup>*\<^sup>* (delivery_begin q c r) (s, [])"
    and "q_pending (ws_queue s) = []" and "q_log (ws_queue s) = []"
    and "x \<in> set (fl_instances (ws_bus s))" and "at_rest inbox dropped (fl_broker (ws_bus s)) x"
    and "i \<notin> ck_raced (in_checks x)"
  defines "es \<equiv> in_since x @ in_maybe x @ in_loaded x"
  assumes "json_documented marshal unmarshal (in_since x @ in_maybe x)" and "no_conflict es"
  shows "BanChecker_IsBanned (in_checker x) i \<longleftrightarrow>
    (\<exists>e \<in> set es. ev_TenantID e = i \<and> ev_State e = Banned \<and>
      (\<forall>e' \<in> set es. ev_TenantID e' = i \<longrightarrow> ev_Timestamp e' \<le> ev_Timestamp e))"
proof -
  from delivery_reachable [OF assms(3,2)]
  have run: "(fleet_step api marshal unmarshal bus)\<^sup>*\<^sup>* (no_instances r) (ws_bus s)" by simp
  note sub = attempted_since [OF assms(2-6)]
  then have set: "set es = set (in_since x) \<union> set (in_loaded x)" by (auto simp: es_def)
  have "no_conflict (in_since x @ in_loaded x)" using assms(11) unfolding no_conflict_def set_append set .
  moreover have "json_documented marshal unmarshal (in_since x)" using assms(10) by (simp add: json_documented_def)
  ultimately show ?thesis using instances_agree [OF assms(1) run assms(6-8) _ sub] unfolding set by blast
qed


type_synonym demo_state = "bool \<times> (string list \<times> bool) list"

text \<open>
  A schedule: two instances, a ban whose publication fails after reaching the first, the event
  enqueued and published by the worker, and the second instance receiving it.
\<close>

definition demo_instance :: "addr \<Rightarrow> TenantEvent list \<Rightarrow> TenantEvent list \<Rightarrow> server_instance" where
  "demo_instance p es fs = (new_instance p)\<lparr>in_since := es, in_maybe := fs\<rparr>"

definition demo_informed :: server_instance where
  "demo_informed = (demo_instance 1 [demo_ban] [demo_ban])
     \<lparr>in_checks := \<lparr>ck_checker = \<lparr>bc_banned = [''acme'' \<mapsto> \<lparr>be_banned = True, be_updatedAt = Time 1\<rparr>]\<rparr>,
        ck_threads = [Returned], ck_raced = {}\<rparr>\<rparr>"

definition demo_system :: "PublishRetryQueue \<Rightarrow> nat \<Rightarrow> worker \<Rightarrow> (addr \<times> unit result) list \<Rightarrow>
    string list list \<Rightarrow> server_instance list \<Rightarrow> demo_state fleet worker_system" where
  "demo_system q n w calls boxes xs = \<lparr>ws_queue = q, ws_clock = (\<lambda>k. Time (int (n + k))),
     ws_bus = \<lparr>fl_broker = (False, map (\<lambda>box. (box, False)) boxes), fl_instances = xs\<rparr>, ws_worker = w, ws_stopCh = False, ws_doneCh = False,
     ws_ctxDone = False, ws_calls = calls\<rparr>"

definition demo_queue :: "addr list \<Rightarrow> PublishRetryQueue" where
  "demo_queue ps = NewPublishRetryQueue\<lparr>q_objects := (q_objects NewPublishRetryQueue)
     (0 := \<lparr>pe_event = demo_ban, pe_attempts = 0, pe_nextAttemptAt = Time 0\<rparr>), q_next_addr := 1, q_pending := ps\<rparr>"

abbreviation demo_steps where
  "demo_steps \<equiv> (delivery_step demo_broker demo_marshal demo_unmarshal (OverRedis (RedisEventBus_New ''events'')))\<^sup>*\<^sup>*"

lemmas delivery_demo = demo_broker_def no_instances_def demo_instance_def new_instance_def demo_marshal_def demo_unmarshal_def
  demo_ban_def RedisEventBus_New_def on_message_def RedisEventBus_Publish_def fleet_publish_def

lemma demo_failed:
  "demo_steps (delivery_begin NewPublishRetryQueue (\<lambda>k. Time (int k)) (True, []))
     (demo_system NewPublishRetryQueue 0 NotStarted [] [[''acme''], []] [demo_instance 0 [] [demo_ban], demo_instance 1 [] [demo_ban]],
      [demo_ban])"
proof -
  let ?bus = "OverRedis (RedisEventBus_New ''events'')"
  let ?step = "delivery_step demo_broker demo_marshal demo_unmarshal ?bus"
  let ?s = "start_system NewPublishRetryQueue (\<lambda>k. Time (int k)) (no_instances (True, [])) :: demo_state fleet worker_system"
  let ?f1 = "\<lparr>fl_broker = (True, [([], False)]), fl_instances = [new_instance 0]\<rparr> :: demo_state fleet"
  let ?f2 = "\<lparr>fl_broker = (True, [([], False), ([], False)]), fl_instances = [new_instance 0, new_instance 1]\<rparr> :: demo_state fleet"
  have "fleet_move demo_broker demo_unmarshal ?bus (no_instances (True, [])) ?f1"
    using fleet_move.join [of demo_broker ?bus "no_instances (True, [])" 0 "(True, [([], False)])" demo_unmarshal] by (simp add: delivery_demo)
  then have "?step (?s, []) (?s\<lparr>ws_bus := ?f1\<rparr>, [])" by (intro delivery_step.instances) (simp add: start_system_def)
  moreover have "fleet_move demo_broker demo_unmarshal ?bus ?f1 ?f2"
    using fleet_move.join [of demo_broker ?bus ?f1 1 "(True, [([], False), ([], False)])" demo_unmarshal] by (simp add: delivery_demo)
  then have "?step (?s\<lparr>ws_bus := ?f1\<rparr>, []) (?s\<lparr>ws_bus := ?f2\<rparr>, [])"
    using delivery_step.instances [of demo_broker demo_unmarshal ?bus "?s\<lparr>ws_bus := ?f1\<rparr>" ?f2] by simp
  moreover have "?step (?s\<lparr>ws_bus := ?f2\<rparr>, []) (demo_system NewPublishRetryQueue 0 NotStarted [] [[''acme''], []]
      [demo_instance 0 [] [demo_ban], demo_instance 1 [] [demo_ban]], [demo_ban])"
    using delivery_step.failed [of demo_broker demo_marshal ?bus Background demo_ban "?s\<lparr>ws_bus := ?f2\<rparr>"
        "ErrVar ''net.OpError'' ''broken pipe''" _ demo_unmarshal "[]"]
    by (simp add: start_system_def demo_system_def delivery_demo)
  ultimately show ?thesis by (simp add: delivery_begin_def converse_rtranclp_into_rtranclp)
qed

lemma demo_retried:
  "demo_steps
     (demo_system NewPublishRetryQueue 0 NotStarted [] [[''acme''], []] [demo_instance 0 [] [demo_ban], demo_instance 1 [] [demo_ban]],
      [demo_ban])
     (demo_system (demo_queue []) 2 Waiting [(0, Inr ())] [[''acme'', ''acme''], [''acme'']]
       [demo_instance 0 [demo_ban] [demo_ban], demo_instance 1 [demo_ban] [demo_ban]], [])"
proof -
  let ?bus = "OverRedis (RedisEventBus_New ''events'')"
  let ?step = "delivery_step demo_broker demo_marshal demo_unmarshal ?bus"
  let ?pub = "fleet_publish demo_broker demo_marshal ?bus Background"
  let ?xs = "[demo_instance 0 [] [demo_ban], demo_instance 1 [] [demo_ban]]"
  let ?ys = "[demo_instance 0 [demo_ban] [demo_ban], demo_instance 1 [demo_ban] [demo_ban]]"
  let ?q = "demo_queue [0]" and ?box = "[[''acme''], []]" and ?box' = "[[''acme'', ''acme''], [''acme'']]"
  let ?s0 = "demo_system NewPublishRetryQueue 0 NotStarted [] ?box ?xs"
  let ?s1 = "demo_system ?q 1 NotStarted [] ?box ?xs" and ?s2 = "demo_system ?q 1 Waiting [] ?box ?xs"
  let ?s3 = "demo_system ?q 2 (Collecting (Time 1)) [] ?box ?xs" and ?s4 = "demo_system ?q 2 (Publishing [] [0]) [] ?box ?xs"
  let ?s5 = "demo_system ?q 2 (Publishing [(0, Inr ())] []) [(0, Inr ())] ?box' ?ys"
  let ?s6 = "demo_system (demo_queue []) 2 Waiting [(0, Inr ())] ?box' ?ys"
  have "?step (?s0, [demo_ban]) (?s1, [])"
    using delivery_step.enqueue [of 0 "[demo_ban]" ?s0 ?q "\<lambda>k. Time (int (1 + k))" demo_broker demo_marshal demo_unmarshal ?bus]
    by (simp add: demo_system_def demo_queue_def PublishRetryQueue_Enqueue_def drop_oldest_def NewPublishRetryQueue_def
        time_Now_def defaultMaxSize_def delete_at_def)
  moreover have "worker_step ?pub ?s1 ?s2"
    using worker_step.start [of ?s1 ?pub] by (simp add: demo_system_def PublishRetryQueue_Start_def)
  moreover have "worker_step ?pub ?s2 ?s3"
    using worker_step.tick [of ?s2 "Time 1" "\<lambda>k. Time (int (2 + k))" ?pub] by (simp add: demo_system_def time_Now_def)
  moreover have "worker_step ?pub ?s3 ?s4"
    using worker_step.collect [of ?s3 "Time 1" "[0]" ?pub]
    by (simp add: demo_system_def collect_due_def demo_queue_def less_Time_def)
  moreover have "worker_step ?pub ?s4 ?s5"
    using worker_step.publish_one [of ?s4 "[]" 0 "[]" ?pub "Inr ()" "ws_bus ?s5"]
    by (simp add: demo_system_def demo_queue_def delivery_demo)
  moreover have "worker_step ?pub ?s5 ?s6"
    using worker_step.finish [of ?s5 "[(0, Inr ())]" "demo_queue []" "ws_clock ?s5" ?pub]
    by (simp add: demo_system_def demo_queue_def apply_result_def PublishRetryQueue_indexOf_def PublishRetryQueue_removeAt_def delete_at_def)
  ultimately have "?step (?s0, [demo_ban]) (?s1, [])" "?step (?s1, []) (?s2, [])" "?step (?s2, []) (?s3, [])"
    "?step (?s3, []) (?s4, [])" "?step (?s4, []) (?s5, [])" "?step (?s5, []) (?s6, [])"
    by (auto intro!: delivery_step.worker [where ctx = Background] simp: demo_system_def)
  then show ?thesis by (simp add: converse_rtranclp_into_rtranclp)
qed


lemma demo_received:
  "demo_steps
     (demo_system (demo_queue []) 2 Waiting [(0, Inr ())] [[''acme'', ''acme''], [''acme'']]
       [demo_instance 0 [demo_ban] [demo_ban], demo_instance 1 [demo_ban] [demo_ban]], [])
     (demo_system (demo_queue []) 2 Waiting [(0, Inr ())] [[''acme'', ''acme''], []]
       [demo_instance 0 [demo_ban] [demo_ban], demo_informed], [])"
proof -
  let ?bus = "OverRedis (RedisEventBus_New ''events'')"
  let ?step = "delivery_step demo_broker demo_marshal demo_unmarshal ?bus"
  let ?xs = "[demo_instance 0 [demo_ban] [demo_ban], demo_instance 1 [demo_ban] [demo_ban]]"
  let ?x = "demo_instance 1 [demo_ban] [demo_ban]" and ?empty = "\<lparr>bc_banned = Map.empty\<rparr>"
  let ?thread = "\<lambda>th. ?x\<lparr>in_checks := \<lparr>ck_checker = ?empty, ck_threads = [th], ck_raced = {}\<rparr>\<rparr>"
  let ?y1 = "?x\<lparr>in_running := [(ban_handler, demo_ban)]\<rparr>" and ?y2 = "?thread (Starting ''acme'' True (Time 1))"
  let ?y3 = "?thread (Loaded ''acme'' True (Time 1) None)"
  let ?at = "\<lambda>box y. demo_system (demo_queue []) 2 Waiting [(0, Inr ())] [[''acme'', ''acme''], box] (?xs[1 := y])"
  let ?s0 = "?at [''acme''] ?x" and ?s1 = "?at [] ?y1" and ?s2 = "?at [] ?y2" and ?s3 = "?at [] ?y3" and ?s4 = "?at [] demo_informed"
  note demo = demo_system_def delivery_demo checker_defs
  have step: "?step (?at box y, []) (?at box' y', [])"
    if "fleet_move demo_broker demo_unmarshal ?bus (ws_bus (?at box y)) (ws_bus (?at box' y'))" for box box' y y'
    using delivery_step.instances [OF that, of demo_marshal "[]"] by (simp add: demo_system_def)
  have "fleet_move demo_broker demo_unmarshal ?bus (ws_bus ?s0) (ws_bus ?s1)"
    using fleet_move.receive [of 1 "ws_bus ?s0" "?xs ! 1" demo_broker "''acme''" "fl_broker (ws_bus ?s1)" demo_unmarshal ?bus]
    by (simp add: demo)
  moreover have "fleet_move demo_broker demo_unmarshal ?bus (ws_bus ?s1) (ws_bus ?s2)"
    using fleet_move.run [of 1 "ws_bus ?s1" ?y1 0 ban_handler demo_ban demo_broker demo_unmarshal ?bus]
    by (simp add: demo delete_at_def)
  moreover have "fleet_move demo_broker demo_unmarshal ?bus (ws_bus ?s2) (ws_bus ?s3)"
    using fleet_move.operate [of 1 "ws_bus ?s2" ?y2 0 demo_broker demo_unmarshal ?bus] by (simp add: demo)
  moreover have "fleet_move demo_broker demo_unmarshal ?bus (ws_bus ?s3) (ws_bus ?s4)"
    using fleet_move.operate [of 1 "ws_bus ?s3" ?y3 0 demo_broker demo_unmarshal ?bus]
    by (simp add: demo demo_informed_def outdated_def)
  ultimately have "?step (?s0, []) (?s1, [])" "?step (?s1, []) (?s2, [])" "?step (?s2, []) (?s3, [])" "?step (?s3, []) (?s4, [])"
    using step by blast+
  then show ?thesis by (simp add: converse_rtranclp_into_rtranclp)
qed

theorem attempted_events_reach_instances_witness:
  "\<exists>s. demo_steps (delivery_begin NewPublishRetryQueue (\<lambda>k. Time (int k)) (True, [])) (s, []) \<and>
     demo_informed \<in> set (fl_instances (ws_bus s)) \<and> in_maybe demo_informed = [demo_ban] \<and>
     BanChecker_IsBanned (in_checker demo_informed) ''acme'' \<and> \<not> BanChecker_IsBanned (in_checker demo_informed) ''globex''"
proof -
  let ?s = "demo_system (demo_queue []) 2 Waiting [(0, Inr ())] [[''acme'', ''acme''], []]
    [demo_instance 0 [demo_ban] [demo_ban], demo_informed]"
  have run: "demo_steps (delivery_begin NewPublishRetryQueue (\<lambda>k. Time (int k)) (True, [])) (?s, [])"
    using rtranclp_trans [OF demo_failed rtranclp_trans [OF demo_retried demo_received]] .
  have x: "in_since demo_informed = [demo_ban]" "in_maybe demo_informed = [demo_ban]" "in_loaded demo_informed = []"
    "ck_raced (in_checks demo_informed) = {}" "at_rest demo_inbox demo_dropped (fl_broker (ws_bus ?s)) demo_informed"
    by (simp_all add: demo_informed_def demo_instance_def new_instance_def demo_system_def at_rest_def demo_inbox_def demo_dropped_def
        finished_def)
  have es: "json_documented demo_marshal demo_unmarshal (in_since demo_informed @ in_maybe demo_informed)"
    "no_conflict (in_since demo_informed @ in_maybe demo_informed @ in_loaded demo_informed)"
    by (simp_all add: json_documented_def no_conflict_def x demo_ban_def demo_marshal_def demo_unmarshal_def)
  have mem: "demo_informed \<in> set (fl_instances (ws_bus ?s))" by (simp add: demo_system_def)
  have q: "q_pending (ws_queue ?s) = []" "q_log (ws_queue ?s) = []"
    by (simp_all add: demo_system_def demo_queue_def NewPublishRetryQueue_def)
  note known = attempted_events_reach_instances [OF demo_broker_documented fresh_queue_New run q mem x(5) _ es]
  from known [of "''acme''"] known [of "''globex''"] run mem x(2,4) show ?thesis
    by (intro exI [of _ ?s]) (simp add: x demo_ban_def)
qed

end
