(* ===== verification/Fleet_Agreement.thy ===== *)
theory Fleet_Agreement
  imports Broker_Delivery Ban_Startup
begin

text \<open>
  The whole of ban propagation over a broker: the administration service writes the state of a
  tenant into the store, stamps and publishes an event (\<^verbatim>\<open>transition\<close> of \<^verbatim>\<open>src/admin/admin.go\<close>);
  when the publication fails the retry queue (\<^verbatim>\<open>src/admin/retry_queue.go\<close>) repeats it; instances
  behind the broker (\<^verbatim>\<open>src/eventbus/redis/redis.go\<close>, \<^verbatim>\<open>src/eventbus/nats/nats.go\<close>) subscribe at any
  time, load the state of the listed tenants from the store (\<^verbatim>\<open>LoadInitialBannedList\<close> of
  \<^verbatim>\<open>src/banchecker/banchecker.go\<close>) and follow the events. The store is one that all instances
  read, all processes read one clock, and the service is used by any number of callers at the
  same time, but by one at a time for the same tenant (without that,
  \<open>concurrent_transitions_diverge\<close> of \<open>Ban_Propagation\<close> shows what can go wrong). The \<^verbatim>\<open>Load\<close> and the
  \<^verbatim>\<open>Store\<close> of every \<^verbatim>\<open>apply\<close>, by handlers and by the loading, are separate steps. Shown: once nothing
  is in flight for a tenant, every instance to which no message was lost, and that lost no update
  of \<^verbatim>\<open>apply\<close> for the tenant, agrees with the store on it.
\<close>

section \<open>The system\<close>

text \<open>
  The phases of a call and of the loading are those of \<open>Ban_Startup\<close>; \<open>cl_loads\<close> has one for each
  instance, in the order of their subscriptions, and \<open>cl_calls\<close> the phase of the call for each tenant. \<open>cl_failed\<close>
  has the events of the calls between their failed publication and \<^verbatim>\<open>Enqueue\<close>. \<open>cl_events\<close> records the stamped events and nothing reads it.
\<close>

record 'r cluster =
  cl_store :: mem_state
  cl_calls :: "TenantID \<Rightarrow> admin_call"
  cl_system :: "'r fleet worker_system"
  cl_failed :: "TenantEvent list"
  cl_loads :: "startup list"
  cl_events :: "TenantEvent list"

abbreviation cl_fleet :: "'r cluster \<Rightarrow> 'r fleet" where
  "cl_fleet s \<equiv> ws_bus (cl_system s)"

abbreviation at_load :: "'r cluster \<Rightarrow> nat \<Rightarrow> startup \<Rightarrow> bool" where
  "at_load s k ph \<equiv> k < length (cl_loads s) \<and> cl_loads s ! k = ph"

inductive cluster_step ::
  "'r broker_api \<Rightarrow> (TenantEvent \<Rightarrow> string result) \<Rightarrow> (string \<Rightarrow> TenantEvent result) \<Rightarrow> broker_bus \<Rightarrow> TenantID list \<Rightarrow>
     'r cluster \<Rightarrow> 'r cluster \<Rightarrow> bool"
  for api :: "'r broker_api" and marshal :: "TenantEvent \<Rightarrow> string result"
    and unmarshal :: "string \<Rightarrow> TenantEvent result" and bus :: broker_bus and ids :: "TenantID list" where
  set_state: "cl_calls s i = Idle \<Longrightarrow> MemoryStore_SetState ctx i st (cl_store s) = (Inr u, m) \<Longrightarrow>
    cluster_step api marshal unmarshal bus ids s (s\<lparr>cl_store := m, cl_calls := (cl_calls s)(i := Written i st)\<rparr>)"
| stamp: "cl_calls s i = Written i st \<Longrightarrow> time_Now (ws_clock (cl_system s)) = (now, c) \<Longrightarrow>
    e = \<lparr>ev_TenantID = i, ev_State = st, ev_Timestamp = now\<rparr> \<Longrightarrow>
    cluster_step api marshal unmarshal bus ids s (s\<lparr>cl_calls := (cl_calls s)(i := Stamped e),
      cl_system := (cl_system s)\<lparr>ws_clock := c\<rparr>, cl_events := cl_events s @ [e]\<rparr>)"
| publish: "cl_calls s (ev_TenantID e) = Stamped e \<Longrightarrow> fleet_publish api marshal bus ctx e (cl_fleet s) = (res, f) \<Longrightarrow>
    cluster_step api marshal unmarshal bus ids s (s\<lparr>cl_calls := (cl_calls s)(ev_TenantID e := Idle), cl_system := (cl_system s)\<lparr>ws_bus := f\<rparr>,
      cl_failed := cl_failed s @ (case res of Inl err \<Rightarrow> [e] | Inr u \<Rightarrow> [])\<rparr>)"
| enqueue: "k < length (cl_failed s) \<Longrightarrow>
    PublishRetryQueue_Enqueue (cl_failed s ! k) (ws_queue (cl_system s), ws_clock (cl_system s)) = Inr (q, c) \<Longrightarrow>
    cluster_step api marshal unmarshal bus ids s (s\<lparr>cl_system := (cl_system s)\<lparr>ws_queue := q, ws_clock := c\<rparr>,
      cl_failed := delete_at k (cl_failed s)\<rparr>)"
| worker: "worker_step (fleet_publish api marshal bus ctx) (cl_system s) w \<Longrightarrow> ws_worker w \<noteq> ws_worker (cl_system s) \<Longrightarrow>
    cluster_step api marshal unmarshal bus ids s (s\<lparr>cl_system := w\<rparr>)"
| control: "worker_step (fleet_publish api marshal bus ctx) (cl_system s) w \<Longrightarrow>
    ws_worker w = ws_worker (cl_system s) \<Longrightarrow> ws_queue w = ws_queue (cl_system s) \<Longrightarrow> ws_bus w = cl_fleet s \<Longrightarrow>
    cluster_step api marshal unmarshal bus ids s (s\<lparr>cl_system := w\<rparr>)"
| join: "br_subscribe api (bus_channel bus) (fl_broker (cl_fleet s)) = (Inr p, r) \<Longrightarrow>
    cluster_step api marshal unmarshal bus ids s (s\<lparr>cl_loads := cl_loads s @ [Subscribed],
      cl_system := (cl_system s)\<lparr>ws_bus := \<lparr>fl_broker = r, fl_instances = fl_instances (cl_fleet s) @ [new_instance p]\<rparr>\<rparr>\<rparr>)"
| instances: "fleet_move api unmarshal bus (cl_fleet s) f \<Longrightarrow>
    map in_loaded (fl_instances f) = map in_loaded (fl_instances (cl_fleet s)) \<Longrightarrow>
    cluster_step api marshal unmarshal bus ids s (s\<lparr>cl_system := (cl_system s)\<lparr>ws_bus := f\<rparr>\<rparr>)"
| load: "at_load s k Subscribed \<Longrightarrow> time_Now (ws_clock (cl_system s)) = (at, c) \<Longrightarrow>
    cluster_step api marshal unmarshal bus ids s (s\<lparr>cl_system := (cl_system s)\<lparr>ws_clock := c\<rparr>,
      cl_loads := (cl_loads s)[k := Loading at ids]\<rparr>)"
| ask: "at_load s k (Loading at (i # is)) \<Longrightarrow> MemoryStore_IsBanned ctx i (cl_store s) = (Inr banned, m) \<Longrightarrow>
    cluster_step api marshal unmarshal bus ids s (s\<lparr>cl_store := m, cl_loads := (cl_loads s)[k := Applying at i banned is]\<rparr>)"
| ask_error: "at_load s k (Loading at (i # is)) \<Longrightarrow> MemoryStore_IsBanned ctx i (cl_store s) = (Inl err, m) \<Longrightarrow>
    cluster_step api marshal unmarshal bus ids s (s\<lparr>cl_store := m, cl_loads := (cl_loads s)[k := LoadReturned (Inl err)]\<rparr>)"
| apply_answer: "at_load s k (Applying at i banned is) \<Longrightarrow> at_instance (cl_fleet s) k x \<Longrightarrow>
    x' = x\<lparr>in_checks := begin_apply i banned at (in_checks x), in_loaded := in_loaded x @ [loaded_answer i banned at]\<rparr> \<Longrightarrow>
    cluster_step api marshal unmarshal bus ids s (s\<lparr>cl_loads := (cl_loads s)[k := InApply at (length (ck_threads (in_checks x))) is],
      cl_system := (cl_system s)\<lparr>ws_bus := (cl_fleet s)\<lparr>fl_instances := (fl_instances (cl_fleet s))[k := x']\<rparr>\<rparr>\<rparr>)"
| apply_returns: "at_load s k (InApply at j is) \<Longrightarrow> at_instance (cl_fleet s) k x \<Longrightarrow> j < length (ck_threads (in_checks x)) \<Longrightarrow>
    ck_threads (in_checks x) ! j = Returned \<Longrightarrow>
    cluster_step api marshal unmarshal bus ids s (s\<lparr>cl_loads := (cl_loads s)[k := Loading at is]\<rparr>)"
| finish: "at_load s k (Loading at []) \<Longrightarrow>
    cluster_step api marshal unmarshal bus ids s (s\<lparr>cl_loads := (cl_loads s)[k := LoadReturned (Inr ())]\<rparr>)"

definition cluster_begin :: "mem_state \<Rightarrow> PublishRetryQueue \<Rightarrow> Clock \<Rightarrow> 'r \<Rightarrow> 'r cluster" where
  "cluster_begin m q c r = \<lparr>cl_store = m, cl_calls = (\<lambda>i. Idle), cl_system = start_system q c (no_instances r),
     cl_failed = [], cl_loads = [], cl_events = []\<rparr>"

text \<open>Without the store and the phases of the loading it is the system of \<open>Broker_Delivery\<close>.\<close>

lemma delivery_of_cluster:
  "cluster_step api marshal unmarshal bus ids s s' \<Longrightarrow>
     (delivery_step api marshal unmarshal bus)\<^sup>*\<^sup>* (cl_system s, cl_failed s) (cl_system s', cl_failed s')"
proof (induction rule: cluster_step.induct)
  case (publish s e ctx res f)
  then show ?case
    using delivery_step.published [of api marshal bus ctx e "cl_system s" _ f unmarshal "cl_failed s"]
      delivery_step.failed [of api marshal bus ctx e "cl_system s" _ f unmarshal "cl_failed s"]
    by (cases res) auto
next
  case (join s p r)
  from fleet_move.join [OF join, of unmarshal] show ?case by (auto intro: delivery_step.instances)
next
  case (apply_answer s k at i banned "is" x x')
  from fleet_move.load [OF apply_answer(2), of api unmarshal bus i banned at] apply_answer(3) show ?case
    by (auto intro: delivery_step.instances)
qed (auto intro: delivery_step.intros)

lemma delivery_of_steps:
  "(cluster_step api marshal unmarshal bus ids)\<^sup>*\<^sup>* s s' \<Longrightarrow>
     (delivery_step api marshal unmarshal bus)\<^sup>*\<^sup>* (cl_system s, cl_failed s) (cl_system s', cl_failed s')"
proof (induction rule: rtranclp_induct)
  case (step s1 s2)
  from rtranclp_trans [OF step(3) delivery_of_cluster [OF step(2)]] show ?case .
qed simp

section \<open>What an instance can know\<close>

abbreviation next_time :: "'r cluster \<Rightarrow> Time" where
  "next_time s \<equiv> ws_clock (cl_system s) 0"

abbreviation writing :: "'r cluster \<Rightarrow> TenantID \<Rightarrow> bool" where
  "writing s i \<equiv> \<exists>st. cl_calls s i = Written i st"

text \<open>Every event stamped after the time is among those published since the subscription.\<close>

definition in_touch :: "'r cluster \<Rightarrow> server_instance \<Rightarrow> Time \<Rightarrow> bool" where
  "in_touch s x at \<longleftrightarrow> at < next_time s \<and>
     (\<forall>e \<in> set (cl_events s). ev_Timestamp e < at \<or>
        at < ev_Timestamp e \<and> (e \<in> set (in_since x) \<union> set (in_maybe x) \<or> cl_calls s (ev_TenantID e) = Stamped e))"

text \<open>An answer is right as long as no later event for the tenant has been stamped or is about to be.\<close>

definition answer_right :: "'r cluster \<Rightarrow> TenantID \<Rightarrow> bool \<Rightarrow> Time \<Rightarrow> bool" where
  "answer_right s i banned at \<longleftrightarrow>
     (\<forall>e \<in> set (cl_events s). ev_TenantID e = i \<longrightarrow> ev_Timestamp e < at) \<and> \<not> writing s i \<longrightarrow>
     (\<exists>t. ms_view (cl_store s) i = Some t \<and> (tState t = Banned \<longleftrightarrow> banned))"

definition loaded_before :: "TenantID list \<Rightarrow> server_instance \<Rightarrow> Time \<Rightarrow> TenantID list \<Rightarrow> bool" where
  "loaded_before ids x at is \<longleftrightarrow> map ev_TenantID (in_loaded x) @ is = ids \<and> (\<forall>a \<in> set (in_loaded x). ev_Timestamp a = at)"

fun load_ok :: "TenantID list \<Rightarrow> 'r cluster \<Rightarrow> server_instance \<Rightarrow> startup \<Rightarrow> bool" where
  "load_ok ids s x Unsubscribed \<longleftrightarrow> False"
| "load_ok ids s x Subscribed \<longleftrightarrow> in_loaded x = []"
| "load_ok ids s x (Loading at is) \<longleftrightarrow> in_touch s x at \<and> loaded_before ids x at is"
| "load_ok ids s x (Applying at i banned is) \<longleftrightarrow>
     in_touch s x at \<and> answer_right s i banned at \<and> loaded_before ids x at (i # is)"
| "load_ok ids s x (InApply at j is) \<longleftrightarrow> in_touch s x at \<and> loaded_before ids x at is"
| "load_ok ids s x (LoadReturned (Inr u)) \<longleftrightarrow> (\<exists>at. in_touch s x at \<and> loaded_before ids x at [])"
| "load_ok ids s x (LoadReturned (Inl err)) \<longleftrightarrow> True"

definition instance_ok :: "TenantID list \<Rightarrow> 'r cluster \<Rightarrow> server_instance \<Rightarrow> startup \<Rightarrow> bool" where
  "instance_ok ids s x ph \<longleftrightarrow> load_ok ids s x ph \<and>
     (\<forall>a \<in> set (in_loaded x). ev_Timestamp a < next_time s \<and> answer_right s (ev_TenantID a) (ev_State a = Banned) (ev_Timestamp a)) \<and>
     set (in_since x) \<union> set (in_maybe x) \<subseteq> set (cl_events s)"

text \<open>What keeps an instance all right: it has heard more, and its answers are as right as before.\<close>

definition heard_more :: "TenantEvent set \<Rightarrow> server_instance \<Rightarrow> server_instance \<Rightarrow> bool" where
  "heard_more E x x' \<longleftrightarrow> in_loaded x' = in_loaded x \<and>
     set (in_since x) \<union> set (in_maybe x) \<subseteq> set (in_since x') \<union> set (in_maybe x') \<and>
     set (in_since x') \<union> set (in_maybe x') \<subseteq> set (in_since x) \<union> set (in_maybe x) \<union> E"

lemma load_ok_mono:
  assumes "load_ok ids s x ph" and "in_loaded x' = in_loaded x"
    and "\<And>at. in_touch s x at \<Longrightarrow> in_touch s' x' at"
    and "\<And>i banned at. in_touch s x at \<Longrightarrow> answer_right s i banned at \<Longrightarrow> answer_right s' i banned at"
  shows "load_ok ids s' x' ph"
  using assms by (cases "(ids, s, x, ph)" rule: load_ok.cases) (auto simp: loaded_before_def)

lemma instance_ok_mono:
  assumes "instance_ok ids s x ph" and "heard_more E x x'" and "E \<subseteq> set (cl_events s')"
    and "set (cl_events s) \<subseteq> set (cl_events s')" and "next_time s \<le> next_time s'"
    and "\<And>at. in_touch s x at \<Longrightarrow> in_touch s' x' at"
    and "\<And>i banned at. at < next_time s \<Longrightarrow> answer_right s i banned at \<Longrightarrow> answer_right s' i banned at"
  shows "instance_ok ids s' x' ph"
proof -
  have loaded: "in_loaded x' = in_loaded x" using assms(2) by (simp add: heard_more_def)
  have "load_ok ids s' x' ph"
  proof (rule load_ok_mono [OF _ loaded assms(6)])
    show "load_ok ids s x ph" using assms(1) by (simp add: instance_ok_def)
    show "answer_right s' i banned at" if "in_touch s x at" "answer_right s i banned at" for i banned at
      using that assms(7) by (simp add: in_touch_def)
  qed
  moreover have "set (in_since x') \<union> set (in_maybe x') \<subseteq> set (cl_events s')"
    using assms(1-4) unfolding instance_ok_def heard_more_def by blast
  ultimately show ?thesis
    using assms(1,5,7) loaded unfolding instance_ok_def by (auto intro: less_le_trans)
qed

text \<open>A step that leaves call, store and events alone.\<close>

lemma instance_ok_frame:
  assumes "instance_ok ids s x ph" and "heard_more E x x'" and "E \<subseteq> set (cl_events s)"
    and "cl_events s' = cl_events s" and "cl_calls s' = cl_calls s" and "ms_view (cl_store s') = ms_view (cl_store s)"
    and "next_time s \<le> next_time s'"
  shows "instance_ok ids s' x' ph"
proof (rule instance_ok_mono [OF assms(1,2)])
  show "in_touch s' x' at" if "in_touch s x at" for at
    using that assms(2,4,5,7) unfolding in_touch_def heard_more_def by (auto intro: less_le_trans)
  show "answer_right s' i banned at" if "answer_right s i banned at" for i banned at
    using that by (simp add: answer_right_def assms(4-6))
qed (use assms(3,4,7) in simp_all)

text \<open>The three steps of a call.\<close>

lemma instance_ok_set_state:
  assumes "instance_ok ids s x ph" and "cl_calls s i = Idle"
    and "\<And>j. j \<noteq> i \<Longrightarrow> ms_view m j = ms_view (cl_store s) j"
  shows "instance_ok ids (s\<lparr>cl_store := m, cl_calls := (cl_calls s)(i := Written i st)\<rparr>) x ph"
proof (rule instance_ok_mono [OF assms(1), of "{}"])
  show "answer_right (s\<lparr>cl_store := m, cl_calls := (cl_calls s)(i := Written i st)\<rparr>) j banned at" if "answer_right s j banned at" for j banned at
    using that assms(2) assms(3) [of j] by (cases "j = i") (auto simp: answer_right_def)
qed (use assms(2) in \<open>auto simp: heard_more_def in_touch_def\<close>)

lemma instance_ok_stamp:
  assumes "instance_ok ids s x ph" and "cl_calls s i = Written i st" and "time_Now (ws_clock (cl_system s)) = (now, c)"
    and "strict_mono (ws_clock (cl_system s))"
  defines "e \<equiv> \<lparr>ev_TenantID = i, ev_State = st, ev_Timestamp = now\<rparr>"
  shows "instance_ok ids (s\<lparr>cl_calls := (cl_calls s)(i := Stamped e), cl_system := (cl_system s)\<lparr>ws_clock := c\<rparr>, cl_events := cl_events s @ [e]\<rparr>) x ph"
    (is "instance_ok ids ?s x ph")
proof (rule instance_ok_mono [OF assms(1), of "{}"])
  note tick = clock_tick [OF assms(4,3)]
  show "next_time s \<le> next_time ?s" using tick(1,3) by simp
  show "in_touch ?s x at" if "in_touch s x at" for at
    using that tick assms(2) by (auto simp: in_touch_def e_def)
  show "answer_right ?s j banned at" if "at < next_time s" "answer_right s j banned at" for j banned at
    using that tick(1) assms(2) by (cases "j = i") (auto simp: answer_right_def e_def)
qed (auto simp: heard_more_def)

lemma instance_ok_publish:
  assumes "instance_ok ids s x ph" and "cl_calls s (ev_TenantID e) = Stamped e" and "e \<in> set (cl_events s)"
    and "heard_more {e} x x'" and "e \<in> set (in_since x') \<union> set (in_maybe x')"
    and "cl_calls s' = (cl_calls s)(ev_TenantID e := Idle)" and "cl_events s' = cl_events s" and "cl_store s' = cl_store s" and "ws_clock (cl_system s') = ws_clock (cl_system s)"
  shows "instance_ok ids s' x' ph"
proof (rule instance_ok_mono [OF assms(1,4)])
  show "in_touch s' x' at" if "in_touch s x at" for at
  proof -
    have call: "cl_calls s' (ev_TenantID e') = Stamped e' \<or> e' = e" if "cl_calls s (ev_TenantID e') = Stamped e'" for e'
      using that assms(2) unfolding assms(6) by (metis admin_call.inject(2) fun_upd_other)
    have old: "e' \<in> set (in_since x') \<union> set (in_maybe x')" if "e' \<in> set (in_since x) \<union> set (in_maybe x)" for e'
      using that assms(4) unfolding heard_more_def by blast
    have "ev_Timestamp e' < at \<or>
        at < ev_Timestamp e' \<and> (e' \<in> set (in_since x') \<union> set (in_maybe x') \<or> cl_calls s' (ev_TenantID e') = Stamped e')"
      if "e' \<in> set (cl_events s)" for e'
      using \<open>in_touch s x at\<close> that call [of e'] old [of e'] assms(5) unfolding in_touch_def by metis
    with that show ?thesis by (simp add: in_touch_def assms(7,9))
  qed
  show "answer_right s' i banned at" if "answer_right s i banned at" for i banned at
    using that assms(2) by (cases "i = ev_TenantID e") (simp_all add: answer_right_def assms(6-8))
qed (use assms(3,7,9) in simp_all)

section \<open>The invariant\<close>

definition events_ok :: "'r cluster \<Rightarrow> bool" where
  "events_ok s \<longleftrightarrow> inj_on ev_Timestamp (set (cl_events s)) \<and> (\<forall>e \<in> set (cl_events s). ev_Timestamp e < next_time s) \<and>
     set (cl_failed s) \<subseteq> set (cl_events s) \<and>
     (\<forall>a < q_next_addr (ws_queue (cl_system s)). event_at (ws_queue (cl_system s)) a \<in> set (cl_events s)) \<and>
     (\<forall>e. cl_calls s (ev_TenantID e) = Stamped e \<longrightarrow> e \<in> set (cl_events s))"

text \<open>The store has the state of the last event of each tenant, unless a call has just written it.\<close>

definition store_right :: "'r cluster \<Rightarrow> bool" where
  "store_right s \<longleftrightarrow>
     (\<forall>e \<in> set (cl_events s). (\<forall>e' \<in> set (cl_events s). ev_TenantID e' = ev_TenantID e \<longrightarrow> ev_Timestamp e' \<le> ev_Timestamp e) \<and>
        \<not> writing s (ev_TenantID e) \<longrightarrow> map_option tState (ms_view (cl_store s) (ev_TenantID e)) = Some (ev_State e)) \<and>
     (\<forall>i st. cl_calls s i = Written i st \<longrightarrow> map_option tState (ms_view (cl_store s) i) = Some st)"

definition cluster_inv :: "TenantID list \<Rightarrow> 'r cluster \<Rightarrow> bool" where
  "cluster_inv ids s \<longleftrightarrow> ms_inv (cl_store s) \<and> strict_mono (ws_clock (cl_system s)) \<and> events_ok s \<and> store_right s \<and>
     list_all2 (instance_ok ids s) (fl_instances (cl_fleet s)) (cl_loads s)"

lemma list_all2_step:
  assumes "list_all2 P xs zs" and "list_all2 Q xs ys" and "\<And>x y z. P x z \<Longrightarrow> Q x y \<Longrightarrow> R y z"
  shows "list_all2 R ys zs"
  using assms by (fastforce simp: list_all2_conv_all_nth)

lemma cluster_inv_frame:
  assumes inv: "cluster_inv ids s" and same: "cl_events s' = cl_events s" "cl_calls s' = cl_calls s" "cl_store s' = cl_store s" "cl_loads s' = cl_loads s"
    and clock: "strict_mono (ws_clock (cl_system s'))" "next_time s \<le> next_time s'"
    and known: "set (cl_failed s') \<subseteq> set (cl_events s)"
      "\<And>a. a < q_next_addr (ws_queue (cl_system s')) \<Longrightarrow> event_at (ws_queue (cl_system s')) a \<in> set (cl_events s)"
    and heard: "list_all2 (heard_more (set (cl_events s))) (fl_instances (cl_fleet s)) (fl_instances (cl_fleet s'))"
  shows "cluster_inv ids s'"
proof -
  from inv have "list_all2 (instance_ok ids s) (fl_instances (cl_fleet s)) (cl_loads s)" by (simp add: cluster_inv_def)
  from list_all2_step [OF this heard, of "instance_ok ids s'"]
  have "list_all2 (instance_ok ids s') (fl_instances (cl_fleet s')) (cl_loads s')"
    using instance_ok_frame [OF _ _ subset_refl same(1,2) _ clock(2)] same(3,4) by simp
  moreover have "events_ok s'"
    using inv same clock(2) known unfolding cluster_inv_def events_ok_def by (auto intro: less_le_trans)
  ultimately show ?thesis using inv same clock(1) by (simp add: cluster_inv_def store_right_def)
qed

lemma heard_more_refl: "list_all2 (heard_more E) xs xs"
  by (simp add: list_all2_conv_all_nth heard_more_def)

lemma heard_publish:
  "fleet_publish api marshal bus ctx e f = (res, f') \<Longrightarrow>
     list_all2 (\<lambda>x x'. heard_more {e} x x' \<and> e \<in> set (in_since x') \<union> set (in_maybe x')) (fl_instances f) (fl_instances f')"
  by (cases res) (auto simp: fleet_publish_history list_all2_conv_all_nth heard_more_def)

lemma heard_published:
  assumes "fleet_publish api marshal bus ctx e f = (res, f')" and "e \<in> E"
  shows "list_all2 (heard_more E) (fl_instances f) (fl_instances f')"
  using heard_publish [OF assms(1)] assms(2) by (auto simp: heard_more_def elim!: list_all2_mono)

lemma heard_update:
  assumes "k < length xs" and "heard_more E (xs ! k) x'"
  shows "list_all2 (heard_more E) xs (xs[k := x'])"
  using assms by (auto simp: list_all2_conv_all_nth nth_list_update heard_more_def)

lemma heard_move:
  assumes "fleet_move api unmarshal bus f f'" and "map in_loaded (fl_instances f') = map in_loaded (fl_instances f)"
  shows "list_all2 (heard_more E) (fl_instances f) (fl_instances f')"
  using assms
proof (cases rule: fleet_move.cases)
  case (join p r)
  then show ?thesis using assms(2) by (auto dest: arg_cong [of _ _ length])
next
  case (load k x i banned at)
  then have "map in_loaded (fl_instances f') ! k = in_loaded x @ [loaded_answer i banned at]" by simp
  with assms(2) load show ?thesis by simp
qed (auto intro!: heard_update heard_more_refl simp: heard_more_def)

text \<open>Time goes on, and the queue holds events that were stamped.\<close>

lemma apply_results_clock: "\<exists>k. snd (apply_results rs (q, c)) = (\<lambda>n. c (n + k))"
proof (induction rs arbitrary: q c)
  case (Cons r rs)
  obtain pe err where r: "r = (pe, err)" by fastforce
  obtain q1 c1 where one: "apply_result pe err (q, c) = (q1, c1)" by fastforce
  with apply_result_clock [of pe err q c] obtain k where k: "c1 = (\<lambda>n. c (n + k))" by auto
  from Cons [of q1 c1] obtain j where "snd (apply_results rs (q1, c1)) = (\<lambda>n. c1 (n + j))" by blast
  with k one r show ?case by (intro exI [of _ "j + k"]) (simp add: add.assoc)
qed (simp add: exI [of _ 0])

lemma worker_clock:
  assumes "worker_step pub w w'" and "queue_inv (ws_queue w)"
  shows "\<exists>k. ws_clock w' = (\<lambda>n. ws_clock w (n + k))"
  using assms(1)
proof (cases rule: worker_step.cases)
  case (enqueue e q c)
  obtain q'' where "PublishRetryQueue_Enqueue e (ws_queue w, ws_clock w) = Inr (q'', \<lambda>n. ws_clock w (Suc n))"
    by (rule Enqueue_cases [OF assms(2), of e "ws_clock w"]) blast
  with enqueue show ?thesis by (intro exI [of _ 1]) simp
next
  case (tick now c)
  then show ?thesis by (intro exI [of _ 1]) (auto simp: time_Now_def)
next
  case (finish rs q c)
  with apply_results_clock [of rs "ws_queue w" "ws_clock w"] show ?thesis by simp
next
  case stop
  then show ?thesis by (intro exI [of _ 0]) (auto simp: PublishRetryQueue_Stop_def split: if_splits)
qed (auto simp: PublishRetryQueue_Start_def intro: exI [of _ 0])

lemma shifted_clock:
  assumes "strict_mono (c :: Clock)" and "\<exists>k. c' = (\<lambda>n. c (n + k))"
  shows "strict_mono c'" and "c 0 \<le> c' 0"
  using assms by (auto simp: strict_mono_def strict_mono_less_eq)

lemma worker_events:
  assumes step: "worker_step (fleet_publish api marshal bus ctx) w w'" and "ws_worker w' \<noteq> ws_worker w" and inv: "worker_inv w"
    and known: "\<And>a. a < q_next_addr (ws_queue w) \<Longrightarrow> event_at (ws_queue w) a \<in> E"
  shows "a < q_next_addr (ws_queue w') \<Longrightarrow> event_at (ws_queue w') a \<in> E"
    and "list_all2 (heard_more E) (fl_instances (ws_bus w)) (fl_instances (ws_bus w'))"
proof -
  have "(a < q_next_addr (ws_queue w') \<longrightarrow> event_at (ws_queue w') a \<in> E) \<and>
      list_all2 (heard_more E) (fl_instances (ws_bus w)) (fl_instances (ws_bus w'))"
    using step assms(2)
  proof (cases rule: worker_step.cases)
    case (publish_one rs pe todo err b)
    have "pe < q_next_addr (ws_queue w)"
      using batch_todo_low [of w pe] inv publish_one(2) by (simp add: worker_inv_def)
    from heard_published [OF publish_one(3)] known [OF this] known publish_one(1) show ?thesis by (simp add: event_at_def)
  next
    case (finish rs q c)
    then have "q = fst (apply_results rs (ws_queue w, ws_clock w))" by simp
    with known finish(1) show ?thesis by (simp add: apply_results_frame event_at_def apply_results_event heard_more_refl)
  qed (use known in \<open>auto simp: heard_more_refl PublishRetryQueue_Start_def PublishRetryQueue_Stop_def split: if_splits\<close>)
  then show "a < q_next_addr (ws_queue w') \<Longrightarrow> event_at (ws_queue w') a \<in> E"
    and "list_all2 (heard_more E) (fl_instances (ws_bus w)) (fl_instances (ws_bus w'))" by simp_all
qed

section \<open>Every step keeps it\<close>

lemma cluster_invD:
  assumes "cluster_inv ids s"
  shows "ms_inv (cl_store s)" and "strict_mono (ws_clock (cl_system s))" and "events_ok s" and "store_right s"
    and "list_all2 (instance_ok ids s) (fl_instances (cl_fleet s)) (cl_loads s)"
    and "a < q_next_addr (ws_queue (cl_system s)) \<Longrightarrow> event_at (ws_queue (cl_system s)) a \<in> set (cl_events s)"
    and "set (cl_failed s) \<subseteq> set (cl_events s)"
  using assms by (simp_all add: cluster_inv_def events_ok_def)

lemma cluster_inv_set_state:
  assumes inv: "cluster_inv ids s" and "cl_calls s i = Idle" and set: "MemoryStore_SetState ctx i st (cl_store s) = (Inr u, m)"
  shows "cluster_inv ids (s\<lparr>cl_store := m, cl_calls := (cl_calls s)(i := Written i st)\<rparr>)" (is "cluster_inv ids ?s")
proof -
  from ms_setState_correct [OF cluster_invD(1) [OF inv] set] obtain t where m: "ms_inv m"
    and view: "ms_view m = (ms_view (cl_store s))(i \<mapsto> t\<lparr>tState := st\<rparr>)" by (auto split: option.splits)
  have "list_all2 (instance_ok ids ?s) (fl_instances (cl_fleet s)) (cl_loads s)"
    using cluster_invD(5) [OF inv] by (rule list_all2_mono) (simp add: instance_ok_set_state assms(2) view)
  moreover have "store_right ?s" using cluster_invD(4) [OF inv] assms(2) by (auto simp: store_right_def view)
  moreover have "events_ok ?s" using cluster_invD(3) [OF inv] by (simp add: events_ok_def)
  ultimately show ?thesis using m cluster_invD(2) [OF inv] by (simp add: cluster_inv_def)
qed

lemma cluster_inv_stamp:
  assumes inv: "cluster_inv ids s" and call: "cl_calls s i = Written i st" and now: "time_Now (ws_clock (cl_system s)) = (now, c)"
  defines "e \<equiv> \<lparr>ev_TenantID = i, ev_State = st, ev_Timestamp = now\<rparr>"
  shows "cluster_inv ids (s\<lparr>cl_calls := (cl_calls s)(i := Stamped e), cl_system := (cl_system s)\<lparr>ws_clock := c\<rparr>, cl_events := cl_events s @ [e]\<rparr>)"
    (is "cluster_inv ids ?s")
proof -
  note tick = clock_tick [OF cluster_invD(2) [OF inv] now]
  have times: "\<forall>e' \<in> set (cl_events s). ev_Timestamp e' < now" using cluster_invD(3) [OF inv] tick(1) by (simp add: events_ok_def)
  have "list_all2 (instance_ok ids ?s) (fl_instances (cl_fleet s)) (cl_loads s)"
    using cluster_invD(5) [OF inv] unfolding e_def
    by (rule list_all2_mono) (rule instance_ok_stamp [OF _ call now cluster_invD(2) [OF inv]])
  moreover have "events_ok ?s"
    using cluster_invD(3) [OF inv] tick(3,4) times unfolding events_ok_def by (auto simp: e_def)
  moreover have "store_right ?s"
  proof -
    have "map_option tState (ms_view (cl_store s) i) = Some st" using cluster_invD(4) [OF inv] call by (simp add: store_right_def)
    moreover have "map_option tState (ms_view (cl_store s) (ev_TenantID e1)) = Some (ev_State e1)"
      if "e1 \<in> set (cl_events s)" "ev_TenantID e1 \<noteq> i" "\<not> writing s (ev_TenantID e1)" "\<forall>e' \<in> set (cl_events s). ev_TenantID e' = ev_TenantID e1 \<longrightarrow> ev_Timestamp e' \<le> ev_Timestamp e1" for e1
      using cluster_invD(4) [OF inv] that by (simp add: store_right_def)
    moreover have "map_option tState (ms_view (cl_store s) j) = Some st'" if "cl_calls s j = Written j st'" for j st'
      using cluster_invD(4) [OF inv] that by (simp add: store_right_def)
    ultimately show ?thesis using times by (fastforce simp: store_right_def e_def)
  qed
  ultimately show ?thesis using cluster_invD(1) [OF inv] tick(2) by (simp add: cluster_inv_def)
qed

lemma cluster_inv_publish:
  assumes inv: "cluster_inv ids s" and call: "cl_calls s (ev_TenantID e) = Stamped e" and run: "fleet_publish api marshal bus ctx e (cl_fleet s) = (res, f)"
  shows "cluster_inv ids (s\<lparr>cl_calls := (cl_calls s)(ev_TenantID e := Idle), cl_system := (cl_system s)\<lparr>ws_bus := f\<rparr>,
    cl_failed := cl_failed s @ (case res of Inl err \<Rightarrow> [e] | Inr u \<Rightarrow> [])\<rparr>)" (is "cluster_inv ids ?s")
proof -
  have e: "e \<in> set (cl_events s)" using cluster_invD(3) [OF inv] call by (simp add: events_ok_def)
  have "list_all2 (instance_ok ids ?s) (fl_instances f) (cl_loads s)"
    by (rule list_all2_step [OF cluster_invD(5) [OF inv] heard_publish [OF run]]) (auto intro: instance_ok_publish [OF _ call e])
  moreover have "events_ok ?s" using cluster_invD(3) [OF inv] e by (auto simp: events_ok_def split: sum.split)
  moreover have "store_right ?s" using cluster_invD(4) [OF inv] call by (auto simp: store_right_def)
  ultimately show ?thesis using cluster_invD(1,2) [OF inv] by (simp add: cluster_inv_def)
qed

text \<open>One instance goes on with its loading.\<close>

lemma instance_ok_loads: "instance_ok ids (s\<lparr>cl_loads := l, cl_system := (cl_system s)\<lparr>ws_bus := f\<rparr>\<rparr>) x ph = instance_ok ids s x ph"
  by (rule iffI; erule instance_ok_frame [where E = "{}"]) (simp_all add: heard_more_def)

lemma cluster_inv_instance:
  assumes inv: "cluster_inv ids s" and k: "k < length (cl_loads s)" and ok: "instance_ok ids s x' ph"
  shows "cluster_inv ids (s\<lparr>cl_loads := (cl_loads s)[k := ph],
    cl_system := (cl_system s)\<lparr>ws_bus := (cl_fleet s)\<lparr>fl_instances := (fl_instances (cl_fleet s))[k := x']\<rparr>\<rparr>\<rparr>)"
    (is "cluster_inv ids ?s")
proof -
  have "list_all2 (instance_ok ids ?s) (fl_instances (cl_fleet ?s)) (cl_loads ?s)"
    using list_all2_update_cong [OF cluster_invD(5) [OF inv] ok, of k] unfolding instance_ok_loads by simp
  moreover have "events_ok ?s" using cluster_invD(3) [OF inv] by (simp add: events_ok_def)
  moreover have "store_right ?s" using cluster_invD(4) [OF inv] by (simp add: store_right_def)
  ultimately show ?thesis using cluster_invD(1,2) [OF inv] by (simp add: cluster_inv_def)
qed

lemma cluster_inv_phase:
  assumes inv: "cluster_inv ids s" and k: "at_load s k ph"
    and ok: "\<And>x. instance_ok ids s x ph \<Longrightarrow> load_ok ids s x ph'"
  shows "cluster_inv ids (s\<lparr>cl_loads := (cl_loads s)[k := ph']\<rparr>)"
proof -
  let ?x = "fl_instances (cl_fleet s) ! k"
  have "instance_ok ids s ?x ph" using list_all2_nthD2 [OF cluster_invD(5) [OF inv]] k by blast
  with ok have "instance_ok ids s ?x ph'" by (auto simp: instance_ok_def)
  from cluster_inv_instance [OF inv _ this, of k] k show ?thesis by simp
qed

lemma cluster_inv_clock:
  assumes "cluster_inv ids s" and "time_Now (ws_clock (cl_system s)) = (now, c)"
  shows "cluster_inv ids (s\<lparr>cl_system := (cl_system s)\<lparr>ws_clock := c\<rparr>\<rparr>)"
  using clock_tick [OF cluster_invD(2) [OF assms(1)] assms(2)] cluster_invD(6,7) [OF assms(1)]
  by (intro cluster_inv_frame [OF assms(1)]) (simp_all add: heard_more_refl)

lemma cluster_inv_load:
  assumes inv: "cluster_inv ids s" and k: "at_load s k Subscribed" and now: "time_Now (ws_clock (cl_system s)) = (at, c)"
  shows "cluster_inv ids (s\<lparr>cl_system := (cl_system s)\<lparr>ws_clock := c\<rparr>, cl_loads := (cl_loads s)[k := Loading at ids]\<rparr>)"
proof -
  let ?s = "s\<lparr>cl_system := (cl_system s)\<lparr>ws_clock := c\<rparr>\<rparr>"
  note tick = clock_tick [OF cluster_invD(2) [OF inv] now]
  have "load_ok ids ?s x (Loading at ids)" if "instance_ok ids ?s x Subscribed" for x
    using that cluster_invD(3) [OF inv] tick(1,3)
    by (auto simp: instance_ok_def in_touch_def loaded_before_def events_ok_def)
  from cluster_inv_phase [OF cluster_inv_clock [OF inv now] _ this, of k] k show ?thesis by simp
qed

lemma cluster_inv_ask:
  assumes inv: "cluster_inv ids s" and k: "at_load s k (Loading at (i # is))"
    and ask: "MemoryStore_IsBanned ctx i (cl_store s) = (x, m)"
  shows "cluster_inv ids (s\<lparr>cl_store := m, cl_loads := (cl_loads s)
    [k := (case x of Inl err \<Rightarrow> LoadReturned (Inl err) | Inr banned \<Rightarrow> Applying at i banned is)]\<rparr>)"
proof -
  from ask have m: "m = cl_store s" by (auto simp: MemoryStore_IsBanned_def split: option.splits)
  have "answer_right s i banned at" if "x = Inr banned" for banned
    using ask that by (auto simp: MemoryStore_IsBanned_def answer_right_def ms_view_def deref_def struct_value_def split: option.splits)
  then have "load_ok ids s y (case x of Inl err \<Rightarrow> LoadReturned (Inl err) | Inr banned \<Rightarrow> Applying at i banned is)"
    if "instance_ok ids s y (Loading at (i # is))" for y
    using that by (cases x) (simp_all add: instance_ok_def)
  from cluster_inv_phase [OF inv k this] show ?thesis by (simp add: m)
qed

lemma cluster_inv_apply_answer:
  assumes inv: "cluster_inv ids s" and k: "at_load s k (Applying at i banned is)" and x: "at_instance (cl_fleet s) k x"
    and x': "x' = x\<lparr>in_checks := begin_apply i banned at (in_checks x), in_loaded := in_loaded x @ [loaded_answer i banned at]\<rparr>"
  shows "cluster_inv ids (s\<lparr>cl_loads := (cl_loads s)[k := InApply at (length (ck_threads (in_checks x))) is],
    cl_system := (cl_system s)\<lparr>ws_bus := (cl_fleet s)\<lparr>fl_instances := (fl_instances (cl_fleet s))[k := x']\<rparr>\<rparr>\<rparr>)"
proof -
  have "instance_ok ids s x (Applying at i banned is)" using list_all2_nthD2 [OF cluster_invD(5) [OF inv], of k] k x by simp
  moreover have "in_touch s x' at \<longleftrightarrow> in_touch s x at" by (simp add: x' in_touch_def)
  moreover have "loaded_before ids x' at is" if "loaded_before ids x at (i # is)" using that by (simp add: x' loaded_before_def)
  moreover have "at < next_time s" if "in_touch s x at" using that by (simp add: in_touch_def)
  ultimately have "instance_ok ids s x' (InApply at (length (ck_threads (in_checks x))) is)" unfolding instance_ok_def by (simp add: x')
  with k show ?thesis by (intro cluster_inv_instance [OF inv]) simp
qed

lemma cluster_inv_join:
  assumes inv: "cluster_inv ids s"
  shows "cluster_inv ids (s\<lparr>cl_loads := cl_loads s @ [Subscribed],
    cl_system := (cl_system s)\<lparr>ws_bus := \<lparr>fl_broker = r, fl_instances = fl_instances (cl_fleet s) @ [new_instance p]\<rparr>\<rparr>\<rparr>)"
    (is "cluster_inv ids ?s")
proof -
  have "instance_ok ids s (new_instance p) Subscribed" by (simp add: instance_ok_def new_instance_def)
  then have "list_all2 (instance_ok ids ?s) (fl_instances (cl_fleet s) @ [new_instance p]) (cl_loads s @ [Subscribed])"
    using cluster_invD(5) [OF inv] unfolding instance_ok_loads by (simp add: list_all2_appendI)
  moreover have "events_ok ?s" using cluster_invD(3) [OF inv] by (simp add: events_ok_def)
  moreover have "store_right ?s" using cluster_invD(4) [OF inv] by (simp add: store_right_def)
  ultimately show ?thesis using cluster_invD(1,2) [OF inv] by (simp add: cluster_inv_def)
qed

lemma cluster_inv_enqueue:
  assumes inv: "cluster_inv ids s" and "worker_inv (cl_system s)" and k: "k < length (cl_failed s)"
    and run: "PublishRetryQueue_Enqueue (cl_failed s ! k) (ws_queue (cl_system s), ws_clock (cl_system s)) = Inr (q, c)"
  shows "cluster_inv ids (s\<lparr>cl_system := (cl_system s)\<lparr>ws_queue := q, ws_clock := c\<rparr>, cl_failed := delete_at k (cl_failed s)\<rparr>)"
proof -
  let ?q = "ws_queue (cl_system s)" and ?c = "ws_clock (cl_system s)"
  have qi: "queue_inv ?q" using assms(2) by (simp add: worker_inv_def)
  obtain q'' where "PublishRetryQueue_Enqueue (cl_failed s ! k) (?q, ?c) = Inr (q'', \<lambda>n. ?c (Suc n))"
    and nxt: "q_next_addr q'' = Suc (q_next_addr ?q)" by (rule Enqueue_cases [OF qi, of "cl_failed s ! k" ?c]) blast
  with run have q: "q = q''" and c: "c = (\<lambda>n. ?c (n + 1))" by simp_all
  have failed: "set (delete_at k (cl_failed s)) \<subseteq> set (cl_events s)" "cl_failed s ! k \<in> set (cl_events s)"
    using set_delete_at [OF k] cluster_invD(7) [OF inv] by auto
  have "event_at q a \<in> set (cl_events s)" if "a < q_next_addr q" for a
    using that Enqueue_keeps(3) [OF qi run, of a] Enqueue_keeps(4) [OF qi run] failed(2) cluster_invD(6) [OF inv, of a]
    by (cases "a = q_next_addr ?q") (auto simp: q nxt)
  moreover have "strict_mono c" "next_time s \<le> c 0" using shifted_clock [OF cluster_invD(2) [OF inv], of c] c by blast+
  ultimately show ?thesis using failed(1) by (intro cluster_inv_frame [OF inv]) (simp_all add: heard_more_refl)
qed

lemma cluster_inv_worker:
  assumes inv: "cluster_inv ids s" and winv: "worker_inv (cl_system s)"
    and step: "worker_step (fleet_publish api marshal bus ctx) (cl_system s) w"
    and kind: "ws_worker w \<noteq> ws_worker (cl_system s) \<or> ws_queue w = ws_queue (cl_system s) \<and> ws_bus w = cl_fleet s"
  shows "cluster_inv ids (s\<lparr>cl_system := w\<rparr>)"
proof -
  have "queue_inv (ws_queue (cl_system s))" using winv by (simp add: worker_inv_def)
  note clock = shifted_clock [OF cluster_invD(2) [OF inv] worker_clock [OF step this]]
  from kind show ?thesis
  proof
    assume moved: "ws_worker w \<noteq> ws_worker (cl_system s)"
    note events = worker_events [OF step moved winv cluster_invD(6) [OF inv]]
    show ?thesis by (intro cluster_inv_frame [OF inv]) (use clock events cluster_invD(7) [OF inv] in simp_all)
  qed (use clock cluster_invD(6,7) [OF inv] in \<open>auto intro!: cluster_inv_frame [OF inv] simp: heard_more_refl\<close>)
qed

lemma cluster_inv_step:
  assumes "cluster_step api marshal unmarshal bus ids s s'" and inv: "cluster_inv ids s" and winv: "worker_inv (cl_system s)"
  shows "cluster_inv ids s'"
  using assms(1)
proof (cases rule: cluster_step.cases)
  case (set_state ctx i st u m)
  with cluster_inv_set_state [OF inv] show ?thesis by blast
next
  case (stamp i st now c e)
  with cluster_inv_stamp [OF inv] show ?thesis by blast
next
  case (publish e ctx res f)
  with cluster_inv_publish [OF inv] show ?thesis by blast
next
  case (enqueue k q c)
  with cluster_inv_enqueue [OF inv winv] show ?thesis by blast
next
  case (instances f)
  from heard_move [OF instances(2,3)] cluster_invD [OF inv] instances(1) show ?thesis
    by (auto intro!: cluster_inv_frame [OF inv])
next
  case (load k at c)
  with cluster_inv_load [OF inv] show ?thesis by blast
next
  case (ask k at i "is" ctx banned m)
  from cluster_inv_ask [OF inv ask(2,3)] ask(1) show ?thesis by simp
next
  case (ask_error k at i "is" ctx err m)
  from cluster_inv_ask [OF inv ask_error(2,3)] ask_error(1) show ?thesis by simp
next
  case (apply_answer k at i banned "is" x x')
  with cluster_inv_apply_answer [OF inv] show ?thesis by blast
next
  case (apply_returns k at j "is" x)
  from cluster_inv_phase [OF inv apply_returns(2), of "Loading at is"] apply_returns(1) show ?thesis
    by (auto simp: instance_ok_def)
next
  case (finish k at)
  from cluster_inv_phase [OF inv finish(2), of "LoadReturned (Inr ())"] finish(1) show ?thesis
    by (auto simp: instance_ok_def)
qed (use cluster_inv_worker [OF inv winv] cluster_inv_join [OF inv] in blast)+

lemma cluster_reachable:
  assumes "(cluster_step api marshal unmarshal bus ids)\<^sup>*\<^sup>* (cluster_begin m q c r) s"
    and "ms_inv m" and "strict_mono c" and "fresh_queue q"
  shows "cluster_inv ids s"
    and "(delivery_step api marshal unmarshal bus)\<^sup>*\<^sup>* (delivery_begin q c r) (cl_system s, cl_failed s)"
proof -
  have run: "(delivery_step api marshal unmarshal bus)\<^sup>*\<^sup>* (delivery_begin q c r) (cl_system s, cl_failed s)"
    if "(cluster_step api marshal unmarshal bus ids)\<^sup>*\<^sup>* (cluster_begin m q c r) s" for s
    using delivery_of_steps [OF that] by (simp add: cluster_begin_def delivery_begin_def)
  show "cluster_inv ids s"
    using assms(1)
  proof (induction rule: rtranclp_induct)
    case base
    show ?case using assms(2-4)
      by (simp add: cluster_inv_def cluster_begin_def events_ok_def store_right_def start_system_def no_instances_def fresh_queue_def)
  next
    case (step s s')
    have "worker_inv (cl_system s)" using delivery_reachable [OF run [OF step(1)] assms(4)] by simp
    from cluster_inv_step [OF step(2,3) this] show ?case .
  qed
  show "(delivery_step api marshal unmarshal bus)\<^sup>*\<^sup>* (delivery_begin q c r) (cl_system s, cl_failed s)"
    by (rule run [OF assms(1)])
qed

section \<open>Instances agree with the store\<close>

lemma no_conflictD:
  assumes "no_conflict es" and "e \<in> set es" and "e' \<in> set es" and "ev_TenantID e = ev_TenantID e'" and "ev_Timestamp e = ev_Timestamp e'"
  shows "ev_State e = Banned \<longleftrightarrow> ev_State e' = Banned"
  using assms unfolding no_conflict_def by metis

text \<open>What an instance has been told once its loading has returned and no call is under way.\<close>

lemma told_no_conflict:
  assumes ok: "instance_ok ids s x (LoadReturned (Inr u))" and "events_ok s" and "distinct ids"
  shows "no_conflict (in_since x @ in_loaded x)"
proof -
  from ok obtain at where touch: "in_touch s x at" and loaded: "loaded_before ids x at []"
    and since: "set (in_since x) \<subseteq> set (cl_events s)" by (auto simp: instance_ok_def)
  have inj: "e = e'" if "e \<in> set (in_since x)" "e' \<in> set (in_since x)" "ev_Timestamp e = ev_Timestamp e'" for e e'
    using assms(2) inj_onD [of ev_Timestamp "set (cl_events s)" e e'] since that by (auto simp: events_ok_def)
  have other: "ev_Timestamp e \<noteq> ev_Timestamp a" if "e \<in> set (in_since x)" "a \<in> set (in_loaded x)" for e a
  proof -
    have "ev_Timestamp a = at" using loaded that(2) by (simp add: loaded_before_def)
    moreover have "ev_Timestamp e \<noteq> at" using touch since that(1) by (force simp: in_touch_def)
    ultimately show ?thesis by simp
  qed
  have "distinct (map ev_TenantID (in_loaded x))" using loaded assms(3) by (simp add: loaded_before_def)
  then have same: "a = a'" if "a \<in> set (in_loaded x)" "a' \<in> set (in_loaded x)" "ev_TenantID a = ev_TenantID a'" for a a'
    using that by (auto simp: distinct_map inj_on_def)
  show ?thesis unfolding no_conflict_def set_append using inj other same by (metis UnE)
qed

lemma last_event:
  assumes "finite E" and "E \<noteq> {}"
  shows "\<exists>e \<in> E. \<forall>e' \<in> E. ev_Timestamp e' \<le> ev_Timestamp e"
  using Max_in [of "ev_Timestamp ` E"] Max_ge [of "ev_Timestamp ` E"] assms by fastforce

lemma told_newest:
  assumes ok: "instance_ok ids s x (LoadReturned (Inr u))" and "events_ok s" and "store_right s" and "cl_calls s i = Idle"
    and sub: "set (in_maybe x) \<subseteq> set (in_since x)" and i: "i \<in> set ids"
  shows "\<exists>e \<in> set (in_since x) \<union> set (in_loaded x). ev_TenantID e = i \<and>
    (\<forall>e' \<in> set (in_since x) \<union> set (in_loaded x). ev_TenantID e' = i \<longrightarrow> ev_Timestamp e' \<le> ev_Timestamp e) \<and>
    (\<exists>t. ms_view (cl_store s) i = Some t \<and> (tState t = Banned \<longleftrightarrow> ev_State e = Banned))"
proof -
  let ?E = "{e \<in> set (cl_events s). ev_TenantID e = i}"
  from ok obtain at where touch: "in_touch s x at" and loaded: "loaded_before ids x at []"
    and since: "set (in_since x) \<subseteq> set (cl_events s)" by (auto simp: instance_ok_def)
  from loaded i obtain a where a: "a \<in> set (in_loaded x)" "ev_TenantID a = i" "ev_Timestamp a = at"
    by (auto simp: loaded_before_def)
  have at: "ev_Timestamp e = at" if "e \<in> set (in_loaded x)" for e using loaded that by (simp add: loaded_before_def)
  show ?thesis
  proof (cases "\<exists>e \<in> ?E. at < ev_Timestamp e")
    case False
    then have old: "\<forall>e \<in> ?E. ev_Timestamp e < at" using touch by (auto simp: in_touch_def)
    have "answer_right s i (ev_State a = Banned) at" using ok a by (auto simp: instance_ok_def)
    with old assms(4) have "\<exists>t. ms_view (cl_store s) i = Some t \<and> (tState t = Banned \<longleftrightarrow> ev_State a = Banned)"
      by (simp add: answer_right_def)
    moreover have "\<forall>e' \<in> set (in_since x) \<union> set (in_loaded x). ev_TenantID e' = i \<longrightarrow> ev_Timestamp e' \<le> at"
      using old since at by (fastforce intro: less_imp_le)
    ultimately show ?thesis using a by (intro bexI [of _ a]) simp_all
  next
    case True
    with last_event [of ?E] obtain e where e: "e \<in> ?E" "\<forall>e' \<in> ?E. ev_Timestamp e' \<le> ev_Timestamp e" "at < ev_Timestamp e"
      by (auto dest: less_le_trans)
    have "e \<in> set (in_since x)" using touch e(1,3) assms(4) sub by (fastforce simp: in_touch_def)
    moreover have "map_option tState (ms_view (cl_store s) i) = Some (ev_State e)"
      using assms(3,4) e(1,2) by (fastforce simp: store_right_def)
    moreover have "\<forall>e' \<in> set (in_since x) \<union> set (in_loaded x). ev_TenantID e' = i \<longrightarrow> ev_Timestamp e' \<le> ev_Timestamp e"
      using e(2,3) since at by (fastforce intro: less_imp_le)
    ultimately show ?thesis using e(1) by (intro bexI [of _ e]) auto
  qed
qed

text \<open>
  C4. Every instance knows who is banned. For the bus over Redis and over NATS, which deliver at most
  once, an administration service that writes, stamps and publishes for any number of callers at
  the same time, one at a time for the same tenant, with publications that fail, some after having
  reached some of the instances, and a retry queue that repeats them in any interleaving;
  instances that subscribe at any time, before, during or after bans, and then load the state of
  the listed tenants from the store while calls, deliveries and the worker go on; handlers and
  loading overlap in any way, the \<^verbatim>\<open>Load\<close> and the \<^verbatim>\<open>Store\<close> of every \<^verbatim>\<open>apply\<close> being separate steps.
  Consider a listed tenant for which no call is under way, when no failed event waits for the
  queue and the queue is empty with no critical line in its log. An instance that has loaded its
  list, to which no message was lost and that has nothing left to receive and to run, reports the
  tenant as banned exactly if the store has it as banned, provided no call of \<^verbatim>\<open>apply\<close> of that
  instance for that tenant stored over an entry that another one had written since its own \<^verbatim>\<open>Load\<close>.
  All processes are assumed to read one clock, no two readings of which are equal, and the list
  to have no tenant twice.
\<close>

theorem fleet_agrees_with_store:
  assumes "broker_documented api (bus_channel bus) inbox dropped" and "ms_inv m" and "strict_mono c" and "fresh_queue q" and "distinct ids"
    and "(cluster_step api marshal unmarshal bus ids)\<^sup>*\<^sup>* (cluster_begin m q c r) s"
    and "cl_calls s i = Idle" and "cl_failed s = []" and "q_pending (ws_queue (cl_system s)) = []" and "q_log (ws_queue (cl_system s)) = []"
    and "at_load s k (LoadReturned (Inr ()))" and "at_instance (cl_fleet s) k x"
    and "at_rest inbox dropped (fl_broker (cl_fleet s)) x" and "i \<notin> ck_raced (in_checks x)"
    and "json_documented marshal unmarshal (cl_events s)" and "i \<in> set ids"
  shows "BanChecker_IsBanned (in_checker x) i \<longleftrightarrow> (\<exists>t. ms_view (cl_store s) i = Some t \<and> tState t = Banned)"
proof -
  note reach = cluster_reachable [OF assms(6,2-4)]
  have x: "x \<in> set (fl_instances (cl_fleet s))" using assms(12) by (metis nth_mem)
  have ok: "instance_ok ids s x (LoadReturned (Inr ()))"
    using list_all2_nthD2 [OF cluster_invD(5) [OF reach(1)], of k] assms(11,12) by simp
  note sub = attempted_since [OF assms(4) reach(2) [unfolded assms(8)] assms(9,10) x]
  from delivery_reachable [OF reach(2) assms(4)]
  have run: "(fleet_step api marshal unmarshal bus)\<^sup>*\<^sup>* (no_instances r) (cl_fleet s)" by simp
  have json: "json_documented marshal unmarshal (in_since x)"
    using assms(15) ok by (auto simp: json_documented_def instance_ok_def)
  note conflict = told_no_conflict [OF ok cluster_invD(3) [OF reach(1)] assms(5)]
  note known = instances_agree [OF assms(1) run x assms(13,14) json sub conflict]
  from told_newest [OF ok cluster_invD(3,4) [OF reach(1)] assms(7) sub assms(16)] obtain e t where
    e: "e \<in> set (in_since x) \<union> set (in_loaded x)" "ev_TenantID e = i"
      "\<forall>e' \<in> set (in_since x) \<union> set (in_loaded x). ev_TenantID e' = i \<longrightarrow> ev_Timestamp e' \<le> ev_Timestamp e"
    and t: "ms_view (cl_store s) i = Some t" "tState t = Banned \<longleftrightarrow> ev_State e = Banned" by blast
  have "ev_State e = Banned" if "BanChecker_IsBanned (in_checker x) i"
  proof -
    from that [unfolded known] obtain e' where e': "e' \<in> set (in_since x) \<union> set (in_loaded x)" "ev_TenantID e' = i" "ev_State e' = Banned"
      "ev_Timestamp e \<le> ev_Timestamp e'" using e(1,2) by blast
    with e(3) have "ev_Timestamp e' = ev_Timestamp e" by (simp add: order_antisym)
    with no_conflictD [OF conflict, of e' e] e' e(1,2) show ?thesis by simp
  qed
  moreover have "BanChecker_IsBanned (in_checker x) i" if "ev_State e = Banned"
    unfolding known using e that by blast
  ultimately show ?thesis using t by auto
qed

section \<open>A ban while an instance starts\<close>

text \<open>
  The instance subscribes, the service writes and stamps a ban, the instance takes its snapshot and
  asks the store, the event is published and received, and then the answer and the event are merged.
\<close>

definition demo_cluster :: "mem_state \<Rightarrow> admin_call \<Rightarrow> nat \<Rightarrow> string list list \<Rightarrow> server_instance list \<Rightarrow> startup list \<Rightarrow>
    TenantEvent list \<Rightarrow> demo_state cluster" where
  "demo_cluster m call n boxes xs loads es = \<lparr>cl_store = m, cl_calls = (\<lambda>_. Idle)(''acme'' := call),
     cl_system = Broker_Delivery.demo_system NewPublishRetryQueue n NotStarted [] boxes xs, cl_failed = [], cl_loads = loads, cl_events = es\<rparr>"

definition demo_banned_store :: mem_state where
  "demo_banned_store = snd (MemoryStore_SetState Background ''acme'' Banned demo_store)"

abbreviation demo_cluster_step where
  "demo_cluster_step \<equiv>
     cluster_step demo_broker demo_marshal demo_unmarshal (OverRedis (RedisEventBus_New ''events'')) [''acme'']"

lemma demo_banned:
  "MemoryStore_SetState Background ''acme'' Banned demo_store = (Inr (), demo_banned_store)"
  "MemoryStore_IsBanned Background ''acme'' demo_banned_store = (Inr True, demo_banned_store)"
  "\<exists>t. ms_view demo_banned_store ''acme'' = Some t \<and> tState t = Banned"
  by (simp_all add: demo_banned_store_def MemoryStore_SetState_def MemoryStore_IsBanned_def ms_view_def deref_def struct_value_def
      demo_store_def heap_simps)

lemmas cluster_demo = demo_cluster_def Broker_Delivery.demo_system_def delivery_demo cluster_begin_def start_system_def time_Now_def

lemma demo_started:
  "demo_cluster_step\<^sup>*\<^sup>* (cluster_begin demo_store NewPublishRetryQueue (\<lambda>k. Time (int (1 + k))) (False, []))
     (demo_cluster demo_banned_store (Stamped demo_ban) 3 [[]] [new_instance 0] [Applying (Time 2) ''acme'' True []] [demo_ban])"
proof -
  let ?s0 = "demo_cluster demo_store Idle 1 [] [] [] []"
  let ?s1 = "demo_cluster demo_store Idle 1 [[]] [new_instance 0] [Subscribed] []"
  let ?s2 = "demo_cluster demo_banned_store (Written ''acme'' Banned) 1 [[]] [new_instance 0] [Subscribed] []"
  let ?s3 = "demo_cluster demo_banned_store (Stamped demo_ban) 2 [[]] [new_instance 0] [Subscribed] [demo_ban]"
  let ?s4 = "demo_cluster demo_banned_store (Stamped demo_ban) 3 [[]] [new_instance 0] [Loading (Time 2) [''acme'']] [demo_ban]"
  let ?s5 = "demo_cluster demo_banned_store (Stamped demo_ban) 3 [[]] [new_instance 0] [Applying (Time 2) ''acme'' True []] [demo_ban]"
  have "demo_cluster_step ?s0 ?s1"
    using cluster_step.join [of demo_broker "OverRedis (RedisEventBus_New ''events'')" ?s0 0 "(False, [([], False)])"] by (simp add: cluster_demo)
  moreover have "demo_cluster_step ?s1 ?s2"
    using cluster_step.set_state [of ?s1 "''acme''" Background Banned "()"] demo_banned(1) by (simp add: cluster_demo)
  moreover have "demo_cluster_step ?s2 ?s3"
    using cluster_step.stamp [of ?s2 "''acme''" Banned "Time 1" "\<lambda>k. Time (int (2 + k))" demo_ban] by (simp add: cluster_demo)
  moreover have "demo_cluster_step ?s3 ?s4"
    using cluster_step.load [of 0 ?s3 "Time 2" "\<lambda>k. Time (int (3 + k))"] by (simp add: cluster_demo)
  moreover have "demo_cluster_step ?s4 ?s5"
    using cluster_step.ask [of 0 ?s4 "Time 2" "''acme''" "[]" Background True] demo_banned(2) by (simp add: cluster_demo)
  ultimately have "demo_cluster_step\<^sup>*\<^sup>* ?s0 ?s5" by (simp add: converse_rtranclp_into_rtranclp)
  moreover have "cluster_begin demo_store NewPublishRetryQueue (\<lambda>k. Time (int (1 + k))) (False, []) = ?s0"
    by (simp add: cluster_demo fun_eq_iff)
  ultimately show ?thesis by (simp only:)
qed

text \<open>The loading has loaded the entry when the handler of the event starts, and stores before its \<^verbatim>\<open>Load\<close>.\<close>

definition demo_calls :: "(TenantID \<rightharpoonup> banEntry) \<Rightarrow> apply_thread list \<Rightarrow> server_instance" where
  "demo_calls entries ths = (new_instance 0)\<lparr>in_since := [demo_ban], in_loaded := [loaded_answer ''acme'' True (Time 2)],
     in_checks := \<lparr>ck_checker = \<lparr>bc_banned = entries\<rparr>, ck_threads = ths, ck_raced = {}\<rparr>\<rparr>"

definition demo_loaded :: server_instance where
  "demo_loaded = demo_calls [''acme'' \<mapsto> \<lparr>be_banned = True, be_updatedAt = Time 2\<rparr>] [Returned, Returned]"

lemma demo_merged:
  "demo_cluster_step\<^sup>*\<^sup>*
     (demo_cluster demo_banned_store (Stamped demo_ban) 3 [[]] [new_instance 0] [Applying (Time 2) ''acme'' True []] [demo_ban])
     (demo_cluster demo_banned_store Idle 3 [[]] [demo_loaded] [InApply (Time 2) 0 []] [demo_ban])"
proof -
  let ?bus = "OverRedis (RedisEventBus_New ''events'')" and ?ans = "Applying (Time 2) ''acme'' True []" and ?in = "InApply (Time 2) 0 []"
  let ?v = "\<lparr>be_banned = True, be_updatedAt = Time 2\<rparr>" and ?since = "(new_instance 0)\<lparr>in_since := [demo_ban]\<rparr>"
  let ?got = "?since\<lparr>in_running := [(ban_handler, demo_ban)]\<rparr>" and ?e = "[''acme'' \<mapsto> \<lparr>be_banned = True, be_updatedAt = Time 2\<rparr>]"
  let ?x3 = "(demo_calls Map.empty [Starting ''acme'' True (Time 2)])\<lparr>in_running := [(ban_handler, demo_ban)]\<rparr>"
  let ?x4 = "(demo_calls Map.empty [Loaded ''acme'' True (Time 2) None])\<lparr>in_running := [(ban_handler, demo_ban)]\<rparr>"
  let ?x5 = "demo_calls Map.empty [Loaded ''acme'' True (Time 2) None, Starting ''acme'' True (Time 1)]"
  let ?x6 = "demo_calls ?e [Returned, Starting ''acme'' True (Time 1)]"
  let ?x7 = "demo_calls ?e [Returned, Loaded ''acme'' True (Time 1) (Some ?v)]"
  let ?at = "\<lambda>call boxes x load. demo_cluster demo_banned_store call 3 boxes [x] [load] [demo_ban]"
  let ?s0 = "?at (Stamped demo_ban) [[]] (new_instance 0) ?ans"
  let ?s1 = "?at Idle [[''acme'']] ?since ?ans" and ?s2 = "?at Idle [[]] ?got ?ans" and ?s3 = "?at Idle [[]] ?x3 ?in"
  note demo = cluster_demo demo_calls_def demo_loaded_def checker_defs outdated_def delete_at_def less_Time_def
  have move: "demo_cluster_step (?at Idle box x ld) (?at Idle box' x' ld)"
    if "fleet_move demo_broker demo_unmarshal ?bus (cl_fleet (?at Idle box x ld)) (cl_fleet (?at Idle box' x' ld))" and "in_loaded x' = in_loaded x"
    for box box' x x' ld
    using cluster_step.instances [OF that(1)] that(2) by (simp add: demo_cluster_def Broker_Delivery.demo_system_def)
  have op: "demo_cluster_step (?at Idle [[]] x ?in) (?at Idle [[]] x' ?in)"
    if "x' = x\<lparr>in_checks := advance_apply j (in_checks x)\<rparr>" "j < length (ck_threads (in_checks x))" for x x' j
    by (rule move) (use that fleet_move.operate [of 0 "cl_fleet (?at Idle [[]] x ?in)" x j] in \<open>simp_all add: cluster_demo\<close>)
  have "demo_cluster_step ?s0 ?s1"
    using cluster_step.publish [of ?s0 demo_ban demo_broker demo_marshal ?bus Background "Inr ()" "cl_fleet ?s1"] by (simp add: demo)
  moreover have "demo_cluster_step ?s1 ?s2"
    using fleet_move.receive [of 0 "cl_fleet ?s1" ?since demo_broker "''acme''" "fl_broker (cl_fleet ?s2)" demo_unmarshal ?bus]
    by (intro move) (simp_all add: demo)
  moreover have "demo_cluster_step ?s2 ?s3"
    using cluster_step.apply_answer [of 0 ?s2 "Time 2" "''acme''" True "[]" ?got ?x3] by (simp add: demo)
  moreover have "demo_cluster_step ?s3 (?at Idle [[]] ?x4 ?in)" by (rule op [where j = 0]) (simp_all add: demo)
  moreover have "demo_cluster_step (?at Idle [[]] ?x4 ?in) (?at Idle [[]] ?x5 ?in)"
    using fleet_move.run [of 0 "cl_fleet (?at Idle [[]] ?x4 ?in)" ?x4 0 ban_handler demo_ban demo_broker demo_unmarshal ?bus]
    by (intro move) (simp_all add: demo)
  moreover have "demo_cluster_step (?at Idle [[]] ?x5 ?in) (?at Idle [[]] ?x6 ?in)" by (rule op [where j = 0]) (simp_all add: demo)
  moreover have "demo_cluster_step (?at Idle [[]] ?x6 ?in) (?at Idle [[]] ?x7 ?in)" by (rule op [where j = 1]) (simp_all add: demo)
  moreover have "demo_cluster_step (?at Idle [[]] ?x7 ?in) (?at Idle [[]] demo_loaded ?in)" by (rule op [where j = 1]) (simp_all add: demo)
  ultimately show ?thesis by (simp add: converse_rtranclp_into_rtranclp)
qed

lemma demo_finished:
  "demo_cluster_step\<^sup>*\<^sup>* (demo_cluster demo_banned_store Idle 3 [[]] [demo_loaded] [InApply (Time 2) 0 []] [demo_ban])
     (demo_cluster demo_banned_store Idle 3 [[]] [demo_loaded] [LoadReturned (Inr ())] [demo_ban])"
proof -
  let ?at = "\<lambda>load. demo_cluster demo_banned_store Idle 3 [[]] [demo_loaded] [load] [demo_ban]"
  have "demo_cluster_step (?at (InApply (Time 2) 0 [])) (?at (Loading (Time 2) []))"
    using cluster_step.apply_returns [of 0 "?at (InApply (Time 2) 0 [])" "Time 2" 0 "[]" demo_loaded]
    by (simp add: cluster_demo demo_loaded_def demo_calls_def)
  moreover have "demo_cluster_step (?at (Loading (Time 2) [])) (?at (LoadReturned (Inr ())))"
    using cluster_step.finish [of 0 "?at (Loading (Time 2) [])" "Time 2"] by (simp add: cluster_demo)
  ultimately show ?thesis by (simp add: converse_rtranclp_into_rtranclp)
qed

theorem fleet_agrees_with_store_witness:
  "\<exists>s. demo_cluster_step\<^sup>*\<^sup>* (cluster_begin demo_store NewPublishRetryQueue (\<lambda>k. Time (int (1 + k))) (False, [])) s \<and>
     fl_instances (cl_fleet s) = [demo_loaded] \<and> BanChecker_IsBanned (in_checker demo_loaded) ''acme''"
proof -
  let ?s = "demo_cluster demo_banned_store Idle 3 [[]] [demo_loaded] [LoadReturned (Inr ())] [demo_ban]"
  note run = rtranclp_trans [OF demo_started rtranclp_trans [OF demo_merged demo_finished]]
  have clock: "strict_mono (\<lambda>k. Time (int (1 + k)))" by (simp add: strict_mono_def less_Time_def)
  have s: "cl_calls ?s ''acme'' = Idle" "cl_failed ?s = []" "q_pending (ws_queue (cl_system ?s)) = []" "q_log (ws_queue (cl_system ?s)) = []"
    "at_load ?s 0 (LoadReturned (Inr ()))" "at_instance (cl_fleet ?s) 0 demo_loaded"
    by (simp_all add: cluster_demo NewPublishRetryQueue_def)
  have x: "at_rest demo_inbox demo_dropped (fl_broker (cl_fleet ?s)) demo_loaded" "''acme'' \<notin> ck_raced (in_checks demo_loaded)"
    by (simp_all add: demo_loaded_def demo_calls_def cluster_demo at_rest_def demo_inbox_def demo_dropped_def finished_def)
  have json: "json_documented demo_marshal demo_unmarshal (cl_events ?s)" by (simp add: json_documented_def cluster_demo)
  from fleet_agrees_with_store [OF demo_broker_documented demo_store_inv clock fresh_queue_New _ run s x json]
  have "BanChecker_IsBanned (in_checker demo_loaded) ''acme''" using demo_banned(3) by (simp add: demo_cluster_def)
  moreover have "fl_instances (cl_fleet ?s) = [demo_loaded]" by (simp add: cluster_demo)
  ultimately show ?thesis using run by blast
qed

end
