(* ===== verification/Spec2Isabelle.thy ===== *)
theory Spec2Isabelle
  imports Loadtest_Concurrent Ban_Startup Admin_Concurrent Cache_Key Rate_Isolation Redis_Rate_Limiter
    Metrics_Concurrent Fleet_Agreement
begin

text \<open>
  A verification of \<^verbatim>\<open>tenant-core\<close>, a Go toolkit for multi-tenant services. This is the root
  theory: it imports the whole development, describes it, and holds the property that spans
  the cache keys and the resolver.

  \<^bold>\<open>The program.\<close> A request arrives at a middleware adapter (\<^verbatim>\<open>middleware/\<close>), which asks the
  \<^verbatim>\<open>Manager\<close> (\<^verbatim>\<open>tenant.go\<close>) for its tenant. The manager takes the identifier from a \<^verbatim>\<open>Resolver\<close>
  (\<^verbatim>\<open>resolver/subdomain.go\<close>: one label before the base domain) and the tenant from a \<^verbatim>\<open>Store\<close>
  (\<^verbatim>\<open>store/memory.go\<close>, usually behind \<^verbatim>\<open>store/cached.go\<close>); the adapter puts it into the request's
  context (\<^verbatim>\<open>tenantctx\<close>) for the application, which checks permissions (\<^verbatim>\<open>rbac\<close>), limits
  (\<^verbatim>\<open>ratelimit\<close>), counts (\<^verbatim>\<open>metrics\<close>) and builds cache keys (\<^verbatim>\<open>cachekey\<close>) by it. On the other side
  the administration service (\<^verbatim>\<open>admin\<close>) changes the state of a tenant in the store and publishes
  an event on an \<^verbatim>\<open>EventBus\<close> (\<^verbatim>\<open>eventbus\<close>: in-process, Redis, NATS); a \<^verbatim>\<open>BanChecker\<close>
  (\<^verbatim>\<open>banchecker\<close>) on each instance follows the events, and events that could not be published
  wait in a retry queue. \<^verbatim>\<open>cmd/server\<close> and the load test servers assemble these parts.

  \<^bold>\<open>How it is modelled.\<close>
  \<^item> A struct is a record with the source's fields (prefixed where two structs share a field
    name), a named string type a string, an interface a record of functions or a function, an
    option function a function on the struct. Identifiers, states and roles are strings, as in
    the source: a state need not be one of the three constants.
  \<^item> A method is a function on explicit state. A Go error is \<^term>\<open>Inl\<close> of a \<open>go_error\<close>; sentinel
    errors are distinct values and \<^verbatim>\<open>errors.Is\<close> follows wrapping. A panic is a value too.
  \<^item> Pointers matter where structs are shared: tenants live on a heap of structs and of
    backing arrays for \<^verbatim>\<open>Roles\<close>; the entries of the retry queue, rate limiters and broker
    subscriptions have addresses.
  \<^item> \<^verbatim>\<open>int64\<close> and \<^verbatim>\<open>time.Duration\<close> are 64-bit words with wrap-around; \<^verbatim>\<open>time.Time\<close> is a number of
    nanoseconds, and \<^verbatim>\<open>time.Now\<close> takes the next value of a sequence of readings. Properties
    that need a clock that does not go back say so.
  \<^item> An operation that holds a mutex from its first to its last statement is one function.
    Where an operation releases it, or uses several operations of a \<^verbatim>\<open>sync.Map\<close>, concurrent
    calls are an inductive step relation whose steps are the atomic sections: the retry
    worker, the ban checker's \<^verbatim>\<open>apply\<close> and its start-up, lookups through the cache, the rate
    limiter, the counters of the metrics, the broker buses and the instances behind them, the
    server with its requests and its life. Goroutines started by \<^verbatim>\<open>Publish\<close> are part of the bus's
    state and start in any order. Every model in which a ban checker is used has the calls of its
    \<^verbatim>\<open>apply\<close> in progress as part of its state, with their \<^verbatim>\<open>Load\<close> and their \<^verbatim>\<open>Store\<close> as steps; what is
    shown of a checker's knowledge is shown for the tenants for which no update was lost, that is
    for which no call stored over an entry that another had written since its own \<^verbatim>\<open>Load\<close>.
  \<^item> Every loop of the sources runs over a finite list, or is a worker loop that is a step
    relation here. No definition needs fuel and none is partial.
  \<^item> Code outside the repository is an argument: \<^verbatim>\<open>singleflight.Group.Do\<close>, \<^verbatim>\<open>rate.Limiter\<close>, the
    clients of Redis, NATS and Prometheus, the contexts of Gin and Echo, the application's
    authenticator, limit functions and handlers. What the program relies on of their
    documented behaviour is a named hypothesis (\<open>singleflight_solo\<close> for a caller that is alone
    on its key and \<open>singleflight_documented\<close> for concurrent ones, \<open>redis_documented\<close> for the
    commands of Redis and the expiry of its keys, \<open>broker_documented\<close> for brokers that deliver at
    most once, \<open>json_documented\<close>), and a witness instantiates it.

  \<^bold>\<open>The theories.\<close>
  \<^item> \<open>Prelude\<close>: generic lemmas and theorem collections. \<open>Go_Lib\<close>, \<open>Go_Http\<close>: the parts of the Go
    library the sources use (words, time, errors, \<^verbatim>\<open>strings\<close>, \<^verbatim>\<open>strconv\<close>, contexts, requests,
    \<^verbatim>\<open>ServeMux\<close>).
  \<^item> \<open>Tenant\<close> (\<^verbatim>\<open>tenant.go\<close>): the data, the interfaces, the \<^verbatim>\<open>Manager\<close>. The locales \<open>tenant_store\<close>
    and \<open>tenant_admin_store\<close> are the contracts of \<^verbatim>\<open>Store\<close> and \<^verbatim>\<open>AdminStore\<close>; what
    \<^verbatim>\<open>Manager.Resolve\<close> does is proved in the first.
  \<^item> \<open>Memory_Store\<close> (\<^verbatim>\<open>store/memory.go\<close>): interprets both; every history of calls and of
    assignments to returned structs refines a plain map. The copy is shallow: the array behind
    \<^verbatim>\<open>Roles\<close> is shared.
  \<^item> \<open>Cached_Store\<close> (\<^verbatim>\<open>store/cached.go\<close>): the cache over a store keeps the contract (a
    \<^theory_text>\<open>sublocale\<close>), is at most one TTL behind its source, never caches the ban state, and shares
    its pointers among callers. \<open>Cached_Concurrent\<close>: any number of goroutines inside \<^verbatim>\<open>Get\<close>, with
    one execution per tenant at a time and a cache that never goes back to an older answer;
    \<open>Cached_Progress\<close>: some goroutine that is not done can always go on; \<open>Cached_Tenants\<close>: what lookups
    return of tenants whose identifiers and roles are fixed.
  \<^item> \<open>Subdomain_Resolver\<close>, \<open>Cache_Key\<close>, \<open>Rbac\<close>, \<open>Tenant_Context\<close> (\<^verbatim>\<open>resolver\<close>, \<^verbatim>\<open>cachekey\<close>, \<^verbatim>\<open>rbac\<close>,
    \<^verbatim>\<open>tenantctx\<close>, \<^verbatim>\<open>tenanttest\<close>): exact characterisations and round trips.
  \<^item> \<open>Middleware\<close> (\<^verbatim>\<open>middleware/*\<close>): the four adapters agree; a handler only ever sees the tenant
    its request's host names. \<open>Middleware_Concurrent\<close>: requests in parallel, for any application that keeps the contract of
    the locale \<open>tenant_application\<close>: every answer is the one due to its request alone.
  \<^item> \<open>Event_Bus\<close>, \<open>Broker_Bus\<close> (\<^verbatim>\<open>eventbus/*\<close>): the in-process bus; the bookkeeping of the broker
    buses against a concurrent \<^verbatim>\<open>Stop\<close>, proved in the locale \<open>stoppable_bus\<close> that each of them
    interprets. \<open>Broker_Instances\<close>: several instances with ban checkers behind either broker,
    publications that fail half-way and are repeated, messages that are lost, and what the
    instances to which none was lost then agree on;
    \<open>Broker_Delivery\<close>: the retry queue as the one that repeats them.
  \<^item> \<open>Ban_Checker\<close> (\<^verbatim>\<open>banchecker\<close>): calls of \<^verbatim>\<open>apply\<close> that do not overlap, the snapshot load, and the
    update two overlapping calls can lose. \<open>Ban_Threads\<close>: calls that overlap in any way, behind the
    in-process bus: the newest information wins wherever no update was lost.
  \<^item> \<open>Retry_Queue\<close>, \<open>Retry_Worker\<close> (\<^verbatim>\<open>admin/retry_queue.go\<close>): one round of the worker as a
    function, with its effect, back-off and bounds; then the worker beside \<^verbatim>\<open>Enqueue\<close>, \<^verbatim>\<open>Stop\<close>
    and the bus, where no event is lost without a line of the log.
  \<^item> \<open>Admin\<close>, \<open>Admin_Http\<close> (\<^verbatim>\<open>admin/admin.go\<close>, \<^verbatim>\<open>http.go\<close>, \<^verbatim>\<open>auth.go\<close>): the transition, proved from the
    store's contract (locale \<open>admin_service\<close>), and the REST API in front of it. \<open>Admin_Concurrent\<close>:
    requests to the API in parallel, step by step; from the same contract, each has exactly the effects and the
    answer due to it, and no event precedes its write; a request alone is the handler of \<open>Admin_Http\<close>.
  \<^item> \<open>Ban_Propagation\<close>: service, store, bus and checker together: they agree after calls one
    after the other, and need not after concurrent ones. \<open>Ban_Startup\<close>: an instance that
    subscribes and loads its snapshot while the system is in use misses no ban.
    \<open>Fleet_Agreement\<close>: the same over a broker, with the retry queue, failing publications and any
    number of instances that start while bans are made, for any number of callers as long as each tenant has
    one at a time: every instance agrees with the store.
  \<^item> \<open>Rate_Limiter\<close>, \<open>Redis_Rate_Limiter\<close> (\<^verbatim>\<open>ratelimit/*\<close>): one limiter per tenant under
    concurrency; the fixed window quota, with the conditions under which a counter lasts as long as
    its window, and the bound of twice the limit across a boundary. \<open>Rate_Isolation\<close>: the interface, with the locale
    \<open>isolated_rate_limiter\<close> as its contract: a tenant's answers depend on its own calls only.
  \<^item> \<open>Metrics\<close>, \<open>Metrics_Concurrent\<close> (\<^verbatim>\<open>metrics/*\<close>): the interface with the contract of the locale
    \<open>metrics_collector\<close>, the counters in memory and the Prometheus adapter; no update is lost in
    any interleaving, and snapshots are exact within 64 bits.
  \<^item> \<open>Server_Config\<close>, \<open>Server\<close>, \<open>Loadtest_Servers\<close> (\<^verbatim>\<open>cmd/*\<close>, \<^verbatim>\<open>loadtest/servers/*\<close>): configuration,
    health check, assembly, probes, tenant isolation of the endpoints, and that every request
    is answered without a panic. \<open>Server_Concurrent\<close>: requests in parallel, through the routers,
    the resolver and the concurrent lookups, beside the life of the process: every answer is
    the one due to its request alone, whatever the others do, and the server can always be
    drained; a request that nobody interrupts is served as in \<open>Server\<close>. \<open>Loadtest_Concurrent\<close>: the load test
    servers under load, as interpretations of \<open>tenant_application\<close>.

  \<^bold>\<open>Not modelled.\<close> The text of log lines (that a line is written is kept where it is the only
  trace of a lost event or a failed publication), listening sockets and signals (steps of the
  server's relation), the encoding of JSON (bodies are values), response headers but
  \<^verbatim>\<open>Content-Type\<close>, the conversion of durations to floating-point seconds, the redirects of
  \<^verbatim>\<open>ServeMux\<close>, the profiler of a load test server, scripts, container and CI files. The adapters
  for Chi, Gin and Echo are modelled for one request after the other, where they agree with the one for \<^verbatim>\<open>net/http\<close>;
  that one, the REST API, the servers and the components they share (cache, limiters, counters, retry queue,
  ban checker) also for concurrent use. An administrative
  call in \<open>Ban_Startup\<close> is made by one caller at a time, in \<open>Fleet_Agreement\<close> by one at a time for each tenant: with
  two for the same tenant the property fails, as \<open>Ban_Propagation\<close> shows. \<open>Fleet_Agreement\<close> has one clock for
  all processes. In \<open>Broker_Bus\<close> the registration of a subscription and the return of nil are one step, and in
  \<open>Server\<close> the function \<open>server_main\<close> ends where the server starts to listen; what follows is the step relation.

  \<^bold>\<open>State of the plan.\<close> All components are in place: data, stores, resolution, middleware, administration
  with its REST API, event propagation within a process and over brokers up to the agreement of all instances with
  the store, retry, limits, metrics, servers; each for one call after the other and, where the program
  runs it concurrently, for the interleavings of its steps. What remains outside is listed above: it is text, transport or code of
  other projects.
\<close>

section \<open>Cache keys of resolved tenants\<close>

text \<open>
  C37. Cache keys of tenants that the subdomain resolver identified are isolated: two
  resolved tenants share a key only if they are the same tenant asking for the same
  logical key.
\<close>

theorem resolved_cache_keys_isolated:
  assumes "SubdomainResolver_Resolve sr r = Inr i" and "SubdomainResolver_Resolve sr' r' = Inr j"
    and "Key i k = Key j l"
  shows "i = j \<and> k = l"
  using assms Key_inject Resolve_id_charset by blast

theorem resolved_cache_keys_isolated_witness:
  "let sr = NewSubdomainResolver ''localhost'';
       r = \<lparr>Method = ''GET'', Host = ''acme.localhost'', Path = [], req_Context = Background,
            pathValues = []\<rparr>;
       r' = r\<lparr>Host := ''acme.localhost:8080''\<rparr>
   in SubdomainResolver_Resolve sr r = Inr ''acme'' \<and>
      SubdomainResolver_Resolve sr r' = Inr ''acme'' \<and>
      Key ''acme'' ''user:1'' = ''tenant:acme:user:1'' \<and> Key ''acme'' ''user:2'' \<noteq> Key ''acme'' ''user:1''"
proof -
  let ?r = "\<lparr>Method = ''GET'', Host = ''acme.localhost'', Path = [], req_Context = Background,
      pathValues = []\<rparr>"
  have r: "SubdomainResolver_Resolve (NewSubdomainResolver ''localhost'') ?r = Inr ''acme''"
    by (simp add: Resolve_Inr_iff NewSubdomainResolver_def host_name_def)
  have r': "SubdomainResolver_Resolve (NewSubdomainResolver ''localhost'')
      (?r\<lparr>Host := ''acme.localhost:8080''\<rparr>) = Inr ''acme''"
    by (simp add: Resolve_Inr_iff NewSubdomainResolver_def host_name_def)
  from resolved_cache_keys_isolated [OF r r', of "''user:2''" "''user:1''"]
  show ?thesis using r r' by (auto simp: Let_def Key_def)
qed

end
